(* ===== verification/Prelude.thy ===== *)
theory Prelude
  imports Main "HOL-Library.Word" "HOL-Library.Sublist"
begin

text \<open>
  Shared vocabulary of the development: the fixed-width integers of the C++ sources, the
  faults a C++ expression can have instead of a value (undefined behaviour made explicit),
  reads of raw packet memory in host and in network byte order, and the generic list
  lemmas the component theories use.
\<close>

unbundle bit_operations_syntax

section \<open>Types\<close>

type_synonym u8 = "8 word"
type_synonym u16 = "16 word"
type_synonym u32 = "32 word"
type_synonym u64 = "64 word"

text \<open>
  What replaces a value when the source's behaviour is undefined: a member call through an
  empty \<open>shared_ptr\<close> or a null pointer, a read outside of a vector or of the packet
  memory, a signed overflow; and \<open>Hang\<close> for a call that does not return.
\<close>

datatype fault = NullDeref | OutOfBounds | IntOverflow | Hang

definition try_bind :: "'e + 'a \<Rightarrow> ('a \<Rightarrow> 'e + 'b) \<Rightarrow> 'e + 'b" where
  "try_bind m f = (case m of Inl e \<Rightarrow> Inl e | Inr x \<Rightarrow> f x)"

lemma try_bind_simps [simp]:
  "try_bind (Inl e) f = Inl e"
  "try_bind (Inr x) f = f x"
  by (simp_all add: try_bind_def)

lemma try_bind_Inr_iff: "try_bind m f = Inr y \<longleftrightarrow> (\<exists>x. m = Inr x \<and> f x = Inr y)"
  by (cases m) auto

lemma try_bind_Inl_iff: "try_bind m f = Inl e \<longleftrightarrow> m = Inl e \<or> (\<exists>x. m = Inr x \<and> f x = Inl e)"
  by (cases m) auto

section \<open>Collections of facts\<close>

named_theorems router_eval \<open>definitions that evaluate the router on concrete arguments\<close>

section \<open>Packet memory and byte order\<close>

text \<open>
  The packets are byte vectors that the code reads through casts to the protocol headers.
  The host is little-endian: a 16 or 32 bit field is loaded with its first byte lowest, and
  \<open>ntohs\<close>, \<open>ntohl\<close> swap the bytes.
\<close>

definition load8 :: "u8 list \<Rightarrow> nat \<Rightarrow> fault + u8" where
  "load8 bs i = (if i < length bs then Inr (bs ! i) else Inl OutOfBounds)"

definition host16 :: "u8 \<Rightarrow> u8 \<Rightarrow> u16" where
  "host16 b0 b1 = ucast b0 OR push_bit 8 (ucast b1)"

definition host32 :: "u8 \<Rightarrow> u8 \<Rightarrow> u8 \<Rightarrow> u8 \<Rightarrow> u32" where
  "host32 b0 b1 b2 b3 =
     ucast b0 OR push_bit 8 (ucast b1) OR push_bit 16 (ucast b2) OR push_bit 24 (ucast b3)"

definition load16 :: "u8 list \<Rightarrow> nat \<Rightarrow> fault + u16" where
  "load16 bs i =
     (if i + 1 < length bs then Inr (host16 (bs ! i) (bs ! (i + 1))) else Inl OutOfBounds)"

definition load32 :: "u8 list \<Rightarrow> nat \<Rightarrow> fault + u32" where
  "load32 bs i =
     (if i + 3 < length bs
      then Inr (host32 (bs ! i) (bs ! (i + 1)) (bs ! (i + 2)) (bs ! (i + 3)))
      else Inl OutOfBounds)"

definition ntohs :: "u16 \<Rightarrow> u16" where
  "ntohs w = push_bit 8 w OR drop_bit 8 w"

definition ntohl :: "u32 \<Rightarrow> u32" where
  "ntohl w = push_bit 24 w OR (push_bit 8 w AND 0xFF0000)
             OR (drop_bit 8 w AND 0xFF00) OR drop_bit 24 w"

lemma ntohs_host16: "ntohs (host16 b0 b1) = host16 b1 b0"
  unfolding ntohs_def host16_def
  by (rule bit_word_eqI) (auto simp: bit_simps dest: bit_imp_le_length)

lemma ntohs_ntohs [simp]: "ntohs (ntohs w) = w"
  unfolding ntohs_def by (rule bit_word_eqI) (auto simp: bit_simps)

text \<open>A 16 bit field in network order has its first byte highest.\<close>

lemma unat_ntohs_host16: "unat (ntohs (host16 b0 b1)) = 256 * unat b0 + unat b1"
proof -
  have d: "ucast b1 AND push_bit 8 (ucast b0 :: u16) = (0 :: u16)"
    by (rule bit_word_eqI) (auto simp: bit_simps dest: bit_imp_le_length)
  have "host16 b1 b0 = ucast b1 + push_bit 8 (ucast b0 :: u16)"
    unfolding host16_def using d by (simp add: disjunctive_add_eq_or)
  moreover have b: "unat b1 < 256" "unat b0 < 256"
    using unsigned_less [of b0, where ?'a = nat] unsigned_less [of b1, where ?'a = nat]
    by simp_all
  moreover have "unat (push_bit 8 (ucast b0 :: u16)) = 256 * unat b0"
    using b by (simp add: push_bit_eq_mult unat_word_ariths unsigned_ucast_eq take_bit_eq_mod)
  ultimately show ?thesis
    by (simp add: ntohs_host16 unat_word_ariths unsigned_ucast_eq take_bit_eq_mod)
qed

section \<open>Lists\<close>

text \<open>A list of pending handlers or timers without the one that runs.\<close>

definition drop_nth :: "nat \<Rightarrow> 'b list \<Rightarrow> 'b list" where
  "drop_nth k xs = take k xs @ drop (Suc k) xs"

lemma drop_nth_one: "length xs = 1 \<Longrightarrow> k < length xs \<Longrightarrow> drop_nth k xs = []"
  by (simp add: drop_nth_def)

lemma subseq_append_left: "subseq (xs @ ys) zs \<Longrightarrow> subseq xs zs"
  by (metis subseq_order.trans subseq_rev_drop_many subseq_order.refl)

lemma subseq_distinct: "subseq xs ys \<Longrightarrow> distinct ys \<Longrightarrow> distinct xs"
  by (induction rule: list_emb.induct) (auto dest: list_emb_set)

lemma subseq_length: "subseq xs ys \<Longrightarrow> length xs \<le> length ys"
  by (rule list_emb_length)

end
