(* ===== verification/Packets.thy ===== *)
theory Packets
  imports Prelude
begin

text \<open>
  The packet classes: \<open>ParentPacket\<close> (parent\_packet.hpp), \<open>Packet\<close> (packet.hpp,
  packet.cpp) and \<open>Packet6\<close> (packet6.hpp, packet6.cpp). Inheritance is record extension,
  so the filters that take a \<open>ParentPacket\<close> are polymorphic in the extension. A constructor
  starts from \<open>raw\<close>, the uninitialised storage of the object: a field that the constructor
  does not set keeps the value it happens to have there. The queue handle \<open>qh_\<close>, of which
  there is one, is left out; a verdict is the pair of the packet's netfilter id and the
  decision passed to \<open>nfq_set_verdict\<close>.
\<close>

section \<open>ParentPacket\<close>

record parent_packet =
  stamp :: int \<comment> \<open>\<open>stamp_\<close>, in microseconds\<close>
  isIngoing :: bool
  verdictSet :: bool
  nfqID :: int
  packetDataLen :: int
  packetData :: "u8 list"
  strInboundInterface :: string
  strOutboundInterface :: string
  sport :: u16
  dport :: u16
  icmpId :: u16

type_synonym verdict = "int \<times> bool"

definition setVerdict ::
  "bool \<Rightarrow> 'a parent_packet_scheme \<Rightarrow> 'a parent_packet_scheme \<times> verdict list" where
  "setVerdict accept p =
     (if verdictSet p then (p, [])
      else if accept then (p\<lparr>verdictSet := True\<rparr>, [(nfqID p, True)])
      else (p\<lparr>verdictSet := True\<rparr>, [(nfqID p, False)]))"

definition resetTimeStamp :: "int \<Rightarrow> 'a parent_packet_scheme \<Rightarrow> 'a parent_packet_scheme" where
  "resetTimeStamp now p = p\<lparr>stamp := now\<rparr>"

text \<open>\<open>getPacketLen\<close> converts the \<open>int\<close> length to \<open>uint32_t\<close>.\<close>

definition getPacketLen :: "'a parent_packet_scheme \<Rightarrow> u32" where
  "getPacketLen p = word_of_int (packetDataLen p)"

definition IPPROTO_ICMP :: u8 where "IPPROTO_ICMP = 1"
definition IPPROTO_TCP :: u8 where "IPPROTO_TCP = 6"
definition IPPROTO_UDP :: u8 where "IPPROTO_UDP = 17"
definition IPPROTO_ICMPV6 :: u8 where "IPPROTO_ICMPV6 = 58"

lemmas ipproto_defs = IPPROTO_ICMP_def IPPROTO_TCP_def IPPROTO_UDP_def IPPROTO_ICMPV6_def

lemma ipproto_distinct: "IPPROTO_TCP \<noteq> IPPROTO_UDP"
  by (simp add: ipproto_defs)

text \<open>
  \<open>decodeTransportProtocol(transProt, packetData_.data() + off)\<close>: the ports lie at bytes 0
  and 2 of a UDP or TCP header and are in network order; the id of an ICMP echo lies at
  byte 4 and is taken as it is in memory. For any other protocol the port fields are left
  as they are.
\<close>

definition decodeTransportProtocol ::
  "u8 \<Rightarrow> u8 list \<Rightarrow> nat \<Rightarrow> 'a parent_packet_scheme \<Rightarrow> fault + 'a parent_packet_scheme" where
  "decodeTransportProtocol transProt mem off p =
     (if transProt = IPPROTO_UDP then
        try_bind (load16 mem off) (\<lambda>sp. try_bind (load16 mem (off + 2)) (\<lambda>dp.
          Inr (p\<lparr>sport := ntohs sp, dport := ntohs dp\<rparr>)))
      else if transProt = IPPROTO_TCP then
        try_bind (load16 mem off) (\<lambda>sp. try_bind (load16 mem (off + 2)) (\<lambda>dp.
          Inr (p\<lparr>sport := ntohs sp, dport := ntohs dp\<rparr>)))
      else if transProt = IPPROTO_ICMP then
        try_bind (load16 mem (off + 4)) (\<lambda>i. Inr (p\<lparr>icmpId := i, sport := i, dport := i\<rparr>))
      else if transProt = IPPROTO_ICMPV6 then
        try_bind (load16 mem (off + 4)) (\<lambda>i. Inr (p\<lparr>icmpId := i, sport := i, dport := i\<rparr>))
      else Inr p)"

text \<open>
  What the netfilter library hands to the constructors: the packet id (after
  \<open>ntohl\<close>), the payload (\<open>None\<close> when \<open>nfq_get_payload\<close> fails and returns \<open>-1\<close>) and the
  names of the devices, where there is one.
\<close>

record nfq_data =
  packet_id :: int
  payload :: "u8 list option"
  indev :: "string option"
  outdev :: "string option"

section \<open>Packet\<close>

record packet = parent_packet +
  transProt :: u8
  srcIp :: u32
  dstIp :: u32
  ipFrag :: u16
  ipHdrLen :: u8

text \<open>\<open>ip->ihl << 2\<close>: the header length in bytes, from the low half of the first byte.\<close>

definition ihl_bytes :: "u8 \<Rightarrow> u8" where
  "ihl_bytes b = push_bit 2 (b AND 0xF)"

definition Packet_new :: "int \<Rightarrow> nfq_data \<Rightarrow> packet \<Rightarrow> fault + packet" where
  "Packet_new now nfa raw =
     (case payload nfa of
        None \<Rightarrow> Inl OutOfBounds
      | Some mem \<Rightarrow>
          let p = raw\<lparr>stamp := now, verdictSet := False, nfqID := packet_id nfa,
                packetDataLen := int (length mem), packetData := mem,
                strInboundInterface := (case indev nfa of None \<Rightarrow> '''' | Some i \<Rightarrow> i),
                strOutboundInterface := (case outdev nfa of None \<Rightarrow> '''' | Some i \<Rightarrow> i)\<rparr>
          in try_bind (load16 mem 6) (\<lambda>frag_off.
             try_bind (load8 mem 9) (\<lambda>protocol.
             try_bind (load8 mem 0) (\<lambda>ihl.
             try_bind (load32 mem 12) (\<lambda>saddr.
             try_bind (load32 mem 16) (\<lambda>daddr.
             let p' = p\<lparr>ipFrag := ntohs frag_off, transProt := protocol,
                   ipHdrLen := ihl_bytes ihl,
                   srcIp := ntohl saddr, dstIp := ntohl daddr\<rparr>
             in decodeTransportProtocol (transProt p') mem (unat (ipHdrLen p')) p'))))))"

text \<open>The packet constructor of the unit tests.\<close>

definition Packet_test :: "int \<Rightarrow> packet \<Rightarrow> u32 \<Rightarrow> u32 \<Rightarrow> u16 \<Rightarrow> u16 \<Rightarrow> packet" where
  "Packet_test now raw src dst sp dp =
     raw\<lparr>stamp := now, verdictSet := False, packetData := [], ipFrag := 5,
       transProt := IPPROTO_TCP, srcIp := src, dstIp := dst, sport := sp, dport := dp,
       ipHdrLen := 20, nfqID := 5, strInboundInterface := ''eth8'',
       strOutboundInterface := ''eth9''\<rparr>"

text \<open>The one without arguments has fixed addresses and sets no ports.\<close>

definition Packet_dummy :: "int \<Rightarrow> packet \<Rightarrow> packet" where
  "Packet_dummy now raw =
     raw\<lparr>stamp := now, verdictSet := False, packetData := [], ipFrag := 5,
       transProt := IPPROTO_TCP, srcIp := 33685514, dstIp := 33559212,
       ipHdrLen := 20, nfqID := 5, strInboundInterface := ''eth8'',
       strOutboundInterface := ''eth9''\<rparr>"

definition getFragmentFlags :: "packet \<Rightarrow> u16" where
  "getFragmentFlags p = ipFrag p AND 0xE000"

definition getFragmentID :: "packet \<Rightarrow> u16" where
  "getFragmentID p = ipFrag p AND 0x1FFF"

section \<open>Packet6\<close>

record packet6 = parent_packet +
  flow :: u32
  plen :: u16
  nxt :: u8
  hlim :: u8
  srcIp6 :: "u8 list"
  dstIp6 :: "u8 list"

definition load_in6 :: "u8 list \<Rightarrow> nat \<Rightarrow> fault + u8 list" where
  "load_in6 mem i = (if i + 16 \<le> length mem then Inr (take 16 (drop i mem)) else Inl OutOfBounds)"

definition Packet6_new :: "int \<Rightarrow> nfq_data \<Rightarrow> packet6 \<Rightarrow> fault + packet6" where
  "Packet6_new now nfa raw =
     (case payload nfa of
        None \<Rightarrow> Inl OutOfBounds
      | Some mem \<Rightarrow>
          let p = raw\<lparr>stamp := now, verdictSet := False, nfqID := packet_id nfa,
                packetDataLen := int (length mem), packetData := mem,
                strInboundInterface := (case indev nfa of None \<Rightarrow> '''' | Some i \<Rightarrow> i),
                strOutboundInterface := (case outdev nfa of None \<Rightarrow> '''' | Some i \<Rightarrow> i)\<rparr>
          in try_bind (load32 mem 0) (\<lambda>ip6_flow.
             try_bind (load16 mem 4) (\<lambda>ip6_plen.
             try_bind (load8 mem 6) (\<lambda>ip6_nxt.
             try_bind (load8 mem 7) (\<lambda>ip6_hlim.
             try_bind (load_in6 mem 8) (\<lambda>ip6_src.
             try_bind (load_in6 mem 24) (\<lambda>ip6_dst.
             let p' = p\<lparr>flow := ip6_flow, plen := ntohs ip6_plen, nxt := ip6_nxt,
                   hlim := ip6_hlim, srcIp6 := ip6_src, dstIp6 := ip6_dst\<rparr>
             in decodeTransportProtocol (nxt p') mem 40 p')))))))"

text \<open>The constructor without arguments sets no header field at all.\<close>

definition Packet6_dummy :: "int \<Rightarrow> packet6 \<Rightarrow> packet6" where
  "Packet6_dummy now raw =
     raw\<lparr>stamp := now, verdictSet := False, packetData := [], nfqID := 5,
       strInboundInterface := ''eth8'', strOutboundInterface := ''eth9''\<rparr>"

definition getFlowLabel :: "packet6 \<Rightarrow> u32" where
  "getFlowLabel p = flow p AND 0x000FFFFF"

definition getVersion :: "packet6 \<Rightarrow> u32" where
  "getVersion p = flow p AND 0xF0000000"

definition getTclass :: "packet6 \<Rightarrow> u32" where
  "getTclass p = flow p AND 0x0FF00000"

text \<open>\<open>ipv6_to_str_unexpanded\<close>: eight groups of two bytes, two hex digits a byte.\<close>

definition hex_digit :: "nat \<Rightarrow> char" where
  "hex_digit n = ''0123456789abcdef'' ! n"

definition hex2 :: "u8 \<Rightarrow> string" where
  "hex2 b = [hex_digit (unat b div 16), hex_digit (unat b mod 16)]"

fun ipv6_to_str_unexpanded :: "u8 list \<Rightarrow> string" where
  "ipv6_to_str_unexpanded (a # b # []) = hex2 a @ hex2 b"
| "ipv6_to_str_unexpanded (a # b # bs) = hex2 a @ hex2 b @ '':'' @ ipv6_to_str_unexpanded bs"
| "ipv6_to_str_unexpanded _ = []"

section \<open>Lemmas\<close>

lemma setVerdict_fields [simp]:
  "nfqID (fst (setVerdict a p)) = nfqID p" "stamp (fst (setVerdict a p)) = stamp p"
  "isIngoing (fst (setVerdict a p)) = isIngoing p"
  "packetDataLen (fst (setVerdict a p)) = packetDataLen p"
  "verdictSet (fst (setVerdict a p))"
  by (auto simp: setVerdict_def)

lemma setVerdict_final: "setVerdict b (fst (setVerdict a p)) = (fst (setVerdict a p), [])"
  by (auto simp: setVerdict_def)

lemma resetTimeStamp_fields [simp]:
  "stamp (resetTimeStamp t p) = t" "nfqID (resetTimeStamp t p) = nfqID p"
  "verdictSet (resetTimeStamp t p) = verdictSet p" "isIngoing (resetTimeStamp t p) = isIngoing p"
  "packetDataLen (resetTimeStamp t p) = packetDataLen p"
  by (simp_all add: resetTimeStamp_def)

lemma resetTimeStamp_twice [simp]: "resetTimeStamp t (resetTimeStamp u p) = resetTimeStamp t p"
  by (simp add: resetTimeStamp_def)

text \<open>How much packet memory the constructors read.\<close>

definition transport_need :: "u8 \<Rightarrow> nat" where
  "transport_need pr =
     (if pr = IPPROTO_UDP \<or> pr = IPPROTO_TCP then 4
      else if pr = IPPROTO_ICMP \<or> pr = IPPROTO_ICMPV6 then 6 else 0)"

definition ip_header_len :: "u8 list \<Rightarrow> nat" where
  "ip_header_len mem = unat (ihl_bytes (mem ! 0))"

definition packet_readable :: "u8 list \<Rightarrow> bool" where
  "packet_readable mem \<longleftrightarrow>
     20 \<le> length mem \<and> (0 < transport_need (mem ! 9) \<longrightarrow>
       ip_header_len mem + transport_need (mem ! 9) \<le> length mem)"

lemma load_Inr_iff:
  "load8 m i = Inr x \<longleftrightarrow> i < length m \<and> x = m ! i"
  "load16 m i = Inr y \<longleftrightarrow> i + 1 < length m \<and> y = host16 (m ! i) (m ! (i + 1))"
  by (auto simp: load8_def load16_def)

lemma decodeTransportProtocol_ok:
  "(\<exists>q. decodeTransportProtocol pr m off p = Inr q) \<longleftrightarrow>
     (0 < transport_need pr \<longrightarrow> off + transport_need pr \<le> length m)"
  by (auto simp: decodeTransportProtocol_def transport_need_def ipproto_defs load16_def)

lemma sum_ok: "(\<forall>e. m \<noteq> Inl e) \<longleftrightarrow> (\<exists>x. m = Inr x)"
  by (cases m) auto

lemma Packet_new_ok:
  assumes "payload nfa = Some mem"
  shows "(\<exists>p. Packet_new now nfa raw = Inr p) \<longleftrightarrow> packet_readable mem"
proof (cases "20 \<le> length mem")
  case True
  then show ?thesis
    by (auto simp: Packet_new_def assms load8_def load16_def load32_def Let_def
        decodeTransportProtocol_ok packet_readable_def ip_header_len_def)
next
  case False
  then show ?thesis
    by (auto simp: Packet_new_def assms load8_def load16_def load32_def Let_def packet_readable_def)
qed

section \<open>Wire format\<close>

text \<open>
  The network representation of an IPv4 packet, as a specification for the constructor:
  multi-byte fields have their first byte highest, the options fill the header up to four
  times the header length, the transport header begins with the two ports.
\<close>

definition be16 :: "u16 \<Rightarrow> u8 list" where
  "be16 w = [ucast (drop_bit 8 w), ucast w]"

definition be32 :: "u32 \<Rightarrow> u8 list" where
  "be32 w = [ucast (drop_bit 24 w), ucast (drop_bit 16 w), ucast (drop_bit 8 w), ucast w]"

definition ipv4_wire ::
  "u8 \<Rightarrow> u8 \<Rightarrow> u16 \<Rightarrow> u16 \<Rightarrow> u16 \<Rightarrow> u8 \<Rightarrow> u8 \<Rightarrow> u16 \<Rightarrow> u32 \<Rightarrow> u32 \<Rightarrow> u8 list \<Rightarrow> u8 list" where
  "ipv4_wire ihl tos len ident frag ttl proto csum src dst rest =
     [0x40 OR ihl, tos] @ be16 len @ be16 ident @ be16 frag @ [ttl, proto] @ be16 csum
     @ be32 src @ be32 dst @ rest"

lemma ntohs_be16: "ntohs (host16 (ucast (drop_bit 8 w)) (ucast w)) = w"
  unfolding ntohs_def host16_def
  by (rule bit_word_eqI) (auto simp: bit_simps dest: bit_imp_le_length)

lemma ntohl_be32:
  "ntohl (host32 (ucast (drop_bit 24 w)) (ucast (drop_bit 16 w)) (ucast (drop_bit 8 w)) (ucast w)) = w"
proof (rule bit_word_eqI)
  have m: "(0xFF0000 :: u32) = push_bit 16 (mask 8)" "(0xFF00 :: u32) = push_bit 8 (mask 8)"
    by (simp_all add: mask_eq_exp_minus_1)
  fix n assume n: "n < LENGTH(32)"
  then consider "n < 8" | "8 \<le> n" "n < 16" | "16 \<le> n" "n < 24" | "24 \<le> n" "n < 32"
    by fastforce
  then show "bit (ntohl (host32 (ucast (drop_bit 24 w)) (ucast (drop_bit 16 w))
      (ucast (drop_bit 8 w)) (ucast w))) n = bit w n"
    by cases (auto simp: ntohl_def m host32_def bit_simps dest: bit_imp_le_length)
qed

lemma ihl_nibble:
  assumes "ihl \<le> (15 :: u8)"
  shows "ihl_bytes (0x40 OR ihl) = push_bit 2 ihl" and "unat (push_bit 2 ihl) = 4 * unat ihl"
proof -
  have u: "unat ihl \<le> 15" using assms by (simp add: word_le_nat_alt)
  have "take_bit 4 ihl = ihl"
    by (rule unsigned_word_eqI [where ?'a = nat]) (use u in \<open>simp add: unsigned_take_bit_eq take_bit_nat_eq_self\<close>)
  then have "ihl AND mask 4 = ihl" by (simp add: take_bit_eq_mask)
  then have "ihl AND 0xF = ihl" by (simp add: mask_eq_exp_minus_1)
  moreover have "(0x40 OR ihl) AND 0xF = (0x40 AND 0xF) OR (ihl AND 0xF)"
    by (simp only: bit.conj_disj_distrib2)
  ultimately have "(0x40 OR ihl) AND 0xF = ihl" by simp
  then show "ihl_bytes (0x40 OR ihl) = push_bit 2 ihl" by (simp only: ihl_bytes_def)
  show "unat (push_bit 2 ihl) = 4 * unat ihl"
    using u by (simp add: push_bit_eq_mult unat_word_ariths)
qed

lemma load16_append: "length xs = n \<Longrightarrow> load16 (xs @ a # b # ys) n = Inr (host16 a b)"
  by (simp add: load16_def nth_append)

lemma ipv4_wire_fields:
  "load16 (ipv4_wire ihl tos len ident frag ttl proto csum src dst rest) 6
     = Inr (host16 (ucast (drop_bit 8 frag)) (ucast frag))"
  "load8 (ipv4_wire ihl tos len ident frag ttl proto csum src dst rest) 9 = Inr proto"
  "load8 (ipv4_wire ihl tos len ident frag ttl proto csum src dst rest) 0 = Inr (0x40 OR ihl)"
  "load32 (ipv4_wire ihl tos len ident frag ttl proto csum src dst rest) 12
     = Inr (host32 (ucast (drop_bit 24 src)) (ucast (drop_bit 16 src))
         (ucast (drop_bit 8 src)) (ucast src))"
  "load32 (ipv4_wire ihl tos len ident frag ttl proto csum src dst rest) 16
     = Inr (host32 (ucast (drop_bit 24 dst)) (ucast (drop_bit 16 dst))
         (ucast (drop_bit 8 dst)) (ucast dst))"
  by (simp_all add: ipv4_wire_def be16_def be32_def load8_def load16_def load32_def)

lemma ipv4_wire_ports:
  fixes ihl tos len ident frag ttl proto csum src dst options sp dp body
  defines "mem \<equiv> ipv4_wire ihl tos len ident frag ttl proto csum src dst
      (options @ be16 sp @ be16 dp @ body)"
  shows "load16 mem (length options + 20) = Inr (host16 (ucast (drop_bit 8 sp)) (ucast sp))"
    and "load16 mem (length options + 22) = Inr (host16 (ucast (drop_bit 8 dp)) (ucast dp))"
proof -
  define hdr where "hdr = ipv4_wire ihl tos len ident frag ttl proto csum src dst []"
  have len: "length hdr = 20" by (simp add: hdr_def ipv4_wire_def be16_def be32_def)
  have mem: "mem = (hdr @ options) @ ucast (drop_bit 8 sp) # ucast sp # be16 dp @ body"
    "mem = (hdr @ options @ be16 sp) @ ucast (drop_bit 8 dp) # ucast dp # body"
    by (simp_all add: mem_def hdr_def ipv4_wire_def be16_def)
  show "load16 mem (length options + 20) = Inr (host16 (ucast (drop_bit 8 sp)) (ucast sp))"
    unfolding mem(1) by (rule load16_append) (simp add: len)
  show "load16 mem (length options + 22) = Inr (host16 (ucast (drop_bit 8 dp)) (ucast dp))"
    unfolding mem(2) by (rule load16_append) (simp add: len be16_def)
qed

text \<open>
  C25. The constructor inverts the wire format: from the network representation of a UDP or
  TCP packet, with any options, it recovers the addresses, the ports, the protocol and the
  fragment field.
\<close>

theorem packet_wire_roundtrip:
  assumes "payload nfa = Some (ipv4_wire ihl tos len ident frag ttl proto csum src dst
      (options @ be16 sp @ be16 dp @ body))"
    and "ihl \<le> 15" and "length options + 20 = 4 * unat ihl"
    and "proto = IPPROTO_UDP \<or> proto = IPPROTO_TCP"
  shows "\<exists>p. Packet_new now nfa raw = Inr p \<and> srcIp p = src \<and> dstIp p = dst
    \<and> sport p = sp \<and> dport p = dp \<and> transProt p = proto \<and> ipFrag p = frag
    \<and> ipHdrLen p = push_bit 2 ihl"
proof -
  define mem where "mem = ipv4_wire ihl tos len ident frag ttl proto csum src dst
      (options @ be16 sp @ be16 dp @ body)"
  obtain hf hi hs hd hsp hdp where
    loads: "load16 mem 6 = Inr hf" "load8 mem 9 = Inr proto" "load8 mem 0 = Inr hi"
      "load32 mem 12 = Inr hs" "load32 mem 16 = Inr hd"
      "load16 mem (length options + 20) = Inr hsp" "load16 mem (length options + 22) = Inr hdp"
    and vals: "ntohs hf = frag" "ihl_bytes hi = push_bit 2 ihl" "ntohl hs = src" "ntohl hd = dst"
      "ntohs hsp = sp" "ntohs hdp = dp"
    unfolding mem_def ipv4_wire_fields ipv4_wire_ports
    using ntohs_be16 ntohl_be32 ihl_nibble(1) [OF assms(2)] by blast
  have off: "unat (push_bit 2 ihl) = length options + 20"
    using ihl_nibble(2) [OF assms(2)] assms(3) by simp
  have p: "payload nfa = Some mem" using assms(1) by (simp add: mem_def)
  have "length options + 20 + 2 = length options + 22" by simp
  then have d: "decodeTransportProtocol proto mem (length options + 20) q =
      Inr (q\<lparr>sport := sp, dport := dp\<rparr>)" for q :: packet
    using assms(4) unfolding decodeTransportProtocol_def
    by (elim disjE) (simp_all only: loads vals try_bind_simps if_True if_False simp_thms ipproto_distinct)
  show ?thesis
    by (simp add: Packet_new_def p Let_def loads vals off d)
qed

section \<open>Packets for concrete evaluations\<close>

definition example_packet :: "bool \<Rightarrow> u32 \<Rightarrow> u32 \<Rightarrow> u16 \<Rightarrow> u16 \<Rightarrow> packet" where
  "example_packet ing src dst sp dp =
     \<lparr>stamp = 0, isIngoing = ing, verdictSet = False, nfqID = 0, packetDataLen = 40,
      packetData = [], strInboundInterface = [], strOutboundInterface = [],
      sport = sp, dport = dp, icmpId = 0, transProt = 17, srcIp = src, dstIp = dst,
      ipFrag = 0, ipHdrLen = 20\<rparr>"

lemma packet_wire_roundtrip_witness:
  "\<exists>p. Packet_new 0
      \<lparr>packet_id = 7, payload = Some (ipv4_wire 5 0 28 1 0x4000 64 IPPROTO_UDP 0 0x0A000001
         0x14000001 ([] @ be16 5000 @ be16 53 @ [0, 8, 0, 0])),
       indev = Some ''eth0'', outdev = None\<rparr> (example_packet True 0 0 0 0) = Inr p
    \<and> srcIp p = 0x0A000001 \<and> dstIp p = 0x14000001 \<and> sport p = 5000 \<and> dport p = 53
    \<and> transProt p = IPPROTO_UDP \<and> ipFrag p = 0x4000 \<and> ipHdrLen p = push_bit 2 5"
  by (rule packet_wire_roundtrip) simp_all

end
