(* ===== verification/Stage.thy ===== *)
theory Stage
  imports Packets "HOL-Library.Multiset"
begin

text \<open>
  The contract of a filter in a chain. A filter is a transition system: a step takes packets
  in, passes packets to the next filter and keeps others. What the filters have in common is
  that packets of one direction do not overtake each other and are not invented; the locale
  \<open>fifo_stage\<close> states it over packet identities, \<open>lossless_stage\<close> adds that nothing is lost,
  and the composition of two such filters is one again. The filter theories interpret the
  locales on their step relations.
\<close>

section \<open>Identities and runs\<close>

type_synonym ident = "int \<times> bool"

definition ident :: "'a parent_packet_scheme \<Rightarrow> ident" where
  "ident p = (nfqID p, isIngoing p)"

definition of_dir :: "bool \<Rightarrow> ident list \<Rightarrow> ident list" where
  "of_dir d xs = filter (\<lambda>x. snd x = d) xs"

lemma of_dir_simps [simp]:
  "of_dir d [] = []" "of_dir d (xs @ ys) = of_dir d xs @ of_dir d ys"
  "of_dir d (x # xs) = (if snd x = d then x # of_dir d xs else of_dir d xs)"
  by (simp_all add: of_dir_def)

lemma ident_simps [simp]:
  "ident (resetTimeStamp t p) = ident p" "ident (fst (setVerdict a p)) = ident p"
  by (simp_all add: ident_def)

lemma snd_ident [simp]: "snd (ident p) = isIngoing p"
  by (simp add: ident_def)

text \<open>A step over packets, seen as a step over identities.\<close>

definition ident_step ::
  "('s \<Rightarrow> 'a parent_packet_scheme list \<Rightarrow> 'b parent_packet_scheme list \<Rightarrow> 's \<Rightarrow> bool)
     \<Rightarrow> 's \<Rightarrow> ident list \<Rightarrow> ident list \<Rightarrow> 's \<Rightarrow> bool" where
  "ident_step step s i out s' \<longleftrightarrow>
     (\<exists>ps qs. step s ps qs s' \<and> i = map ident ps \<and> out = map ident qs)"

text \<open>Runs: the inputs and outputs of successive steps, joined.\<close>

inductive stage_run ::
  "('s \<Rightarrow> 'x list \<Rightarrow> 'y list \<Rightarrow> 's \<Rightarrow> bool) \<Rightarrow> 's \<Rightarrow> 'x list \<Rightarrow> 'y list \<Rightarrow> 's \<Rightarrow> bool"
  for step s0 where
  empty: "stage_run step s0 [] [] s0"
| more: "stage_run step s0 ins outs s \<Longrightarrow> step s i out s' \<Longrightarrow>
    stage_run step s0 (ins @ i) (outs @ out) s'"

lemma stage_run_one: "step s i out s' \<Longrightarrow> stage_run step s i out s'"
  using stage_run.more [OF stage_run.empty] by fastforce

lemma stage_run_ident:
  "stage_run step s ins outs s' \<Longrightarrow> stage_run (ident_step step) s (map ident ins) (map ident outs) s'"
proof (induction rule: stage_run.induct)
  case (more ins outs s1 i out s2)
  have "ident_step step s1 (map ident i) (map ident out) s2"
    using more(2) unfolding ident_step_def by blast
  from stage_run.more [OF more.IH this] show ?case by simp
qed (simp add: stage_run.empty)

text \<open>Two filters in a row: what the first one passes, the second one takes.\<close>

inductive seq_step ::
  "('s \<Rightarrow> 'x list \<Rightarrow> 'y list \<Rightarrow> 's \<Rightarrow> bool) \<Rightarrow> ('t \<Rightarrow> 'y list \<Rightarrow> 'z list \<Rightarrow> 't \<Rightarrow> bool)
     \<Rightarrow> 's \<times> 't \<Rightarrow> 'x list \<Rightarrow> 'z list \<Rightarrow> 's \<times> 't \<Rightarrow> bool"
  for step1 step2 where
  first: "step1 s i mid s' \<Longrightarrow> stage_run step2 t mid out t' \<Longrightarrow> seq_step step1 step2 (s, t) i out (s', t')"
| second: "step2 t [] out t' \<Longrightarrow> seq_step step1 step2 (s, t) [] out (s, t')"

inductive_cases seq_stepE: "seq_step step1 step2 s i out s'"

section \<open>Order\<close>

lemma subseq_filter_append:
  "subseq (ys @ b) (b0 @ mid) \<Longrightarrow> subseq (mid @ a) (a0 @ ins) \<Longrightarrow> subseq (ys @ b @ a) (b0 @ a0 @ ins)"
proof -
  assume 1: "subseq (ys @ b) (b0 @ mid)" and 2: "subseq (mid @ a) (a0 @ ins)"
  from 1 have "subseq (ys @ b @ a) (b0 @ mid @ a)"
    using list_emb_append_mono [OF 1, of a a] by simp
  also have "subseq (b0 @ mid @ a) (b0 @ a0 @ ins)"
    using list_emb_append_mono [OF subseq_order.refl 2] by simp
  finally show ?thesis .
qed

locale fifo_stage =
  fixes step :: "'s \<Rightarrow> ident list \<Rightarrow> ident list \<Rightarrow> 's \<Rightarrow> bool"
    and held :: "bool \<Rightarrow> 's \<Rightarrow> ident list"
    and ok :: "'s \<Rightarrow> bool"
  assumes step_ok: "step s i out s' \<Longrightarrow> ok s \<Longrightarrow> ok s'"
    and step_order: "step s i out s' \<Longrightarrow> ok s \<Longrightarrow>
      subseq (of_dir d out @ held d s') (held d s @ of_dir d i)"
begin

lemma run_ok: "stage_run step s ins outs s' \<Longrightarrow> ok s \<Longrightarrow> ok s'"
  by (induction rule: stage_run.induct) (auto intro: step_ok)

lemma run_order:
  assumes "stage_run step s ins outs s'" and "ok s"
  shows "subseq (of_dir d outs @ held d s') (held d s @ of_dir d ins)"
  using assms(1)
proof (induction rule: stage_run.induct)
  case (more ins outs s1 i out s2)
  have "ok s1" using run_ok [OF more(1) assms(2)] .
  from step_order [OF more(2) this]
  have "subseq (of_dir d outs @ of_dir d out @ held d s2) (of_dir d outs @ held d s1 @ of_dir d i)"
    using list_emb_append_mono [OF subseq_order.refl] by blast
  also have "subseq \<dots> (held d s @ of_dir d ins @ of_dir d i)"
    using list_emb_append_mono [OF more.IH subseq_order.refl, of "of_dir d i"] by simp
  finally show ?case by simp
qed simp

text \<open>From an empty filter: what comes out of one direction is a subsequence of what went in.\<close>

lemma run_subseq:
  assumes "stage_run step s ins outs s'" and "ok s" and "held d s = []"
  shows "subseq (of_dir d outs) (of_dir d ins)"
  using run_order [OF assms(1,2), of d] assms(3) subseq_append_left by fastforce

lemma run_no_duplicates:
  assumes "stage_run step s ins outs s'" and "ok s" and "held d s = []" and "distinct ins"
  shows "distinct (of_dir d outs)"
  using subseq_distinct [OF run_subseq [OF assms(1-3)]] assms(4) by (simp add: of_dir_def)

end

locale lossless_stage = fifo_stage +
  assumes step_keeps: "step s i out s' \<Longrightarrow> ok s \<Longrightarrow> of_dir d out @ held d s' = held d s @ of_dir d i"
begin

lemma run_keeps:
  assumes "stage_run step s ins outs s'" and "ok s"
  shows "of_dir d outs @ held d s' = held d s @ of_dir d ins"
  using assms(1)
proof (induction rule: stage_run.induct)
  case (more ins outs s1 i out s2)
  have "ok s1" using run_ok [OF more(1) assms(2)] .
  from step_keeps [OF more(2) this, of d] more.IH show ?case by simp
qed simp

end

text \<open>
  The usual way to the contracts: the filter keeps its packets in one list, and a step appends
  what comes in and takes what goes out from the front.
\<close>

lemma lossless_stageI:
  assumes "\<And>s i out s'. step s i out s' \<Longrightarrow> ok s \<Longrightarrow> ok s'"
    and "\<And>s i out s'. step s i out s' \<Longrightarrow> ok s \<Longrightarrow>
      map ident out @ map ident (held s') = map ident (held s) @ map ident i"
  shows "lossless_stage (ident_step step) (\<lambda>d s. of_dir d (map ident (held s))) ok"
proof unfold_locales
  fix s s' i out
  assume st: "ident_step step s i out s'" and ok: "ok s"
  then obtain ps qs where p: "step s ps qs s'" "i = map ident ps" "out = map ident qs"
    by (auto simp: ident_step_def)
  show "ok s'" by (rule assms(1) [OF p(1) ok])
  fix d
  from assms(2) [OF p(1) ok] have "out @ map ident (held s') = map ident (held s) @ i" by (simp only: p)
  from arg_cong [OF this, of "of_dir d"]
  show k: "of_dir d out @ of_dir d (map ident (held s')) = of_dir d (map ident (held s)) @ of_dir d i" by simp
  show "subseq (of_dir d out @ of_dir d (map ident (held s'))) (of_dir d (map ident (held s)) @ of_dir d i)"
    unfolding k by simp
qed

text \<open>When a step may also drop what comes in.\<close>

lemma subseq_of_dir: "subseq xs ys \<Longrightarrow> subseq (of_dir d xs) (of_dir d ys)"
  by (simp add: of_dir_def)

lemma of_dir_ident: "of_dir d (map ident ps) = map ident (filter (\<lambda>p. isIngoing p = d) ps)"
  by (induction ps) auto

lemma fifo_stageI:
  assumes "\<And>s i out s'. step s i out s' \<Longrightarrow> ok s \<Longrightarrow> ok s'"
    and "\<And>s i out s'. step s i out s' \<Longrightarrow> ok s \<Longrightarrow>
      subseq (map ident out @ map ident (held s')) (map ident (held s) @ map ident i)"
  shows "fifo_stage (ident_step step) (\<lambda>d s. of_dir d (map ident (held s))) ok"
proof unfold_locales
  fix s s' i out
  assume st: "ident_step step s i out s'" and ok: "ok s"
  then obtain ps qs where p: "step s ps qs s'" "i = map ident ps" "out = map ident qs"
    by (auto simp: ident_step_def)
  show "ok s'" by (rule assms(1) [OF p(1) ok])
  fix d
  from assms(2) [OF p(1) ok] have "subseq (out @ map ident (held s')) (map ident (held s) @ i)" by (simp only: p)
  from subseq_of_dir [OF this, of d]
  show "subseq (of_dir d out @ of_dir d (map ident (held s'))) (of_dir d (map ident (held s)) @ of_dir d i)" by simp
qed

section \<open>Composition\<close>

locale stage_pair =
  one: fifo_stage step1 held1 ok1 + two: fifo_stage step2 held2 ok2
  for step1 :: "'s \<Rightarrow> ident list \<Rightarrow> ident list \<Rightarrow> 's \<Rightarrow> bool" and held1 and ok1
    and step2 :: "'t \<Rightarrow> ident list \<Rightarrow> ident list \<Rightarrow> 't \<Rightarrow> bool" and held2 and ok2
begin

lemma pair_ok:
  assumes "seq_step step1 step2 st i out st'" and "ok1 (fst st) \<and> ok2 (snd st)"
  shows "ok1 (fst st') \<and> ok2 (snd st')"
  using assms
proof (cases rule: seq_step.cases)
  case (first s mid s' t t')
  then show ?thesis using assms(2) one.step_ok two.run_ok by fastforce
next
  case (second t t' s)
  then show ?thesis using assms(2) two.step_ok by fastforce
qed

lemma pair_order:
  assumes "seq_step step1 step2 st i out st'" and "ok1 (fst st) \<and> ok2 (snd st)"
  shows "subseq (of_dir d out @ held2 d (snd st') @ held1 d (fst st'))
    ((held2 d (snd st) @ held1 d (fst st)) @ of_dir d i)"
  using assms
proof (cases rule: seq_step.cases)
  case (first s mid s' t t')
  then have "subseq (of_dir d out @ held2 d t') (held2 d t @ of_dir d mid)"
    "subseq (of_dir d mid @ held1 d s') (held1 d s @ of_dir d i)"
    using assms(2) two.run_order one.step_order by fastforce+
  from subseq_filter_append [OF this] show ?thesis using first by simp
next
  case (second t t' s)
  then have "subseq (of_dir d out @ held2 d t') (held2 d t)"
    using assms(2) two.step_order [of t "[]" out t' d] by simp
  from list_emb_append_mono [OF this subseq_order.refl, of "held1 d s"] show ?thesis
    using second by simp
qed

end

sublocale stage_pair \<subseteq> pair: fifo_stage "seq_step step1 step2"
    "\<lambda>d st. held2 d (snd st) @ held1 d (fst st)" "\<lambda>st. ok1 (fst st) \<and> ok2 (snd st)"
  by unfold_locales (rule pair_ok, assumption+, rule pair_order, assumption+)

end
