(* ===== verification/Async_Queue.thy ===== *)
theory Async_Queue
  imports Prelude
begin

text \<open>
  \<open>AsyncQueue<Data>\<close> (async\_queue.hpp): a queue whose consumer registers a callback with
  \<open>asyncPop\<close> and is called back, through \<open>io_service::post\<close>, with one datum. An operation
  returns the new queue and the handler invocations it posts: the callback, the error code
  and the datum, \<open>None\<close> for the default-constructed \<open>Data\<close> of a stopped queue. The first
  part has the operations as a single caller sees them and the contract \<open>pop_channel\<close> the
  filters rely on; the second interleaves the critical sections of any number of threads.
\<close>

datatype queue_error_code = Stopped | Ok

text \<open>\<open>queue_error_category_impl::message\<close> and the numbers of the enumeration.\<close>

definition code_value :: "queue_error_code \<Rightarrow> int" where
  "code_value c = (case c of Stopped \<Rightarrow> 1 | Ok \<Rightarrow> 2)"

definition message :: "int \<Rightarrow> string" where
  "message ec =
     (if ec = code_value Stopped then ''Queue stopped.''
      else if ec = code_value Ok then ''OK'' else ''unknown.'')"

text \<open>
  \<open>std::error_code\<close> and \<open>std::error_condition\<close>: a number and the category it belongs to. The
  category of the queue has one instance, which stands for itself by its name.
\<close>

record error_code =
  ec_value :: int
  category :: string

definition category_name :: string where
  "category_name = ''AsyncQueue''"

definition default_error_condition :: "int \<Rightarrow> error_code" where
  "default_error_condition ec = \<lparr>ec_value = ec, category = category_name\<rparr>"

definition make_error_code :: "queue_error_code \<Rightarrow> error_code" where
  "make_error_code ec = \<lparr>ec_value = code_value ec, category = category_name\<rparr>"

definition make_error_condition :: "queue_error_code \<Rightarrow> error_code" where
  "make_error_condition ec = \<lparr>ec_value = code_value ec, category = category_name\<rparr>"

text \<open>A code and a condition of the same category are equal exactly if they are made of one value.\<close>

lemma make_error_code_eq [simp]: "make_error_code c = make_error_condition d \<longleftrightarrow> c = d"
  by (cases c; cases d) (simp_all add: make_error_code_def make_error_condition_def code_value_def)

lemma make_error_code_default:
  "default_error_condition (ec_value (make_error_code c)) = make_error_condition c"
  by (simp add: default_error_condition_def make_error_code_def make_error_condition_def)

lemma message_make_error_code:
  "message (ec_value (make_error_code c)) = (case c of Stopped \<Rightarrow> ''Queue stopped.'' | Ok \<Rightarrow> ''OK'')"
  by (cases c) (simp_all add: message_def make_error_code_def code_value_def)

record ('d, 'cb) async_queue =
  theQueue :: "'d list"
  callback :: "'cb option"
  stopped :: bool
  niceStopped :: bool

type_synonym ('d, 'cb) posted = "('cb \<times> queue_error_code \<times> 'd option) list"

definition AsyncQueue :: "('d, 'cb) async_queue" where
  "AsyncQueue = \<lparr>theQueue = [], callback = None, stopped = False, niceStopped = False\<rparr>"

section \<open>Critical sections and operations\<close>

text \<open>\<open>tryPop\<close>, first critical section: take a datum and the callback if both are there.\<close>

definition tryPop_take ::
  "('d, 'cb) async_queue \<Rightarrow> ('d, 'cb) async_queue \<times> ('d, 'cb) posted \<times> bool" where
  "tryPop_take q =
     (case (theQueue q, callback q) of
        (d # ds, Some handler) \<Rightarrow>
          (q\<lparr>theQueue := ds, callback := None\<rparr>, [(handler, Ok, Some d)], True)
      | _ \<Rightarrow> (q, [], False))"

text \<open>Second critical section, when nothing was found: the nice stop of a drained queue.\<close>

definition tryPop_nice :: "('d, 'cb) async_queue \<Rightarrow> ('d, 'cb) async_queue \<times> ('d, 'cb) posted" where
  "tryPop_nice q =
     (if theQueue q = [] \<and> niceStopped q then
        (case callback q of
           Some handler \<Rightarrow> (q\<lparr>callback := None\<rparr>, [(handler, Stopped, None)])
         | None \<Rightarrow> (q, []))
      else (q, []))"

definition tryPop :: "('d, 'cb) async_queue \<Rightarrow> ('d, 'cb) async_queue \<times> ('d, 'cb) posted" where
  "tryPop q =
     (let (q1, ts, found) = tryPop_take q
      in if found then (q1, ts) else let (q2, ts2) = tryPop_nice q1 in (q2, ts @ ts2))"

text \<open>The critical section of \<open>push\<close>; \<open>None\<close> is the early return of a stopped queue.\<close>

definition push_locked :: "'d \<Rightarrow> ('d, 'cb) async_queue \<Rightarrow> ('d, 'cb) async_queue option" where
  "push_locked d q =
     (if stopped q \<or> niceStopped q then None else Some (q\<lparr>theQueue := theQueue q @ [d]\<rparr>))"

definition push :: "'d \<Rightarrow> ('d, 'cb) async_queue \<Rightarrow> ('d, 'cb) async_queue \<times> ('d, 'cb) posted" where
  "push d q = (case push_locked d q of None \<Rightarrow> (q, []) | Some q' \<Rightarrow> tryPop q')"

definition asyncPop :: "'cb \<Rightarrow> ('d, 'cb) async_queue \<Rightarrow> ('d, 'cb) async_queue \<times> ('d, 'cb) posted" where
  "asyncPop cb q =
     (if stopped q then (q, [(cb, Stopped, None)]) else tryPop (q\<lparr>callback := Some cb\<rparr>))"

definition niceClose :: "('d, 'cb) async_queue \<Rightarrow> ('d, 'cb) async_queue \<times> ('d, 'cb) posted" where
  "niceClose q = tryPop (q\<lparr>niceStopped := True\<rparr>)"

definition clear :: "('d, 'cb) async_queue \<Rightarrow> ('d, 'cb) async_queue" where
  "clear q = q\<lparr>theQueue := []\<rparr>"

definition close :: "('d, 'cb) async_queue \<Rightarrow> ('d, 'cb) async_queue \<times> ('d, 'cb) posted" where
  "close q =
     (if stopped q then (q, [])
      else let q1 = q\<lparr>stopped := True\<rparr>
           in case callback q1 of
                Some handler \<Rightarrow> (clear (q1\<lparr>callback := None\<rparr>), [(handler, Stopped, None)])
              | None \<Rightarrow> (clear q1, []))"

lemmas aq_defs = tryPop_take_def tryPop_nice_def tryPop_def push_locked_def push_def
  asyncPop_def niceClose_def clear_def close_def

section \<open>The contract of an open queue\<close>

text \<open>The data that a list of handler invocations hands out.\<close>

definition handed :: "('d, 'cb) posted \<Rightarrow> 'd list" where
  "handed ts = concat (map (\<lambda>(cb, ec, d). case d of None \<Rightarrow> [] | Some x \<Rightarrow> [x]) ts)"

lemma handed_simps [simp]:
  "handed [] = []" "handed ((cb, ec, Some d) # ts) = d # handed ts"
  "handed ((cb, ec, None) # ts) = handed ts" "handed (ts @ us) = handed ts @ handed us"
  by (simp_all add: handed_def)

text \<open>
  While the queue is not stopped: a registered callback means that the queue is empty; a
  push is handed to the registered callback or else queued at the back; an \<open>asyncPop\<close> takes
  the front or else registers. The locale states it for any implementation; the client lemma
  is about a consumer that pops again only after it has handled what it got.
\<close>

locale pop_channel =
  fixes put :: "'d \<Rightarrow> 'q \<Rightarrow> 'q \<times> ('d, 'cb) posted"
    and get :: "'cb \<Rightarrow> 'q \<Rightarrow> 'q \<times> ('d, 'cb) posted"
    and content :: "'q \<Rightarrow> 'd list"
    and waiting :: "'q \<Rightarrow> 'cb option"
    and ok :: "'q \<Rightarrow> bool"
  assumes put_ok: "ok q \<Longrightarrow> ok (fst (put d q))"
    and get_ok: "ok q \<Longrightarrow> ok (fst (get cb q))"
    and waiting_empty: "ok q \<Longrightarrow> waiting q = Some cb \<Longrightarrow> content q = []"
    and put_waiting: "ok q \<Longrightarrow> waiting q = Some cb \<Longrightarrow> snd (put d q) = [(cb, Ok, Some d)]
      \<and> content (fst (put d q)) = [] \<and> waiting (fst (put d q)) = None"
    and put_queued: "ok q \<Longrightarrow> waiting q = None \<Longrightarrow> snd (put d q) = []
      \<and> content (fst (put d q)) = content q @ [d] \<and> waiting (fst (put d q)) = None"
    and get_front: "ok q \<Longrightarrow> content q = d # ds \<Longrightarrow> snd (get cb q) = [(cb, Ok, Some d)]
      \<and> content (fst (get cb q)) = ds \<and> waiting (fst (get cb q)) = None"
    and get_empty: "ok q \<Longrightarrow> content q = [] \<Longrightarrow> snd (get cb q) = []
      \<and> content (fst (get cb q)) = [] \<and> waiting (fst (get cb q)) = Some cb"
begin

lemma put_conserves:
  "ok q \<Longrightarrow> handed (snd (put d q)) @ content (fst (put d q)) = content q @ [d]"
  using put_waiting [of q _ d] put_queued [of q d] waiting_empty [of q]
  by (cases "waiting q") auto

lemma get_conserves: "ok q \<Longrightarrow> handed (snd (get cb q)) @ content (fst (get cb q)) = content q"
  using get_front [of q] get_empty [of q] by (cases "content q") auto

text \<open>The number of callbacks that are registered or posted: a push keeps it, a pop adds one.\<close>

definition tokens :: "'q \<Rightarrow> ('d, 'cb) posted \<Rightarrow> nat" where
  "tokens q ts = (if waiting q = None then 0 else 1) + length ts"

lemma put_tokens: "ok q \<Longrightarrow> tokens (fst (put d q)) (snd (put d q)) = tokens q []"
  using put_waiting [of q _ d] put_queued [of q d] by (cases "waiting q") (auto simp: tokens_def)

lemma get_tokens:
  "ok q \<Longrightarrow> waiting q = None \<Longrightarrow> tokens (fst (get cb q)) (snd (get cb q)) = Suc (tokens q [])"
  using get_front [of q] get_empty [of q] by (cases "content q") (auto simp: tokens_def)

end

text \<open>The implementation: open, and a registered callback only with an empty queue.\<close>

definition aq_ok :: "('d, 'cb) async_queue \<Rightarrow> bool" where
  "aq_ok q \<longleftrightarrow> \<not> stopped q \<and> \<not> niceStopped q \<and> (callback q = None \<or> theQueue q = [])"

lemma aq_ok_new [simp]: "aq_ok AsyncQueue"
  by (simp add: aq_ok_def AsyncQueue_def)

interpretation aq: pop_channel push asyncPop theQueue callback aq_ok
  by unfold_locales
    (auto simp: aq_ok_def aq_defs split: list.splits option.splits prod.splits)

section \<open>Closing\<close>

text \<open>A stopped queue never hands out a datum again, and refuses what is pushed.\<close>

lemma stopped_push: "stopped q \<Longrightarrow> push d q = (q, [])"
  by (simp add: push_def push_locked_def)

lemma stopped_asyncPop: "stopped q \<Longrightarrow> asyncPop cb q = (q, [(cb, Stopped, None)])"
  by (simp add: asyncPop_def)

lemma close_result:
  "stopped (fst (close q))" "\<not> stopped q \<Longrightarrow> theQueue (fst (close q)) = []"
  "\<not> stopped q \<Longrightarrow> callback (fst (close q)) = None"
  "\<not> stopped q \<Longrightarrow> snd (close q) = (case callback q of None \<Rightarrow> [] | Some h \<Rightarrow> [(h, Stopped, None)])"
  by (auto simp: close_def clear_def Let_def split: option.splits)

section \<open>Interleaved critical sections\<close>

text \<open>
  Any number of threads call \<open>push\<close>, \<open>asyncPop\<close> and \<open>niceClose\<close>. A thread is between its
  critical section and the first one of \<open>tryPop\<close> (counted in \<open>at_take\<close>) or between the two
  of \<open>tryPop\<close> (\<open>at_nice\<close>); each step is one critical section of one thread. \<open>taken\<close> logs the
  handler invocations in the order in which they left the queue, \<open>accepted\<close> the data that
  \<open>push\<close> put in. \<open>close\<close>, which no code of the router calls, is not part of the interleaving.
\<close>

record ('d, 'cb) aq_sys =
  queue :: "('d, 'cb) async_queue"
  at_take :: nat
  at_nice :: nat
  taken :: "('d, 'cb) posted"
  accepted :: "'d list"

definition aq_start :: "('d, 'cb) aq_sys" where
  "aq_start = \<lparr>queue = AsyncQueue, at_take = 0, at_nice = 0, taken = [], accepted = []\<rparr>"

inductive aq_step :: "('d, 'cb) aq_sys \<Rightarrow> ('d, 'cb) aq_sys \<Rightarrow> bool" where
  push_section: "push_locked d (queue s) = Some q \<Longrightarrow>
    aq_step s (s\<lparr>queue := q, at_take := Suc (at_take s), accepted := accepted s @ [d]\<rparr>)"
| pop_section: "\<not> stopped (queue s) \<Longrightarrow>
    aq_step s (s\<lparr>queue := (queue s)\<lparr>callback := Some cb\<rparr>, at_take := Suc (at_take s)\<rparr>)"
| nice_close_section:
    "aq_step s (s\<lparr>queue := (queue s)\<lparr>niceStopped := True\<rparr>, at_take := Suc (at_take s)\<rparr>)"
| take_found: "at_take s = Suc n \<Longrightarrow> tryPop_take (queue s) = (q, ts, True) \<Longrightarrow>
    aq_step s (s\<lparr>queue := q, at_take := n, taken := taken s @ ts\<rparr>)"
| take_missed: "at_take s = Suc n \<Longrightarrow> tryPop_take (queue s) = (q, ts, False) \<Longrightarrow>
    aq_step s (s\<lparr>queue := q, at_take := n, at_nice := Suc (at_nice s)\<rparr>)"
| nice_section: "at_nice s = Suc n \<Longrightarrow> tryPop_nice (queue s) = (q, ts) \<Longrightarrow>
    aq_step s (s\<lparr>queue := q, at_nice := n, taken := taken s @ ts\<rparr>)"

inductive aq_reachable :: "('d, 'cb) aq_sys \<Rightarrow> bool" where
  start: "aq_reachable aq_start"
| step: "aq_reachable s \<Longrightarrow> aq_step s t \<Longrightarrow> aq_reachable t"

definition aq_inv :: "('d, 'cb) aq_sys \<Rightarrow> bool" where
  "aq_inv s \<longleftrightarrow> handed (taken s) @ theQueue (queue s) = accepted s
     \<and> (theQueue (queue s) \<noteq> [] \<and> callback (queue s) \<noteq> None \<longrightarrow> 0 < at_take s)
     \<and> (niceStopped (queue s) \<and> callback (queue s) \<noteq> None \<longrightarrow> 0 < at_take s + at_nice s)"

lemma tryPop_take_cases:
  "tryPop_take q = (q', ts, True) \<Longrightarrow> handed ts @ theQueue q' = theQueue q \<and> callback q' = None"
  "tryPop_take q = (q', ts, False) \<Longrightarrow> q' = q \<and> (theQueue q = [] \<or> callback q = None)"
  by (auto simp: tryPop_take_def split: list.splits option.splits)

lemma tryPop_nice_cases:
  "tryPop_nice q = (q', ts) \<Longrightarrow> handed ts = [] \<and> theQueue q' = theQueue q
     \<and> (callback q' = callback q \<or> callback q' = None) \<and> niceStopped q' = niceStopped q
     \<and> (niceStopped q \<and> theQueue q = [] \<longrightarrow> callback q' = None)"
  by (auto simp: tryPop_nice_def split: option.splits if_splits)

lemma aq_step_inv: "aq_step s t \<Longrightarrow> aq_inv s \<Longrightarrow> aq_inv t"
proof (induction rule: aq_step.induct)
  case (take_found s n q ts)
  then show ?case using tryPop_take_cases(1) [of "queue s" q ts]
    by (auto simp: aq_inv_def)
next
  case (take_missed s n q ts)
  then show ?case using tryPop_take_cases(2) [of "queue s" q ts]
    by (auto simp: aq_inv_def)
next
  case (nice_section s n q ts)
  then show ?case using tryPop_nice_cases [of "queue s" q ts]
    by (auto simp: aq_inv_def)
qed (auto simp: aq_inv_def push_locked_def split: if_splits)

lemma aq_reachable_inv: "aq_reachable s \<Longrightarrow> aq_inv s"
proof (induction rule: aq_reachable.induct)
  case start
  show ?case by (simp add: aq_inv_def aq_start_def AsyncQueue_def)
next
  case (step s t)
  then show ?case by (blast intro: aq_step_inv)
qed

text \<open>
  C22. However the threads interleave: the data handed to the consumer, followed by what is
  still queued, are exactly the accepted data in their order; when no thread is on its way
  into \<open>tryPop\<close>, a datum and a waiting callback are never both there (no lost wake-up); and
  a callback that waits when the queue is closed nicely is not forgotten.
\<close>

theorem async_queue_fifo:
  assumes "aq_reachable s"
  shows "handed (taken s) @ theQueue (queue s) = accepted s
    \<and> (at_take s = 0 \<longrightarrow> theQueue (queue s) = [] \<or> callback (queue s) = None)
    \<and> (at_take s = 0 \<and> at_nice s = 0 \<and> niceStopped (queue s) \<longrightarrow> callback (queue s) = None)"
  using aq_reachable_inv [OF assms] by (auto simp: aq_inv_def)

lemma async_queue_fifo_witness:
  "\<exists>s :: (nat, nat) aq_sys. accepted s = [4, 5] \<and> handed (taken s) = [4] \<and> theQueue (queue s) = [5]
     \<and> handed (taken s) @ theQueue (queue s) = accepted s"
proof -
  let ?q = "\<lambda>ds cb. \<lparr>theQueue = ds, callback = cb, stopped = False, niceStopped = False\<rparr>
    :: (nat, nat) async_queue"
  let ?s = "\<lambda>ds cb n ts acc. \<lparr>queue = ?q ds cb, at_take = n, at_nice = 0, taken = ts, accepted = acc\<rparr>"
  have "aq_reachable (?s [] None 0 [] [])"
    using aq_reachable.start by (simp add: aq_start_def AsyncQueue_def)
  moreover have "aq_step (?s [] None 0 [] []) (?s [4] None 1 [] [4])"
    using push_section [of 4 "?s [] None 0 [] []"] by (simp add: push_locked_def eval_nat_numeral)
  moreover have "aq_step (?s [4] None 1 [] [4]) (?s [4, 5] None 2 [] [4, 5])"
    using push_section [of 5 "?s [4] None 1 [] [4]"] by (simp add: push_locked_def eval_nat_numeral)
  moreover have "aq_step (?s [4, 5] None 2 [] [4, 5]) (?s [4, 5] (Some 9) 3 [] [4, 5])"
    using pop_section [of "?s [4, 5] None 2 [] [4, 5]" 9] by (simp add: eval_nat_numeral)
  moreover have "aq_step (?s [4, 5] (Some 9) 3 [] [4, 5]) (?s [5] None 2 [(9, Ok, Some 4)] [4, 5])"
    using take_found [of "?s [4, 5] (Some 9) 3 [] [4, 5]" 2 "?q [5] None" "[(9, Ok, Some 4)]"]
    by (simp add: tryPop_take_def eval_nat_numeral)
  ultimately have "aq_reachable (?s [5] None 2 [(9, Ok, Some 4)] [4, 5])"
    by (blast intro: aq_reachable.step)
  from async_queue_fifo [OF this] show ?thesis
    by (intro exI [of _ "?s [5] None 2 [(9, Ok, Some 4)] [4, 5]"]) simp
qed

end
