(* ===== verification/Outputs.thy ===== *)
theory Outputs
  imports Stage Async_Queue
begin

text \<open>
  The ends of a filter chain: \<open>Input\<close> (input.hpp), \<open>InputDrop\<close> (input\_drop.hpp),
  \<open>Output\<close> (output.hpp), and the two outputs that build a new packet with libnet,
  \<open>OutputLibnet\<close> (output\_libnet.cpp) and \<open>Output6Libnet\<close> (output6\_libnet.cpp). The libnet
  library is a parameter: a function from the calls to what they return. What the code does
  is the sequence of calls it makes, with their arguments; a pointer into the copy of the
  packet's memory is an offset, \<open>NULL\<close> is \<open>None\<close>.
\<close>

section \<open>Inputs and the accepting output\<close>

text \<open>The packet passed on, if any, and the verdicts set.\<close>

definition Input_handlePacket :: "'a parent_packet_scheme \<Rightarrow> 'a parent_packet_scheme list \<times> verdict list" where
  "Input_handlePacket pkt = ([pkt], [])"

definition InputDrop_handlePacket :: "'a parent_packet_scheme \<Rightarrow> 'a parent_packet_scheme list \<times> verdict list" where
  "InputDrop_handlePacket pkt = (let (pkt', vs) = setVerdict False pkt in ([pkt'], vs))"

definition Output_handlePacket :: "'a parent_packet_scheme \<Rightarrow> 'a parent_packet_scheme \<times> verdict list" where
  "Output_handlePacket pkt = setVerdict True pkt"

section \<open>Calls of the libnet library\<close>

datatype libnet_call =
    Clear_packet
  | Build_udp u16 u16 u16 u16 "nat option" u32
  | Build_tcp_options nat u32
  | Build_tcp u16 u16 u32 u32 u8 u16 u16 u16 u16 "nat option" u32
  | Build_ipv4 u16 u8 u16 u16 u8 u8 u16 u32 u32 "nat option" u32
  | Build_ipv6 u8 u32 u16 u8 u8 "u8 list" "u8 list" nat u32
  | Write_packet

text \<open>
  Code that makes calls: the calls it made, and its value, or that it returned early after a
  call that failed, or that it read outside of the packet's memory.
\<close>

datatype stop = Returned | Crashed fault

type_synonym 'r libnet_code = "libnet_call list \<times> (stop + 'r)"

definition lbind :: "'r libnet_code \<Rightarrow> ('r \<Rightarrow> 's libnet_code) \<Rightarrow> 's libnet_code" where
  "lbind m f =
     (case snd m of Inl e \<Rightarrow> (fst m, Inl e) | Inr x \<Rightarrow> (fst m @ fst (f x), snd (f x)))"

definition lread :: "fault + 'r \<Rightarrow> 'r libnet_code" where
  "lread m = (case m of Inl e \<Rightarrow> ([], Inl (Crashed e)) | Inr x \<Rightarrow> ([], Inr x))"

text \<open>A call whose result \<open>-1\<close> makes the handler return.\<close>

definition lcall :: "(libnet_call \<Rightarrow> int) \<Rightarrow> libnet_call \<Rightarrow> unit libnet_code" where
  "lcall lib c = ([c], if lib c = -1 then Inl Returned else Inr ())"

lemma lbind_simps [simp]:
  "lbind (cs, Inl e) f = (cs, Inl e)" "lbind (cs, Inr x) f = (cs @ fst (f x), snd (f x))"
  "lbind (lread (Inr x)) f = f x" "lbind (lread (Inl g)) f = ([], Inl (Crashed g))"
  by (simp_all add: lbind_def lread_def)

section \<open>OutputLibnet\<close>

text \<open>
  The headers of the copy \<open>mem\<close> of the packet's memory, \<open>hl\<close> being the IP header's length. The
  results are \<open>pData\<close> and \<open>size\<close> for the IP header.
\<close>

definition build_udp :: "(libnet_call \<Rightarrow> int) \<Rightarrow> packet \<Rightarrow> u8 list \<Rightarrow> nat \<Rightarrow> (nat option \<times> u32) libnet_code" where
  "build_udp lib pkt mem hl =
     lbind (lread (load16 mem (hl + 4))) (\<lambda>uh_ulen.
     lbind (lcall lib (Build_udp (sport pkt) (dport pkt) (ntohs uh_ulen) 0
       (Some (hl + 8)) (ucast (ntohs uh_ulen) - 8))) (\<lambda>_.
       ([], Inr (None, 0))))"

definition build_tcp :: "(libnet_call \<Rightarrow> int) \<Rightarrow> packet \<Rightarrow> u8 list \<Rightarrow> nat \<Rightarrow> (nat option \<times> u32) libnet_code" where
  "build_tcp lib pkt mem hl =
     lbind (lread (load8 mem (hl + 12))) (\<lambda>off.
     let tcpOptionsSize = push_bit 2 (drop_bit 4 off) - 20 :: u8;
         tcpPayloadSize = word_of_int (int (length mem) - int hl - 20 - uint tcpOptionsSize) :: u32;
         tcpPayload = (if tcpPayloadSize = 0 then None else Some (hl + 20 + unat tcpOptionsSize))
     in lbind (lcall lib (Build_tcp_options (hl + 20) (ucast tcpOptionsSize))) (\<lambda>_.
        lbind (lread (load32 mem (hl + 4))) (\<lambda>th_seq.
        lbind (lread (load32 mem (hl + 8))) (\<lambda>th_ack.
        lbind (lread (load8 mem (hl + 13))) (\<lambda>th_flags.
        lbind (lread (load16 mem (hl + 14))) (\<lambda>th_win.
        lbind (lread (load16 mem (hl + 18))) (\<lambda>th_urp.
        lbind (lcall lib (Build_tcp (sport pkt) (dport pkt) (ntohl th_seq) (ntohl th_ack) th_flags
          (ntohs th_win) 0 (ntohs th_urp)
          (ucast (of_nat hl + 20 + ucast tcpOptionsSize + tcpPayloadSize :: u32))
          tcpPayload tcpPayloadSize)) (\<lambda>_.
          ([], Inr (None, 0))))))))))"

definition OutputLibnet_build :: "(libnet_call \<Rightarrow> int) \<Rightarrow> packet \<Rightarrow> unit libnet_code" where
  "OutputLibnet_build lib pkt =
     (let mem = packetData pkt in
      lbind ([Clear_packet], Inr ()) (\<lambda>_.
      lbind (lread (load8 mem 0)) (\<lambda>ihl.
      let hl = unat (ihl_bytes ihl) in
      lbind (lread (load8 mem 9)) (\<lambda>protocol.
      lbind (lread (load16 mem 2)) (\<lambda>tot_len.
      lbind (if protocol = IPPROTO_ICMP then ([], Inr (Some hl, ucast (ntohs tot_len) - of_nat hl))
             else if protocol = IPPROTO_UDP then build_udp lib pkt mem hl
             else if protocol = IPPROTO_TCP then build_tcp lib pkt mem hl
             else ([], Inr (Some hl, ucast (ntohs tot_len) - of_nat hl))) (\<lambda>(pData, size).
      lbind (lread (load8 mem 1)) (\<lambda>tos.
      lbind (lread (load8 mem 8)) (\<lambda>ttl.
      lbind (lcall lib (Build_ipv4 (ntohs tot_len) tos (getFragmentID pkt) (getFragmentFlags pkt)
        ttl protocol 0 (ntohl (srcIp pkt)) (ntohl (dstIp pkt)) pData size)) (\<lambda>_.
      lcall lib Write_packet)))))))))"

section \<open>Output6Libnet\<close>

definition Output6Libnet_build :: "(libnet_call \<Rightarrow> int) \<Rightarrow> packet6 \<Rightarrow> unit libnet_code" where
  "Output6Libnet_build lib pkt =
     lbind ([Clear_packet], Inr ()) (\<lambda>_.
     lbind (lcall lib (Build_ipv6 (ucast (getTclass pkt)) (getFlowLabel pkt) (ucast (ucast (plen pkt) :: u32))
       (nxt pkt) (hlim pkt) (srcIp6 pkt) (dstIp6 pkt) 40 (ucast (plen pkt)))) (\<lambda>_.
     lcall lib Write_packet))"

section \<open>The queue and the handler\<close>

text \<open>
  The two classes have the same fields and, apart from what they build, the same handler.
  \<open>handle\<close> tells whether \<open>l_\<close> is not null; \<open>reinit\<close> is whether a \<open>libnet_init\<close> that is
  retried succeeds.
\<close>

record 'p libnet_out =
  outQueue :: "('p, unit) async_queue"
  outPosted :: "('p, unit) posted"
  libnet :: bool

definition libnet_out_new :: "bool \<Rightarrow> 'p libnet_out" where
  "libnet_out_new initialised = \<lparr>outQueue = AsyncQueue, outPosted = [], libnet = initialised\<rparr>"

definition libnet_asyncPop :: "'p libnet_out \<Rightarrow> 'p libnet_out" where
  "libnet_asyncPop s =
     (let (q, ts) = asyncPop () (outQueue s) in s\<lparr>outQueue := q, outPosted := outPosted s @ ts\<rparr>)"

definition OutputLibnet_init :: "'p libnet_out \<Rightarrow> bool \<times> 'p libnet_out" where
  "OutputLibnet_init s = (True, libnet_asyncPop s)"

definition OutputLibnet_handlePacket :: "'p \<Rightarrow> 'p libnet_out \<Rightarrow> 'p libnet_out" where
  "OutputLibnet_handlePacket pkt s =
     (let (q, ts) = push pkt (outQueue s) in s\<lparr>outQueue := q, outPosted := outPosted s @ ts\<rparr>)"

text \<open>The methods of \<open>Output6Libnet\<close>.\<close>

definition Output6Libnet_init :: "'p libnet_out \<Rightarrow> bool \<times> 'p libnet_out" where
  "Output6Libnet_init s = (True, libnet_asyncPop s)"

definition Output6Libnet_handlePacket :: "'p \<Rightarrow> 'p libnet_out \<Rightarrow> 'p libnet_out" where
  "Output6Libnet_handlePacket pkt s =
     (let (q, ts) = push pkt (outQueue s) in s\<lparr>outQueue := q, outPosted := outPosted s @ ts\<rparr>)"

text \<open>The calls made, and the new state, which has popped again only if everything succeeded.\<close>

definition libnet_popHandler ::
  "('p \<Rightarrow> unit libnet_code) \<Rightarrow> bool \<Rightarrow> queue_error_code \<Rightarrow> 'p option \<Rightarrow> 'p libnet_out
     \<Rightarrow> libnet_call list \<times> (fault + 'p libnet_out)" where
  "libnet_popHandler build reinit ec d s =
     (case (ec, d) of
        (Ok, Some pkt) \<Rightarrow>
          (let s1 = s\<lparr>libnet := libnet s \<or> reinit\<rparr>
           in if \<not> libnet s1 then ([], Inr s1)
              else (fst (build pkt), case snd (build pkt) of
                      Inl (Crashed f) \<Rightarrow> Inl f
                    | Inl Returned \<Rightarrow> Inr s1
                    | Inr _ \<Rightarrow> Inr (libnet_asyncPop s1)))
      | _ \<Rightarrow> ([], Inr s))"

definition OutputLibnet_popHandler ::
  "(libnet_call \<Rightarrow> int) \<Rightarrow> bool \<Rightarrow> queue_error_code \<Rightarrow> packet option \<Rightarrow> packet libnet_out
     \<Rightarrow> libnet_call list \<times> (fault + packet libnet_out)" where
  "OutputLibnet_popHandler lib reinit ec d s = libnet_popHandler (OutputLibnet_build lib) reinit ec d s"

definition Output6Libnet_popHandler ::
  "(libnet_call \<Rightarrow> int) \<Rightarrow> bool \<Rightarrow> queue_error_code \<Rightarrow> packet6 option \<Rightarrow> packet6 libnet_out
     \<Rightarrow> libnet_call list \<times> (fault + packet6 libnet_out)" where
  "Output6Libnet_popHandler lib reinit ec d s = libnet_popHandler (Output6Libnet_build lib) reinit ec d s"

section \<open>Steps\<close>

text \<open>
  A packet arrives, or a posted invocation of the handler runs. The packet has gone out if
  \<open>libnet_write\<close> was called and did not fail. Without \<open>fails\<close>, libnet works at every step.
\<close>

inductive out_step ::
  "((libnet_call \<Rightarrow> int) \<Rightarrow> 'p \<Rightarrow> unit libnet_code) \<Rightarrow> bool \<Rightarrow> 'p libnet_out \<Rightarrow> 'p list \<Rightarrow> 'p list \<Rightarrow> 'p libnet_out \<Rightarrow> bool"
  for build fails where
  arrive: "out_step build fails s [pkt] [] (OutputLibnet_handlePacket pkt s)"
| pop: "k < length (outPosted s) \<Longrightarrow> outPosted s ! k = ((), ec, d) \<Longrightarrow>
    fails \<or> reinit \<and> (\<forall>c. lib c \<noteq> -1) \<Longrightarrow>
    libnet_popHandler (build lib) reinit ec d (s\<lparr>outPosted := drop_nth k (outPosted s)\<rparr>) = (calls, Inr s') \<Longrightarrow>
    out = (if Write_packet \<in> set calls \<and> lib Write_packet \<noteq> -1
           then (case d of None \<Rightarrow> [] | Some p \<Rightarrow> [p]) else []) \<Longrightarrow>
    out_step build fails s [] out s'"

definition out_ok :: "'p libnet_out \<Rightarrow> bool" where
  "out_ok s \<longleftrightarrow> aq_ok (outQueue s)
     \<and> (outPosted s = [] \<or> callback (outQueue s) = None \<and> (\<exists>p. outPosted s = [((), Ok, Some p)]))"

text \<open>The queue will call the handler for a packet: one call is posted, or it is registered.\<close>

definition out_live :: "'p libnet_out \<Rightarrow> bool" where
  "out_live s \<longleftrightarrow> callback (outQueue s) \<noteq> None \<or> outPosted s \<noteq> []"

definition out_held :: "'p libnet_out \<Rightarrow> 'p list" where
  "out_held s = handed (outPosted s) @ theQueue (outQueue s)"

lemma libnet_asyncPop_ok:
  assumes "aq_ok (outQueue s)" and "callback (outQueue s) = None" and "outPosted s = []"
  shows "out_ok (libnet_asyncPop s)" and "out_live (libnet_asyncPop s)"
    and "out_held (libnet_asyncPop s) = out_held s" and "libnet (libnet_asyncPop s) = libnet s"
proof -
  obtain q ts where q: "asyncPop () (outQueue s) = (q, ts)" by (cases "asyncPop () (outQueue s)")
  note get = aq.get_ok [OF assms(1), of "()", unfolded q] aq.get_conserves [OF assms(1), of "()", unfolded q]
  show "out_held (libnet_asyncPop s) = out_held s"
    using get(2) by (simp add: libnet_asyncPop_def q out_held_def assms(3))
  have "out_ok (libnet_asyncPop s) \<and> out_live (libnet_asyncPop s)"
  proof (cases "theQueue (outQueue s)")
    case Nil
    then show ?thesis using get(1) aq.get_empty [OF assms(1) Nil, of "()"]
      by (simp add: libnet_asyncPop_def q out_ok_def out_live_def assms(3))
  next
    case (Cons d ds)
    then show ?thesis using get(1) aq.get_front [OF assms(1) Cons, of "()"]
      by (simp add: libnet_asyncPop_def q out_ok_def out_live_def assms(3))
  qed
  then show "out_ok (libnet_asyncPop s)" "out_live (libnet_asyncPop s)" by simp_all
  show "libnet (libnet_asyncPop s) = libnet s" by (simp add: libnet_asyncPop_def q)
qed

lemma libnet_arrive_ok:
  fixes pkt :: 'p
  assumes "out_ok s"
  defines "s' \<equiv> OutputLibnet_handlePacket pkt s"
  shows "out_ok s'" and "out_held s' = out_held s @ [pkt]" and "out_live s' = out_live s"
proof -
  from assms have aq: "aq_ok (outQueue s)" by (simp add: out_ok_def)
  obtain q ts where q: "push pkt (outQueue s) = (q, ts)" by (cases "push pkt (outQueue s)")
  note P = aq.put_ok [OF aq, of pkt, unfolded q] aq.put_conserves [OF aq, of pkt, unfolded q]
  have "out_ok s' \<and> out_held s' = out_held s @ [pkt] \<and> (out_live s' = out_live s)"
  proof (cases "callback (outQueue s)")
    case None
    then show ?thesis
      using P aq.put_queued [OF aq None, of pkt] assms
      by (auto simp: OutputLibnet_handlePacket_def q out_held_def out_ok_def out_live_def)
  next
    case (Some u)
    then show ?thesis
      using P aq.put_waiting [OF aq, of "()" pkt] assms
      by (auto simp: OutputLibnet_handlePacket_def q out_held_def out_ok_def out_live_def aq_ok_def)
  qed
  then show "out_ok s'" "out_held s' = out_held s @ [pkt]" "out_live s' = out_live s" by simp_all
qed

text \<open>What the handler relies on: a packet is complete exactly if its last call succeeded.\<close>

locale libnet_output =
  fixes build :: "(libnet_call \<Rightarrow> int) \<Rightarrow> 'a parent_packet_scheme \<Rightarrow> unit libnet_code"
  assumes completes: "snd (build lib p) = Inr () \<longleftrightarrow> Write_packet \<in> set (fst (build lib p)) \<and> lib Write_packet \<noteq> -1"
    and succeeds: "\<forall>c. lib c \<noteq> -1 \<Longrightarrow> snd (build lib p) \<noteq> Inl Returned"
begin

lemma pop_effect:
  assumes "out_ok s" and "k < length (outPosted s)" and "outPosted s ! k = ((), ec, d)"
    and "libnet_popHandler (build lib) reinit ec d (s\<lparr>outPosted := drop_nth k (outPosted s)\<rparr>) = (calls, Inr s')"
  obtains p where "outPosted s = [((), Ok, Some p)]" and "d = Some p" and "out_ok s'"
    and "out_held s = p # out_held s'"
    and "Write_packet \<in> set calls \<and> lib Write_packet \<noteq> -1 \<longleftrightarrow> (libnet s \<or> reinit) \<and> snd (build lib p) = Inr ()"
    and "out_live s' \<longleftrightarrow> (libnet s \<or> reinit) \<and> snd (build lib p) = Inr ()"
    and "libnet s \<or> reinit \<Longrightarrow> snd (build lib p) = Inr () \<or> snd (build lib p) = Inl Returned"
proof -
  from assms(1-3) obtain p where p: "aq_ok (outQueue s)" "callback (outQueue s) = None"
    "outPosted s = [((), Ok, Some p)]" "k = 0" "ec = Ok" "d = Some p"
    by (auto simp: out_ok_def)
  let ?s = "s\<lparr>outPosted := [], libnet := libnet s \<or> reinit\<rparr>"
  have h: "out_held s = p # out_held ?s" using p by (simp add: out_held_def)
  have stalled: "out_ok ?s" "\<not> out_live ?s" using p by (simp_all add: out_ok_def out_live_def)
  note A = libnet_asyncPop_ok [of ?s]
  note run = assms(4) [unfolded libnet_popHandler_def]
  show ?thesis
  proof (cases "libnet s \<or> reinit")
    case False
    then have "s' = ?s" "calls = []" using run p by (auto simp: drop_nth_def Let_def)
    then show ?thesis using that [OF p(3,6)] h stalled False by simp
  next
    case True
    show ?thesis
    proof (cases "snd (build lib p)")
      case (Inl e)
      have e: "e = Returned" using run p True Inl by (cases e) (auto simp: drop_nth_def Let_def)
      then have "s' = ?s" "calls = fst (build lib p)"
        using run p True Inl by (auto simp: drop_nth_def Let_def)
      then show ?thesis using that [OF p(3,6)] h stalled Inl e completes [of lib p] by simp
    next
      case (Inr u)
      then have "s' = libnet_asyncPop ?s" "calls = fst (build lib p)"
        using run p True by (auto simp: drop_nth_def Let_def)
      then show ?thesis using that [OF p(3,6)] h A p(1,2) True Inr completes [of lib p] by simp
    qed
  qed
qed

lemma out_step_effect:
  "out_step build fails s i out s' \<Longrightarrow> out_ok s \<Longrightarrow> out_ok s' \<and> subseq (out @ out_held s') (out_held s @ i)"
proof (induction rule: out_step.induct)
  case (arrive s pkt)
  then show ?case by (simp add: libnet_arrive_ok)
next
  case (pop k s ec d reinit lib calls s' out)
  obtain p where p: "d = Some p" "out_held s = p # out_held s'" "out_ok s'"
    by (rule pop_effect [OF pop(6,1,2,4)]) (rule that, assumption+)
  have "out = [p] \<or> out = []" by (simp add: pop(5) p(1))
  then show ?case using p(2,3) by (elim disjE) (simp_all add: list_emb_Cons)
qed

lemma out_step_keeps:
  "out_step build False s i out s' \<Longrightarrow> out_ok s \<Longrightarrow> out @ out_held s' = out_held s @ i"
proof (induction rule: out_step.induct)
  case (arrive s pkt)
  then show ?case by (simp add: libnet_arrive_ok)
next
  case (pop k s ec d reinit lib calls s' out)
  obtain p where p: "d = Some p" "out_held s = p # out_held s'"
    "Write_packet \<in> set calls \<and> lib Write_packet \<noteq> -1 \<longleftrightarrow> (libnet s \<or> reinit) \<and> snd (build lib p) = Inr ()"
    "libnet s \<or> reinit \<Longrightarrow> snd (build lib p) = Inr () \<or> snd (build lib p) = Inl Returned"
    by (rule pop_effect [OF pop(6,1,2,4)]) (rule that, assumption+)
  from pop(3) have r: "reinit" "\<forall>c. lib c \<noteq> -1" by simp_all
  from p(4) succeeds [OF r(2), of p] r(1) have "snd (build lib p) = Inr ()" by blast
  with p(3) r(1) have "out = [p]" by (simp add: pop(5) p(1))
  with p(2) show ?case by simp
qed

text \<open>After a failure the handler is never called again.\<close>

lemma stalled_step:
  "out_step build fails s i out s' \<Longrightarrow> out_ok s \<Longrightarrow> \<not> out_live s \<Longrightarrow>
     out = [] \<and> out_held s' = out_held s @ i \<and> \<not> out_live s'"
proof (induction rule: out_step.induct)
  case (arrive s pkt)
  then show ?case by (simp add: libnet_arrive_ok)
next
  case (pop k s ec d reinit lib calls s' out)
  then have "outPosted s \<noteq> []" by auto
  then show ?case using pop(7) by (simp add: out_live_def)
qed

lemma stalled_run:
  assumes "stage_run (out_step build fails) s ins outs s'" and "out_ok s" and "\<not> out_live s"
  shows "outs = [] \<and> out_held s' = out_held s @ ins \<and> out_ok s' \<and> \<not> out_live s'"
  using assms
proof (induction rule: stage_run.induct)
  case (more ins outs s1 i out s2)
  then have IH: "outs = []" "out_held s1 = out_held s @ ins" "out_ok s1" "\<not> out_live s1" by simp_all
  from stalled_step [OF more(2) IH(3,4)] out_step_effect [OF more(2) IH(3)] IH show ?case by simp
qed simp

lemma run_ok: "stage_run (out_step build fails) s ins outs s' \<Longrightarrow> out_ok s \<Longrightarrow> out_ok s'"
  by (induction rule: stage_run.induct) (simp_all add: out_step_effect)

text \<open>While libnet works the handler stays registered or called.\<close>

lemma working_live:
  "out_step build False s i out s' \<Longrightarrow> out_ok s \<Longrightarrow> out_live s \<Longrightarrow> out_live s'"
proof (induction rule: out_step.induct)
  case (arrive s pkt)
  then show ?case by (simp add: libnet_arrive_ok)
next
  case (pop k s ec d reinit lib calls s' out)
  obtain p where p: "out_live s' \<longleftrightarrow> (libnet s \<or> reinit) \<and> snd (build lib p) = Inr ()"
    "libnet s \<or> reinit \<Longrightarrow> snd (build lib p) = Inr () \<or> snd (build lib p) = Inl Returned"
    by (rule pop_effect [OF pop(6,1,2,4)]) (rule that, assumption+)
  from pop(3) have r: "reinit" "\<forall>c. lib c \<noteq> -1" by simp_all
  from p succeeds [OF r(2), of p] r(1) show ?case by blast
qed

lemma working_run:
  assumes "stage_run (out_step build False) s ins outs s'" and "out_ok s" and "out_live s"
  shows "out_ok s' \<and> out_live s' \<and> outs @ out_held s' = out_held s @ ins"
  using assms
proof (induction rule: stage_run.induct)
  case (more ins outs s1 i out s2)
  then have IH: "outs @ out_held s1 = out_held s @ ins" "out_ok s1" "out_live s1" by simp_all
  from out_step_keeps [OF more(2) IH(2)] out_step_effect [OF more(2) IH(2)] working_live [OF more(2) IH(2,3)]
  have "out @ out_held s2 = out_held s1 @ i" "out_ok s2" "out_live s2" by simp_all
  moreover have "outs @ out @ out_held s2 = out_held s @ ins @ i"
    using IH(1) calculation(1) by (metis append.assoc)
  ultimately show ?case by simp
qed simp

lemma working_next:
  assumes "out_ok s" and "out_live s" and "out_held s = p # ps" and "snd (build (\<lambda>c. 0) p) = Inr ()"
  shows "\<exists>s'. out_step build False s [] [p] s' \<and> out_held s' = ps"
proof -
  from assms(1-3) have post: "outPosted s = [((), Ok, Some p)]"
    by (auto simp: out_ok_def out_live_def out_held_def aq_ok_def)
  obtain calls r where run: "libnet_popHandler (build (\<lambda>c. 0)) True Ok (Some p)
      (s\<lparr>outPosted := drop_nth 0 (outPosted s)\<rparr>) = (calls, r)"
    by (cases "libnet_popHandler (build (\<lambda>c. 0)) True Ok (Some p) (s\<lparr>outPosted := drop_nth 0 (outPosted s)\<rparr>)")
  then obtain s' where r: "r = Inr s'" and c: "calls = fst (build (\<lambda>c. 0) p)"
    using assms(4) by (auto simp: libnet_popHandler_def Let_def)
  have k: "0 < length (outPosted s)" "outPosted s ! 0 = ((), Ok, Some p)" by (simp_all add: post)
  have "Write_packet \<in> set calls" using completes [of "\<lambda>c. 0" p] assms(4) by (simp add: c)
  then have st: "out_step build False s [] [p] s'"
    using out_step.pop [OF k, of False True "\<lambda>c. 0" build calls s'] run r by simp
  from out_step_keeps [OF this assms(1)] assms(3) st show ?thesis by auto
qed

end

section \<open>Both outputs keep the contract\<close>

lemma lbind_ends:
  "snd (lbind m f) = Inr x \<longleftrightarrow> (\<exists>y. snd m = Inr y \<and> snd (f y) = Inr x)"
  "snd (lbind m f) = Inl e \<longleftrightarrow> snd m = Inl e \<or> (\<exists>y. snd m = Inr y \<and> snd (f y) = Inl e)"
  by (auto simp: lbind_def split: sum.splits)

lemma lbind_calls:
  "c \<in> set (fst (lbind m f)) \<longleftrightarrow> c \<in> set (fst m) \<or> (\<exists>y. snd m = Inr y \<and> c \<in> set (fst (f y)))"
  by (auto simp: lbind_def split: sum.splits)

lemma lcall_ends:
  "snd (lcall lib c) = Inr u \<longleftrightarrow> lib c \<noteq> -1" "snd (lcall lib c) = Inl e \<longleftrightarrow> lib c = -1 \<and> e = Returned"
  "fst (lcall lib c) = [c]"
  by (auto simp: lcall_def)

lemma lread_ends:
  "snd (lread m) = Inr x \<longleftrightarrow> m = Inr x" "snd (lread m) = Inl e \<longleftrightarrow> (\<exists>f. m = Inl f \<and> e = Crashed f)"
  "fst (lread m) = []"
  by (auto simp: lread_def split: sum.splits)

lemmas libnet_ends = lbind_ends lbind_calls lcall_ends lread_ends

lemma build_transport_ends:
  "Write_packet \<notin> set (fst (build_udp lib p mem hl))" "Write_packet \<notin> set (fst (build_tcp lib p mem hl))"
  "\<forall>c. lib c \<noteq> -1 \<Longrightarrow> snd (build_udp lib p mem hl) \<noteq> Inl Returned"
  "\<forall>c. lib c \<noteq> -1 \<Longrightarrow> snd (build_tcp lib p mem hl) \<noteq> Inl Returned"
  by (auto simp: build_udp_def build_tcp_def Let_def libnet_ends)

definition ends_in_write :: "(libnet_call \<Rightarrow> int) \<Rightarrow> unit libnet_code \<Rightarrow> bool" where
  "ends_in_write lib m \<longleftrightarrow> (snd m = Inr () \<longleftrightarrow> Write_packet \<in> set (fst m) \<and> lib Write_packet \<noteq> -1)"

lemma ends_in_write_call: "ends_in_write lib (lcall lib Write_packet)"
  by (simp add: ends_in_write_def lcall_ends)

lemma ends_in_write_bind:
  "Write_packet \<notin> set (fst m) \<Longrightarrow> (\<And>y. ends_in_write lib (f y)) \<Longrightarrow> ends_in_write lib (lbind m f)"
  by (cases "snd m") (auto simp: ends_in_write_def lbind_def)

lemma OutputLibnet_completes:
  "snd (OutputLibnet_build lib p) = Inr () \<longleftrightarrow>
     Write_packet \<in> set (fst (OutputLibnet_build lib p)) \<and> lib Write_packet \<noteq> -1"
proof -
  have "ends_in_write lib (OutputLibnet_build lib p)"
    unfolding OutputLibnet_build_def Let_def split_def
    by (intro ends_in_write_bind ends_in_write_call) (simp_all add: lread_ends lcall_ends build_transport_ends)
  then show ?thesis by (simp add: ends_in_write_def)
qed

lemma OutputLibnet_succeeds:
  "\<forall>c. lib c \<noteq> -1 \<Longrightarrow> snd (OutputLibnet_build lib p) \<noteq> Inl Returned"
  unfolding OutputLibnet_build_def Let_def
  by (auto simp: libnet_ends build_transport_ends split: if_splits prod.splits)

interpretation libnet4: libnet_output OutputLibnet_build
  by unfold_locales (rule OutputLibnet_completes, rule OutputLibnet_succeeds)

interpretation libnet6: libnet_output Output6Libnet_build
  by unfold_locales (auto simp: Output6Libnet_build_def libnet_ends)

end
