(* ===== verification/Output_Properties.thy ===== *)
theory Output_Properties
  imports Outputs
begin

text \<open>
  What the libnet outputs send: for packets as they come from the network, with addresses and
  ports as the filters left them, the calls that rebuild them; and what happens to the queue
  when a call fails.
\<close>

section \<open>Reading behind a prefix\<close>

lemma load_behind:
  "length xs = n \<Longrightarrow> load8 (xs @ ys) (n + k) = load8 ys k"
  "length xs = n \<Longrightarrow> load16 (xs @ ys) (n + k) = load16 ys k"
  "length xs = n \<Longrightarrow> load32 (xs @ ys) (n + k) = load32 ys k"
  by (auto simp: load8_def load16_def load32_def nth_append)

lemma load_be:
  "load8 (b # bs) 0 = Inr b" "0 < k \<Longrightarrow> load8 (b # bs) k = load8 bs (k - 1)"
  "0 < k \<Longrightarrow> load16 (b # bs) k = load16 bs (k - 1)" "0 < k \<Longrightarrow> load32 (b # bs) k = load32 bs (k - 1)"
  "load16 (be16 w @ ys) 0 = Inr (host16 (ucast (drop_bit 8 w)) (ucast w))"
  "load32 (be32 v @ ys) 0 = Inr (host32 (ucast (drop_bit 24 v)) (ucast (drop_bit 16 v)) (ucast (drop_bit 8 v)) (ucast v))"
  by (auto simp: load8_def load16_def load32_def be16_def be32_def numeral_3_eq_3 gr0_conv_Suc)

lemma length_be [simp]: "length (be16 w) = 2" "length (be32 v) = 4"
  by (simp_all add: be16_def be32_def)

lemma load_skip:
  "k \<ge> 2 \<Longrightarrow> load8 (be16 w @ ys) k = load8 ys (k - 2)" "k \<ge> 2 \<Longrightarrow> load16 (be16 w @ ys) k = load16 ys (k - 2)"
  "k \<ge> 2 \<Longrightarrow> load32 (be16 w @ ys) k = load32 ys (k - 2)" "k \<ge> 4 \<Longrightarrow> load8 (be32 v @ ys) k = load8 ys (k - 4)"
  "k \<ge> 4 \<Longrightarrow> load16 (be32 v @ ys) k = load16 ys (k - 4)" "k \<ge> 4 \<Longrightarrow> load32 (be32 v @ ys) k = load32 ys (k - 4)"
  using load_behind [of "be16 w" 2 ys "k - 2"] load_behind [of "be32 v" 4 ys "k - 4"]
  by (simp_all only: length_be le_add_diff_inverse)

section \<open>The IPv4 header\<close>

definition ipv4_head :: "u8 \<Rightarrow> u8 \<Rightarrow> u16 \<Rightarrow> u16 \<Rightarrow> u16 \<Rightarrow> u8 \<Rightarrow> u8 \<Rightarrow> u16 \<Rightarrow> u32 \<Rightarrow> u32 \<Rightarrow> u8 list \<Rightarrow> u8 list" where
  "ipv4_head ihl tos len ipid frag ttl proto csum src dst options =
     ipv4_wire ihl tos len ipid frag ttl proto csum src dst options"

lemma ipv4_wire_split:
  "ipv4_wire ihl tos len ipid frag ttl proto csum src dst (options @ rest) =
     ipv4_head ihl tos len ipid frag ttl proto csum src dst options @ rest"
  by (simp add: ipv4_head_def ipv4_wire_def)

lemma ipv4_head_length: "length (ipv4_head ihl tos len ipid frag ttl proto csum src dst options) = 20 + length options"
  by (simp add: ipv4_head_def ipv4_wire_def)

lemma ipv4_head_loads:
  fixes ihl tos len ipid frag ttl proto csum src dst options rest
  defines "mem \<equiv> ipv4_head ihl tos len ipid frag ttl proto csum src dst options @ rest"
  shows "load8 mem 0 = Inr (0x40 OR ihl)" "load8 mem 1 = Inr tos"
    "load16 mem 2 = Inr (host16 (ucast (drop_bit 8 len)) (ucast len))" "load8 mem 8 = Inr ttl" "load8 mem 9 = Inr proto"
  by (simp_all add: mem_def ipv4_head_def ipv4_wire_def load8_def load16_def be16_def be32_def)

text \<open>The calls around those of the transport header.\<close>

lemma OutputLibnet_build_eq:
  assumes "packetData p = ipv4_head ihl tos len ipid frag ttl proto csum src dst options @ rest"
    and "ihl \<le> 15" and "\<forall>c. lib c \<noteq> -1"
    and "proto = IPPROTO_UDP \<Longrightarrow> build_udp lib p (packetData p) (4 * unat ihl) = (cs, Inr (pData, psize))"
    and "proto = IPPROTO_TCP \<Longrightarrow> build_tcp lib p (packetData p) (4 * unat ihl) = (cs, Inr (pData, psize))"
    and "proto = IPPROTO_UDP \<or> proto = IPPROTO_TCP"
  shows "OutputLibnet_build lib p =
    ([Clear_packet] @ cs @ [Build_ipv4 len tos (getFragmentID p) (getFragmentFlags p) ttl proto 0
       (ntohl (srcIp p)) (ntohl (dstIp p)) pData psize, Write_packet], Inr ())"
proof -
  note loads = ipv4_head_loads [of ihl tos len ipid frag ttl proto csum src dst options rest, folded assms(1)]
  have hl: "unat (ihl_bytes (0x40 OR ihl)) = 4 * unat ihl"
    using ihl_nibble [OF assms(2)] by simp
  have c: "lcall lib c = ([c], Inr ())" for c using assms(3) by (simp add: lcall_def)
  have "proto \<noteq> IPPROTO_ICMP" "IPPROTO_TCP \<noteq> IPPROTO_UDP" using assms(6) by (auto simp: ipproto_defs)
  then have t: "(if proto = IPPROTO_ICMP then ([], Inr (Some (4 * unat ihl), x)) else if proto = IPPROTO_UDP
        then build_udp lib p (packetData p) (4 * unat ihl)
        else if proto = IPPROTO_TCP then build_tcp lib p (packetData p) (4 * unat ihl)
        else ([], Inr (Some (4 * unat ihl), x))) = (cs, Inr (pData, psize))" for x
    using assms(4-6) by auto
  show ?thesis
    unfolding OutputLibnet_build_def Let_def
    by (simp only: loads lbind_simps hl t c ntohs_be16 fst_conv snd_conv prod.case append.simps append_assoc)
qed

section \<open>UDP\<close>

text \<open>
  C15. What the libnet output sends for a UDP packet: for every packet whose memory is the network
  form of a UDP packet, with any IP options, and a library that does not fail, the handler makes
  exactly these calls and ends with the write. Body and UDP length are those of the memory,
  ports and addresses those of the packet object, which the filters may have rewritten; total
  length, type of service, time to live and protocol are those of the memory. Not as they came:
  the id that is sent is the fragment offset, the fragment field has the flags only, and the IP
  options are in no call although the total length still counts them.
\<close>

theorem output_libnet_udp:
  assumes "packetData p = ipv4_wire ihl tos len ipid frag ttl IPPROTO_UDP csum src dst
      (options @ be16 sp @ be16 dp @ be16 ulen @ be16 ucsum @ body)"
    and "ihl \<le> 15" and "length options + 20 = 4 * unat ihl"
    and "unat ulen = 8 + length body" and "ipFrag p = frag"
    and "\<forall>c. lib c \<noteq> -1"
  shows "OutputLibnet_build lib p =
      ([Clear_packet,
        Build_udp (sport p) (dport p) ulen 0 (Some (4 * unat ihl + 8)) (of_nat (length body)),
        Build_ipv4 len tos (frag AND 0x1FFF) (frag AND 0xE000) ttl IPPROTO_UDP 0
          (ntohl (srcIp p)) (ntohl (dstIp p)) None 0,
        Write_packet], Inr ())
    \<and> take (length body) (drop (4 * unat ihl + 8) (packetData p)) = body"
proof
  let ?T = "be16 sp @ be16 dp @ be16 ulen @ be16 ucsum @ body"
  let ?H = "ipv4_head ihl tos len ipid frag ttl IPPROTO_UDP csum src dst options"
  have mem: "packetData p = ?H @ ?T" using assms(1) by (simp only: ipv4_wire_split)
  have H: "length ?H = 4 * unat ihl" using assms(3) by (simp add: ipv4_head_length)
  have "load16 ?T 4 = Inr (host16 (ucast (drop_bit 8 ulen)) (ucast ulen))"
    by (simp add: load_skip load_be)
  then have l: "load16 (packetData p) (4 * unat ihl + 4) = Inr (host16 (ucast (drop_bit 8 ulen)) (ucast ulen))"
    unfolding mem by (simp only: load_behind(2) [OF H])
  have "unat (ucast ulen :: u32) = 8 + length body"
    using assms(4) unsigned_less [of ulen, where ?'a = nat] by (simp add: unsigned_ucast_eq take_bit_eq_mod)
  then have "of_nat (unat (ucast ulen :: u32)) = (8 + of_nat (length body) :: u32)" by simp
  then have n: "ucast ulen - 8 = (of_nat (length body) :: u32)" by simp
  have "build_udp lib p (packetData p) (4 * unat ihl) =
      ([Build_udp (sport p) (dport p) ulen 0 (Some (4 * unat ihl + 8)) (of_nat (length body))], Inr (None, 0))"
    unfolding build_udp_def using assms(6) by (simp add: l lcall_def ntohs_be16 n)
  from OutputLibnet_build_eq [OF mem assms(2,6) this] show "OutputLibnet_build lib p =
      ([Clear_packet,
        Build_udp (sport p) (dport p) ulen 0 (Some (4 * unat ihl + 8)) (of_nat (length body)),
        Build_ipv4 len tos (frag AND 0x1FFF) (frag AND 0xE000) ttl IPPROTO_UDP 0
          (ntohl (srcIp p)) (ntohl (dstIp p)) None 0,
        Write_packet], Inr ())"
    using assms(5) by (simp add: ipproto_defs getFragmentID_def getFragmentFlags_def)
  show "take (length body) (drop (4 * unat ihl + 8) (packetData p)) = body"
    unfolding mem using H by simp
qed

section \<open>TCP\<close>

lemma nibble_shift: "off \<le> (15 :: u8) \<Longrightarrow> drop_bit 4 (push_bit 4 off) = off"
  by (rule unsigned_word_eqI [where ?'a = nat])
    (simp add: word_le_nat_alt unsigned_drop_bit_eq unat_word_ariths push_bit_eq_mult drop_bit_eq_div take_bit_eq_mod)

lemma ucast_of_nat_down: "(ucast (of_nat n :: u32) :: u16) = of_nat n"
  by (simp add: unsigned_of_nat word_of_nat_eq_iff)

lemma tcp_off_size:
  assumes "off \<le> (15 :: u8)" and "n + 20 = 4 * unat off"
  shows "unat (push_bit 2 off - 20) = n"
  using ihl_nibble(2) [OF assms(1)] assms(2) by (simp add: unat_sub word_le_nat_alt)

text \<open>A TCP segment: the header with its data offset, and what follows the fixed part.\<close>

abbreviation tcp_seg :: "u16 \<Rightarrow> u16 \<Rightarrow> u32 \<Rightarrow> u32 \<Rightarrow> u8 \<Rightarrow> u8 \<Rightarrow> u16 \<Rightarrow> u16 \<Rightarrow> u16 \<Rightarrow> u8 list \<Rightarrow> u8 list" where
  "tcp_seg sp dp sq ak off flags win csum urp rest \<equiv>
     be16 sp @ be16 dp @ be32 sq @ be32 ak @ [push_bit 4 off, flags] @ be16 win @ be16 csum @ be16 urp @ rest"

lemma tcp_loads:
  assumes "mem = H @ tcp_seg sp dp sq ak off flags win tcsum urp rest" and "length H = hl"
  shows "load8 mem (hl + 12) = Inr (push_bit 4 off)" and "load8 mem (hl + 13) = Inr flags"
    and "load32 mem (hl + 4) = Inr (host32 (ucast (drop_bit 24 sq)) (ucast (drop_bit 16 sq)) (ucast (drop_bit 8 sq)) (ucast sq))"
    and "load32 mem (hl + 8) = Inr (host32 (ucast (drop_bit 24 ak)) (ucast (drop_bit 16 ak)) (ucast (drop_bit 8 ak)) (ucast ak))"
    and "load16 mem (hl + 14) = Inr (host16 (ucast (drop_bit 8 win)) (ucast win))"
    and "load16 mem (hl + 18) = Inr (host16 (ucast (drop_bit 8 urp)) (ucast urp))"
  unfolding assms(1) by (simp_all only: load_behind [OF assms(2)]) (simp_all add: load_skip load_be)

lemma tcp_drop:
  assumes "length topts + 20 = 4 * unat off"
  shows "drop (4 * unat off) (tcp_seg sp dp sq ak off flags win tcsum urp (topts @ body)) = body"
proof -
  let ?P = "tcp_seg sp dp sq ak off flags win tcsum urp topts"
  have P: "length ?P = 4 * unat off" using assms by simp
  have "drop (length xs) (xs @ ys) = ys" for xs ys :: "u8 list" by simp
  from this [of ?P body] show ?thesis unfolding P by (simp only: append_assoc)
qed

text \<open>The payload size, \<open>pktData.size() - ipHdrLen - 20 - tcpOptionsSize\<close>, in 32 bits.\<close>

lemma tcp_payload_size:
  assumes "unat (w :: u8) = k"
  shows "word_of_int (int (hl + 20 + k + n) - int hl - 20 - uint w) = (of_nat n :: u32)"
proof -
  have "uint w = int k" unfolding uint_nat assms ..
  then have "int (hl + 20 + k + n) - int hl - 20 - uint w = int n" by simp
  then show ?thesis by (simp only: of_int_of_nat_eq)
qed

lemma build_tcp_segment:
  assumes m: "mem = H @ tcp_seg sp dp sq ak off flags win tcsum urp (topts @ body)" and H: "length H = hl"
    and "off \<le> 15" and n: "length topts + 20 = 4 * unat off"
    and "length body < 2 ^ 16" and "\<forall>c. lib c \<noteq> -1"
  shows "build_tcp lib p mem hl =
      ([Build_tcp_options (hl + 20) (of_nat (length topts)),
        Build_tcp (sport p) (dport p) sq ak flags win 0 urp (of_nat (hl + 4 * unat off + length body))
          (if body = [] then None else Some (hl + 4 * unat off)) (of_nat (length body))], Inr (None, 0))"
proof -
  let ?o = "push_bit 2 off - 20 :: u8"
  have c: "lcall lib c = ([c], Inr ())" for c using assms(6) by (simp add: lcall_def)
  have off: "drop_bit 4 (push_bit 4 off) = off" using assms(3) by (simp add: nibble_shift)
  have o: "unat ?o = length topts" using tcp_off_size [OF assms(3,4)] .
  have "length mem = hl + 20 + length topts + length body" unfolding m using H by simp
  then have sz: "word_of_int (int (length mem) - int hl - 20 - uint ?o) = (of_nat (length body) :: u32)"
    by (simp only: tcp_payload_size [OF o])
  have z: "(of_nat (length body) :: u32) = 0 \<longleftrightarrow> body = []"
    using assms(5) by (auto simp: word_of_nat_eq_0_iff dest: dvd_imp_le)
  have u: "(ucast ?o :: u32) = of_nat (length topts)" using arg_cong [OF o, of "of_nat :: nat \<Rightarrow> u32"] by simp
  have "of_nat hl + 20 + of_nat (length topts) + of_nat (length body) = (of_nat (hl + 4 * unat off + length body) :: u32)"
    unfolding n [symmetric] by simp
  then have l: "(ucast (of_nat hl + 20 + of_nat (length topts) + of_nat (length body) :: u32) :: u16)
      = of_nat (hl + 4 * unat off + length body)"
    by (simp only: ucast_of_nat_down)
  have off2: "hl + 20 + length topts = hl + 4 * unat off" using n by simp
  show ?thesis
    unfolding build_tcp_def Let_def
    by (simp only: tcp_loads [OF m H] lbind_simps off sz u l z o off2 c ntohs_be16 ntohl_be32 fst_conv snd_conv append.simps)
qed

text \<open>
  C34. The libnet output sends a TCP segment as it came, with the ports the filters gave it: the
  sequence and acknowledgement numbers, the flags, the window, the urgent pointer and the
  options are those of the segment, and the payload is its body (no payload for an empty one).
\<close>

theorem output_libnet_tcp:
  assumes "packetData p = ipv4_wire ihl tos len ipid frag ttl IPPROTO_TCP csum src dst
      (options @ be16 sp @ be16 dp @ be32 sq @ be32 ak @ [push_bit 4 off, flags] @ be16 win @ be16 tcsum @ be16 urp
        @ topts @ body)"
    and "ihl \<le> 15" and "length options + 20 = 4 * unat ihl"
    and "off \<le> 15" and "length topts + 20 = 4 * unat off" and "ipFrag p = frag"
    and "length body < 2 ^ 16" and "\<forall>c. lib c \<noteq> -1"
  shows "OutputLibnet_build lib p =
      ([Clear_packet,
        Build_tcp_options (4 * unat ihl + 20) (of_nat (length topts)),
        Build_tcp (sport p) (dport p) sq ak flags win 0 urp
          (of_nat (4 * unat ihl + 4 * unat off + length body))
          (if body = [] then None else Some (4 * unat ihl + 4 * unat off)) (of_nat (length body)),
        Build_ipv4 len tos (frag AND 0x1FFF) (frag AND 0xE000) ttl IPPROTO_TCP 0
          (ntohl (srcIp p)) (ntohl (dstIp p)) None 0,
        Write_packet], Inr ())
    \<and> take (length topts) (drop (4 * unat ihl + 20) (packetData p)) = topts
    \<and> drop (4 * unat ihl + 4 * unat off) (packetData p) = body"
proof (intro conjI)
  let ?T = "tcp_seg sp dp sq ak off flags win tcsum urp (topts @ body)"
  let ?H = "ipv4_head ihl tos len ipid frag ttl IPPROTO_TCP csum src dst options"
  have mem: "packetData p = ?H @ ?T" using assms(1) by (simp only: ipv4_wire_split)
  have H: "length ?H = 4 * unat ihl" using assms(3) by (simp add: ipv4_head_length)
  from OutputLibnet_build_eq [OF mem assms(2,8) _ build_tcp_segment [OF mem H assms(4,5,7,8)]]
  show "OutputLibnet_build lib p =
      ([Clear_packet,
        Build_tcp_options (4 * unat ihl + 20) (of_nat (length topts)),
        Build_tcp (sport p) (dport p) sq ak flags win 0 urp
          (of_nat (4 * unat ihl + 4 * unat off + length body))
          (if body = [] then None else Some (4 * unat ihl + 4 * unat off)) (of_nat (length body)),
        Build_ipv4 len tos (frag AND 0x1FFF) (frag AND 0xE000) ttl IPPROTO_TCP 0
          (ntohl (srcIp p)) (ntohl (dstIp p)) None 0,
        Write_packet], Inr ())"
    using assms(6) by (simp add: ipproto_defs getFragmentID_def getFragmentFlags_def)
  show "take (length topts) (drop (4 * unat ihl + 20) (packetData p)) = topts"
    unfolding mem using H by simp
  show "drop (4 * unat ihl + 4 * unat off) (packetData p) = body"
    unfolding mem using H tcp_drop [OF assms(5)] by (simp only: drop_append drop_drop) simp
qed

section \<open>IPv6\<close>

lemma ucast_up_down: "(ucast (ucast w :: u32) :: u16) = w"
  by (rule bit_word_eqI) (auto simp: bit_simps dest: bit_imp_le_length)

text \<open>
  C35. The IPv6 libnet output sends next header, hop limit, addresses and payload as they came,
  but not the first word of the header: the packet class keeps it in memory order and masks it
  as if it were in host order, so that the traffic class that goes out is always 0 and the
  flow label is made of the first three bytes, with the version number in it: 0x60 in its low
  byte for the usual packet, never 0.
\<close>

theorem output6_header:
  assumes "payload nfa = Some ([b0, b1, b2, b3] @ be16 len @ [nh, hl] @ src @ dst @ body)"
    and "length src = 16" and "length dst = 16"
    and "Packet6_new now nfa raw = Inr p" and "\<forall>c. lib c \<noteq> -1"
  shows "\<exists>label. Output6Libnet_build lib p =
      ([Clear_packet, Build_ipv6 0 label len nh hl src dst 40 (ucast len), Write_packet], Inr ())
    \<and> label = host32 b0 b1 (b2 AND 0xF) 0 \<and> (drop_bit 4 b0 = 6 \<longrightarrow> label AND 0xF0 = 0x60)
    \<and> drop 40 (packetData p) = body"
proof -
  let ?mem = "[b0, b1, b2, b3] @ be16 len @ [nh, hl] @ src @ dst @ body"
  have l: "load32 ?mem 0 = Inr (host32 b0 b1 b2 b3)"
    "load16 ?mem 4 = Inr (host16 (ucast (drop_bit 8 len)) (ucast len))"
    "load8 ?mem 6 = Inr nh" "load8 ?mem 7 = Inr hl" "load_in6 ?mem 8 = Inr src" "load_in6 ?mem 24 = Inr dst"
    using assms(2,3) by (simp_all add: load32_def load16_def load8_def load_in6_def be16_def)
  obtain q where q: "decodeTransportProtocol nh ?mem 40 q = Inr p"
    "packetData q = ?mem" "flow q = host32 b0 b1 b2 b3" "plen q = len" "nxt q = nh" "hlim q = hl"
    "srcIp6 q = src" "dstIp6 q = dst"
    using assms(4) by (fastforce simp: Packet6_new_def assms(1) Let_def l ntohs_be16 simp del: append.simps)
  have p: "packetData p = ?mem" "flow p = host32 b0 b1 b2 b3" "plen p = len" "nxt p = nh" "hlim p = hl"
    "srcIp6 p = src" "dstIp6 p = dst"
    using q by (auto simp: decodeTransportProtocol_def try_bind_Inr_iff split: if_splits simp del: append.simps)
  have c: "lcall lib c = ([c], Inr ())" for c using assms(5) by (simp add: lcall_def)
  have m: "(0x0FF00000 :: u32) = push_bit 20 (mask 8)" "(0x000FFFFF :: u32) = mask 20" "(0xF :: u8) = mask 4"
    by (simp_all add: mask_eq_exp_minus_1)
  have t: "(ucast (getTclass p) :: u8) = 0"
    unfolding getTclass_def m by (rule bit_word_eqI) (auto simp: bit_simps)
  have f: "getFlowLabel p = host32 b0 b1 (b2 AND 0xF) 0"
    unfolding getFlowLabel_def p m host32_def
    by (rule bit_word_eqI) (auto simp: bit_simps dest: bit_imp_le_length)
  have "(host32 b0 b1 (b2 AND 0xF) 0 AND 0xF0) = ucast (push_bit 4 (drop_bit 4 b0))"
  proof -
    have h: "(0xF0 :: u32) = push_bit 4 (mask 4)" by (simp add: mask_eq_exp_minus_1)
    show ?thesis unfolding host32_def m h
      by (rule bit_word_eqI) (auto simp: bit_simps dest: bit_imp_le_length)
  qed
  then have "drop_bit 4 b0 = 6 \<longrightarrow> host32 b0 b1 (b2 AND 0xF) 0 AND 0xF0 = 0x60" by simp
  moreover have "drop 40 (packetData p) = body" unfolding p using assms(2,3) by (simp add: be16_def)
  moreover have "Output6Libnet_build lib p =
      ([Clear_packet, Build_ipv6 0 (host32 b0 b1 (b2 AND 0xF) 0) len nh hl src dst 40 (ucast len), Write_packet], Inr ())"
    by (simp add: Output6Libnet_build_def c t f p ucast_up_down)
  ultimately show ?thesis by blast
qed

section \<open>The queue of an output\<close>

lemma libnet_out_init_ok:
  fixes s0 :: "'p libnet_out"
  assumes "s0 = snd (OutputLibnet_init (libnet_out_new ini))"
  shows "out_ok s0" and "out_live s0" and "out_held s0 = []"
proof -
  let ?s = "libnet_out_new ini :: 'p libnet_out"
  have n: "aq_ok (outQueue ?s)" "callback (outQueue ?s) = None" "outPosted ?s = []" "out_held ?s = []"
    by (simp_all add: libnet_out_new_def out_held_def) (simp_all add: AsyncQueue_def)
  have s0: "s0 = libnet_asyncPop ?s" by (simp add: assms OutputLibnet_init_def)
  show "out_ok s0" "out_live s0" "out_held s0 = []"
    unfolding s0 using libnet_asyncPop_ok [OF n(1-3)] n(4) by simp_all
qed

text \<open>
  C36. While libnet works, the libnet output sends every packet once, in order and unchanged, and
  keeps none back: what has not been sent is held, and the handler that sends the first one
  held is ready to run.
\<close>

theorem output_libnet_works:
  assumes "stage_run (out_step OutputLibnet_build False) (snd (OutputLibnet_init (libnet_out_new ini))) ins outs s"
  shows "ins = outs @ out_held s
    \<and> (\<forall>p ps. out_held s = p # ps \<and> snd (OutputLibnet_build (\<lambda>c. 0) p) = Inr () \<longrightarrow>
         (\<exists>s'. out_step OutputLibnet_build False s [] [p] s' \<and> out_held s' = ps))"
proof -
  note I = libnet_out_init_ok [OF refl]
  note W = libnet4.working_run [OF assms I(1,2)]
  from W have "ins = outs @ out_held s" by (simp add: I(3))
  moreover have "\<exists>s'. out_step OutputLibnet_build False s [] [p] s' \<and> out_held s' = ps"
    if "out_held s = p # ps" "snd (OutputLibnet_build (\<lambda>c. 0) p) = Inr ()" for p ps
    using libnet4.working_next [OF _ _ that] W by blast
  ultimately show ?thesis by blast
qed

text \<open>
  C37. One failed call of libnet stops the output for good: the handler returns without popping
  again, and from then on nothing is sent, whether or not libnet works again, while the
  packets that arrive pile up in the queue.
\<close>

theorem output_libnet_stalls:
  assumes "stage_run (out_step OutputLibnet_build True) (snd (OutputLibnet_init (libnet_out_new ini))) ins0 outs0 s1"
    and "outPosted s1 = [((), Ok, Some p)]" and "snd (OutputLibnet_build lib p) = Inl Returned"
    and "OutputLibnet_popHandler lib reinit Ok (Some p) (s1\<lparr>outPosted := []\<rparr>) = (calls, Inr s2)"
    and "stage_run (out_step OutputLibnet_build True) s2 ins outs s3"
  shows "outs = [] \<and> out_held s3 = out_held s2 @ ins"
proof -
  have ok: "out_ok s1" using libnet4.run_ok [OF assms(1)] libnet_out_init_ok(1) [OF refl] .
  have k: "0 < length (outPosted s1)" "outPosted s1 ! 0 = ((), Ok, Some p)" by (simp_all add: assms(2))
  have run: "libnet_popHandler (OutputLibnet_build lib) reinit Ok (Some p)
      (s1\<lparr>outPosted := drop_nth 0 (outPosted s1)\<rparr>) = (calls, Inr s2)"
    using assms(4) by (simp add: OutputLibnet_popHandler_def assms(2) drop_nth_def)
  have "out_ok s2 \<and> \<not> out_live s2"
    by (rule libnet4.pop_effect [OF ok k run]) (use assms(3) in auto)
  with libnet4.stalled_run [OF assms(5)] show ?thesis by blast
qed

section \<open>Concrete packets\<close>

definition example_udp :: packet where
  "example_udp = (example_packet True 0x0A000001 0x14000001 5000 53)
     \<lparr>packetData := ipv4_wire 5 0 36 7 0x4000 64 IPPROTO_UDP 0 0x0A000001 0x14000002
        ([] @ be16 5000 @ be16 53 @ be16 16 @ be16 0 @ [1, 2, 3, 4, 5, 6, 7, 8]),
      ipFrag := 0x4000\<rparr>"

lemma example_udp_fields:
  "packetData example_udp = ipv4_wire 5 0 36 7 0x4000 64 IPPROTO_UDP 0 0x0A000001 0x14000002
        ([] @ be16 5000 @ be16 53 @ be16 16 @ be16 0 @ [1, 2, 3, 4, 5, 6, 7, 8])"
  "ipFrag example_udp = 0x4000" "sport example_udp = 5000" "dport example_udp = 53"
  by (simp_all add: example_udp_def example_packet_def)

lemma output_libnet_udp_witness:
  "\<exists>id. OutputLibnet_build (\<lambda>c. 0) example_udp =
      ([Clear_packet, Build_udp 5000 53 16 0 (Some 28) 8, id, Write_packet], Inr ())
    \<and> take 8 (drop 28 (packetData example_udp)) = [1, 2, 3, 4, 5, 6, 7, 8]"
proof -
  have l: "length [1, 2, 3, 4, 5, 6, 7, 8 :: u8] = 8" by simp
  note U = output_libnet_udp [OF example_udp_fields(1) _ _ _ example_udp_fields(2), of "\<lambda>c. 0", unfolded l]
  show ?thesis using U by (simp add: example_udp_fields)
qed

lemma output_libnet_tcp_witness:
  "\<exists>p id. packetData p = ipv4_wire 5 0 45 7 0x4000 64 IPPROTO_TCP 0 1 2
      ([] @ be16 5000 @ be16 80 @ be32 11 @ be32 12 @ [push_bit 4 6, 0x18] @ be16 500 @ be16 0 @ be16 0
        @ [1, 1, 1, 0] @ [65])
    \<and> OutputLibnet_build (\<lambda>c. 0) p =
      ([Clear_packet, Build_tcp_options 40 4, Build_tcp (sport p) (dport p) 11 12 0x18 500 0 0 45 (Some 44) 1,
        id, Write_packet], Inr ())"
proof -
  define p where "p = (example_packet True 1 2 5000 80)
    \<lparr>packetData := ipv4_wire 5 0 45 7 0x4000 64 IPPROTO_TCP 0 1 2
      ([] @ be16 5000 @ be16 80 @ be32 11 @ be32 12 @ [push_bit 4 6, 0x18] @ be16 500 @ be16 0 @ be16 0
        @ [1, 1, 1, 0] @ [65]), ipFrag := 0x4000\<rparr>"
  have d: "packetData p = ipv4_wire 5 0 45 7 0x4000 64 IPPROTO_TCP 0 1 2
      ([] @ be16 5000 @ be16 80 @ be32 11 @ be32 12 @ [push_bit 4 6, 0x18] @ be16 500 @ be16 0 @ be16 0
        @ [1, 1, 1, 0] @ [65])" and f: "ipFrag p = 0x4000"
    by (simp_all add: p_def)
  from output_libnet_tcp [OF d _ _ _ _ f, of "\<lambda>c. 0"]
  have "\<exists>id. OutputLibnet_build (\<lambda>c. 0) p =
      ([Clear_packet, Build_tcp_options 40 4, Build_tcp (sport p) (dport p) 11 12 0x18 500 0 0 45 (Some 44) 1,
        id, Write_packet], Inr ())" by simp
  with d show ?thesis by blast
qed

lemma output6_header_witness:
  "\<exists>p label. Packet6_new 0 \<lparr>packet_id = 1, payload = Some ([0x60, 0, 0, 0] @ be16 8 @ [59, 64]
        @ replicate 16 1 @ replicate 16 2 @ replicate 8 0), indev = None, outdev = None\<rparr> undefined = Inr p
    \<and> Output6Libnet_build (\<lambda>c. 0) p = ([Clear_packet,
        Build_ipv6 0 label 8 59 64 (replicate 16 1) (replicate 16 2) 40 8, Write_packet], Inr ())
    \<and> label AND 0xF0 = 0x60"
proof -
  let ?nfa = "\<lparr>packet_id = 1, payload = Some ([0x60, 0, 0, 0] @ be16 8 @ [59, 64]
        @ replicate 16 1 @ replicate 16 2 @ replicate 8 0), indev = None, outdev = None\<rparr>"
  obtain p where p: "Packet6_new 0 ?nfa undefined = Inr p"
    by (auto simp: Packet6_new_def load32_def load16_def load8_def load_in6_def be16_def Let_def
        decodeTransportProtocol_def ipproto_defs ntohs_be16)
  have "payload ?nfa = Some ([0x60, 0, 0, 0] @ be16 8 @ [59, 64] @ replicate 16 1 @ replicate 16 2 @ replicate 8 0)"
    by simp
  from output6_header [OF this _ _ p, of "\<lambda>c. 0"] p show ?thesis by auto
qed

lemma example_output:
  defines "s \<equiv> \<lparr>outQueue = \<lparr>theQueue = [], callback = None, stopped = False, niceStopped = False\<rparr>,
      outPosted = [((), Ok, Some example_udp)], libnet = True\<rparr>"
  shows "stage_run (out_step OutputLibnet_build fails) (snd (OutputLibnet_init (libnet_out_new True))) [example_udp] [] s"
    and "outPosted s = [((), Ok, Some example_udp)]" and "out_held s = [example_udp]"
proof -
  have "OutputLibnet_handlePacket example_udp (snd (OutputLibnet_init (libnet_out_new True))) = s"
    by (simp add: s_def OutputLibnet_handlePacket_def OutputLibnet_init_def libnet_asyncPop_def libnet_out_new_def
        AsyncQueue_def aq_defs)
  with stage_run_one [where step = "out_step OutputLibnet_build fails", OF out_step.arrive]
  show "stage_run (out_step OutputLibnet_build fails) (snd (OutputLibnet_init (libnet_out_new True))) [example_udp] [] s"
    by metis
  show "outPosted s = [((), Ok, Some example_udp)]" "out_held s = [example_udp]"
    by (simp_all add: s_def out_held_def)
qed

lemma output_libnet_works_witness:
  "\<exists>s s'. out_held s = [example_udp] \<and> out_step OutputLibnet_build False s [] [example_udp] s' \<and> out_held s' = []"
proof -
  obtain s where s: "stage_run (out_step OutputLibnet_build False) (snd (OutputLibnet_init (libnet_out_new True)))
      [example_udp] [] s" "out_held s = [example_udp]" using example_output by blast
  have "snd (OutputLibnet_build (\<lambda>c. 0) example_udp) = Inr ()"
    by (simp add: OutputLibnet_build_def example_udp_fields ipv4_wire_def load8_def load16_def be16_def be32_def
        Let_def ihl_bytes_def ipproto_defs build_udp_def lcall_def)
  with conjunct2 [OF output_libnet_works [OF s(1)]] s(2) show ?thesis by blast
qed

text \<open>The write fails once.\<close>

lemma output_libnet_stalls_witness:
  "\<exists>s1 s2 s3. outPosted s1 = [((), Ok, Some example_udp)]
     \<and> OutputLibnet_popHandler (\<lambda>c. if c = Write_packet then -1 else 0) True Ok (Some example_udp) (s1\<lparr>outPosted := []\<rparr>)
       = (fst (OutputLibnet_build (\<lambda>c. if c = Write_packet then -1 else 0) example_udp), Inr s2)
     \<and> stage_run (out_step OutputLibnet_build True) s2 [example_udp] [] s3
     \<and> out_held s3 = out_held s2 @ [example_udp]"
proof -
  let ?lib = "\<lambda>c. if c = Write_packet then - 1 else 0 :: int"
  obtain s1 where s1: "stage_run (out_step OutputLibnet_build True) (snd (OutputLibnet_init (libnet_out_new True)))
      [example_udp] [] s1" "outPosted s1 = [((), Ok, Some example_udp)]" using example_output by blast
  have b: "snd (OutputLibnet_build ?lib example_udp) = Inl Returned"
    by (simp add: OutputLibnet_build_def example_udp_fields ipv4_wire_def load8_def load16_def be16_def be32_def
        Let_def ihl_bytes_def ipproto_defs build_udp_def lcall_def)
  then obtain s2 where s2: "OutputLibnet_popHandler ?lib True Ok (Some example_udp) (s1\<lparr>outPosted := []\<rparr>)
      = (fst (OutputLibnet_build ?lib example_udp), Inr s2)"
    by (simp add: OutputLibnet_popHandler_def libnet_popHandler_def)
  have r: "stage_run (out_step OutputLibnet_build True) s2 [example_udp] [] (OutputLibnet_handlePacket example_udp s2)"
    by (rule stage_run_one [where step = "out_step OutputLibnet_build True", OF out_step.arrive])
  from output_libnet_stalls [OF s1 b s2 r] s1(2) s2 r show ?thesis by blast
qed

end
