(* ===== verification/Std_Map.thy ===== *)
theory Std_Map
  imports Prelude
begin

text \<open>
  \<open>std::map\<close> as the address translation uses it: a list of entries kept in the order of
  the key type's \<open>operator<\<close>. Two keys are the same key of the map when neither is less
  than the other, which for the connection tuples is not always equality. The operations are
  \<open>find\<close>, \<open>operator[] =\<close> and \<open>erase\<close>. What \<open>std::map\<close> requires of the comparison is the
  locale \<open>strict_weak_order\<close>; the laws of the operations are proved in it.
\<close>

type_synonym ('k, 'v) smap = "('k \<times> 'v) list"

section \<open>Operations\<close>

definition equiv_key :: "('k \<Rightarrow> 'k \<Rightarrow> bool) \<Rightarrow> 'k \<Rightarrow> 'k \<Rightarrow> bool" where
  "equiv_key lt a b \<longleftrightarrow> \<not> lt a b \<and> \<not> lt b a"

fun smap_find :: "('k \<Rightarrow> 'k \<Rightarrow> bool) \<Rightarrow> ('k, 'v) smap \<Rightarrow> 'k \<Rightarrow> 'v option" where
  "smap_find lt [] k = None"
| "smap_find lt ((k', v) # m) k = (if equiv_key lt k k' then Some v else smap_find lt m k)"

text \<open>\<open>m[k] = v\<close>: an equivalent key that is already there stays as it is.\<close>

fun smap_insert :: "('k \<Rightarrow> 'k \<Rightarrow> bool) \<Rightarrow> 'k \<Rightarrow> 'v \<Rightarrow> ('k, 'v) smap \<Rightarrow> ('k, 'v) smap" where
  "smap_insert lt k v [] = [(k, v)]"
| "smap_insert lt k v ((k', v') # m) =
     (if lt k k' then (k, v) # (k', v') # m
      else if lt k' k then (k', v') # smap_insert lt k v m
      else (k', v) # m)"

fun smap_erase :: "('k \<Rightarrow> 'k \<Rightarrow> bool) \<Rightarrow> 'k \<Rightarrow> ('k, 'v) smap \<Rightarrow> ('k, 'v) smap" where
  "smap_erase lt k [] = []"
| "smap_erase lt k ((k', v) # m) =
     (if equiv_key lt k k' then smap_erase lt k m else (k', v) # smap_erase lt k m)"

definition smap_sorted :: "('k \<Rightarrow> 'k \<Rightarrow> bool) \<Rightarrow> ('k, 'v) smap \<Rightarrow> bool" where
  "smap_sorted lt m \<longleftrightarrow> sorted_wrt lt (map fst m)"

section \<open>The requirements of the key comparison\<close>

locale strict_weak_order =
  fixes lt :: "'k \<Rightarrow> 'k \<Rightarrow> bool"
  assumes irrefl: "\<not> lt a a"
    and trans: "lt a b \<Longrightarrow> lt b c \<Longrightarrow> lt a c"
    and incomparable_trans: "equiv_key lt a b \<Longrightarrow> equiv_key lt b c \<Longrightarrow> equiv_key lt a c"
begin

lemma asym: "lt a b \<Longrightarrow> \<not> lt b a"
  using irrefl trans by blast

lemma equiv_refl [simp]: "equiv_key lt a a"
  by (simp add: equiv_key_def irrefl)

lemma equiv_sym: "equiv_key lt a b \<longleftrightarrow> equiv_key lt b a"
  by (auto simp: equiv_key_def)

lemma equiv_iff: "equiv_key lt a b \<Longrightarrow> equiv_key lt a c \<longleftrightarrow> equiv_key lt b c"
  using incomparable_trans equiv_sym by blast

lemma lt_not_equiv: "lt a b \<Longrightarrow> \<not> equiv_key lt a b" "lt b a \<Longrightarrow> \<not> equiv_key lt a b"
  by (simp_all add: equiv_key_def)

lemma equiv_lt: "equiv_key lt a b \<Longrightarrow> lt a c \<longleftrightarrow> lt b c"
  by (metis equiv_key_def incomparable_trans trans)

lemma equiv_lt2: "equiv_key lt a b \<Longrightarrow> lt c a \<longleftrightarrow> lt c b"
  by (metis equiv_key_def incomparable_trans trans)

lemma equiv_not_lt: "equiv_key lt q a \<Longrightarrow> equiv_key lt q b \<Longrightarrow> \<not> lt a b"
  using equiv_lt2 by (metis equiv_key_def)

lemma find_insert:
  "smap_find lt (smap_insert lt k v m) q = (if equiv_key lt q k then Some v else smap_find lt m q)"
proof (induction m)
  case Nil
  then show ?case by simp
next
  case (Cons e m)
  obtain k' v' where e: "e = (k', v')" by (cases e)
  consider (less) "lt k k'" | (greater) "\<not> lt k k'" "lt k' k" | (same) "\<not> lt k k'" "\<not> lt k' k"
    by blast
  then show ?case
  proof cases
    case less
    then show ?thesis by (simp add: e)
  next
    case greater
    then have "equiv_key lt q k' \<Longrightarrow> \<not> equiv_key lt q k" using equiv_not_lt by blast
    then show ?thesis using greater Cons.IH by (simp add: e)
  next
    case same
    then have "equiv_key lt q k' \<longleftrightarrow> equiv_key lt q k"
      using equiv_iff equiv_sym equiv_key_def by metis
    then show ?thesis using same by (simp add: e)
  qed
qed

lemma find_erase:
  "smap_find lt (smap_erase lt k m) q = (if equiv_key lt q k then None else smap_find lt m q)"
proof (induction m)
  case (Cons e m)
  obtain k' v' where e: "e = (k', v')" by (cases e)
  have "equiv_key lt k k' \<Longrightarrow> equiv_key lt q k' \<longleftrightarrow> equiv_key lt q k"
    using equiv_iff equiv_sym by blast
  moreover have "\<not> equiv_key lt k k' \<Longrightarrow> equiv_key lt q k' \<Longrightarrow> \<not> equiv_key lt q k"
    using equiv_iff equiv_sym by blast
  ultimately show ?case using Cons.IH by (auto simp: e)
qed simp

lemma find_cong: "equiv_key lt a b \<Longrightarrow> smap_find lt m a = smap_find lt m b"
  by (induction m) (auto dest: equiv_iff)

lemma keys_insert: "set (map fst (smap_insert lt k v m)) \<subseteq> insert k (set (map fst m))"
  by (induction m) (simp, simp only: set_map, force split: if_splits)

lemma sorted_insert:
  assumes "smap_sorted lt m"
  shows "smap_sorted lt (smap_insert lt k v m)"
  using assms
proof (induction m)
  case Nil
  then show ?case by (simp add: smap_sorted_def)
next
  case (Cons e m)
  obtain k' v' where e: "e = (k', v')" by (cases e)
  from Cons.prems have s: "smap_sorted lt m" and l: "\<forall>x\<in>set (map fst m). lt k' x"
    by (auto simp: smap_sorted_def e)
  have ins: "\<forall>x\<in>set (map fst (smap_insert lt k v m)). lt k' x" if "lt k' k"
    using keys_insert [of k v m] l that by blast
  consider (less) "lt k k'" | (greater) "\<not> lt k k'" "lt k' k" | (same) "\<not> lt k k'" "\<not> lt k' k"
    by blast
  then show ?case
  proof cases
    case less
    then have "\<forall>x\<in>set (map fst m). lt k x" using l trans by blast
    then show ?thesis using less Cons.prems by (simp add: smap_sorted_def e)
  next
    case greater
    then show ?thesis using ins Cons.IH [OF s] by (simp add: smap_sorted_def e)
  next
    case same
    then show ?thesis using Cons.prems by (simp add: smap_sorted_def e)
  qed
qed

lemma entries_erase: "set (smap_erase lt k m) \<subseteq> set m"
  by (induction m) (auto split: if_splits)

lemma sorted_erase: "smap_sorted lt m \<Longrightarrow> smap_sorted lt (smap_erase lt k m)"
proof (induction m)
  case (Cons e m)
  have "\<forall>x\<in>set m. P (fst x) \<Longrightarrow> \<forall>x\<in>set (smap_erase lt k m). P (fst x)" for P
    using entries_erase [of k m] by blast
  with Cons show ?case by (cases e) (auto simp: smap_sorted_def)
qed (simp add: smap_sorted_def)

text \<open>In a sorted map a key occurs at most once, so the entries are the map's graph.\<close>

lemma find_sorted:
  assumes "smap_sorted lt m" and "(k, v) \<in> set m"
  shows "smap_find lt m k = Some v"
  using assms
proof (induction m)
  case (Cons e m)
  then show ?case
    by (cases e) (auto simp: smap_sorted_def rev_image_eqI dest!: bspec lt_not_equiv)
qed simp

lemma find_SomeD: "smap_find lt m k = Some v \<Longrightarrow> \<exists>k'. equiv_key lt k k' \<and> (k', v) \<in> set m"
  by (induction m) (auto split: if_splits)

end

section \<open>Total orders\<close>

text \<open>
  The built-in \<open><\<close> of a total order is such a comparison, and then the same key means the
  equal key: the maps over port numbers are of this kind.
\<close>

interpretation linear: strict_weak_order "(<) :: 'a::linorder \<Rightarrow> 'a \<Rightarrow> bool"
  by unfold_locales (auto simp: equiv_key_def)

lemma equiv_key_linorder [simp]: "equiv_key (<) a b \<longleftrightarrow> a = (b :: 'a::linorder)"
  by (auto simp: equiv_key_def)

lemma linear_find_insert [simp]:
  "smap_find (<) (smap_insert (<) k v m) q = (if q = k then Some v else smap_find (<) m q)"
  for k :: "'a::linorder"
  using linear.find_insert [of k v m q] by simp

lemma linear_find_erase [simp]:
  "smap_find (<) (smap_erase (<) k m) q = (if q = k then None else smap_find (<) m q)"
  for k :: "'a::linorder"
  using linear.find_erase [of k m q] by simp

end
