(* ===== verification/Connection_Tuple.thy ===== *)
theory Connection_Tuple
  imports Std_Map Packets "HOL-Library.Product_Lexorder"
begin

text \<open>
  The connection keys of connection\_tuple.hpp: \<open>ConnectionTuple\<close> with its six comparison
  operators, and the comparisons of \<open>SymNatTuple\<close> and \<open>AddrrTuple\<close>, which leave one field
  out. An object of a derived class has the base class's fields only, so all three are the
  same data with different operators. The theory shows that the three \<open>operator<\<close> are what
  \<open>std::map\<close> requires, and which tuples are then the same key.
\<close>

datatype connection_tuple =
  ConnectionTuple (getSrcIP: u32) (getDstIP: u32) (getSport: u16) (getDport: u16) (getProto: u8)

definition tuple_of :: "packet \<Rightarrow> connection_tuple" where
  "tuple_of pkt = ConnectionTuple (srcIp pkt) (dstIp pkt) (sport pkt) (dport pkt) (transProt pkt)"

section \<open>Operators\<close>

definition tie5 :: "connection_tuple \<Rightarrow> u32 \<times> u32 \<times> u16 \<times> u16 \<times> u8" where
  "tie5 t = (getSrcIP t, getDstIP t, getSport t, getDport t, getProto t)"

definition ct_eq :: "connection_tuple \<Rightarrow> connection_tuple \<Rightarrow> bool" where
  "ct_eq a b \<longleftrightarrow> tie5 a = tie5 b"

definition ct_less :: "connection_tuple \<Rightarrow> connection_tuple \<Rightarrow> bool" where
  "ct_less a b \<longleftrightarrow> tie5 a < tie5 b"

definition ct_neq :: "connection_tuple \<Rightarrow> connection_tuple \<Rightarrow> bool" where
  "ct_neq a b \<longleftrightarrow> \<not> ct_eq a b"

definition ct_greater :: "connection_tuple \<Rightarrow> connection_tuple \<Rightarrow> bool" where
  "ct_greater a b \<longleftrightarrow> ct_less a b"

definition ct_le :: "connection_tuple \<Rightarrow> connection_tuple \<Rightarrow> bool" where
  "ct_le a b \<longleftrightarrow> \<not> ct_greater a b"

definition ct_ge :: "connection_tuple \<Rightarrow> connection_tuple \<Rightarrow> bool" where
  "ct_ge a b \<longleftrightarrow> \<not> ct_less a b"

text \<open>\<open>SymNatTuple\<close> leaves out the destination address.\<close>

definition tie_sym :: "connection_tuple \<Rightarrow> u32 \<times> u16 \<times> u16 \<times> u8" where
  "tie_sym t = (getSrcIP t, getSport t, getDport t, getProto t)"

definition sym_eq :: "connection_tuple \<Rightarrow> connection_tuple \<Rightarrow> bool" where
  "sym_eq a b \<longleftrightarrow> tie_sym a = tie_sym b"

definition sym_less :: "connection_tuple \<Rightarrow> connection_tuple \<Rightarrow> bool" where
  "sym_less a b \<longleftrightarrow> tie_sym a < tie_sym b"

text \<open>\<open>AddrrTuple\<close> leaves out the source port.\<close>

definition tie_addrr :: "connection_tuple \<Rightarrow> u32 \<times> u32 \<times> u16 \<times> u8" where
  "tie_addrr t = (getSrcIP t, getDstIP t, getDport t, getProto t)"

definition addrr_eq :: "connection_tuple \<Rightarrow> connection_tuple \<Rightarrow> bool" where
  "addrr_eq a b \<longleftrightarrow> tie_addrr a = tie_addrr b"

definition addrr_less :: "connection_tuple \<Rightarrow> connection_tuple \<Rightarrow> bool" where
  "addrr_less a b \<longleftrightarrow> tie_addrr a < tie_addrr b"

section \<open>The comparisons as map orders\<close>

lemma tie5_inj: "tie5 a = tie5 b \<longleftrightarrow> a = b"
  by (cases a; cases b) (auto simp: tie5_def)

text \<open>Comparing by a key in a total order is a strict weak order.\<close>

lemma strict_weak_order_key:
  "strict_weak_order (\<lambda>a b. f a < (f b :: 'b::linorder))"
  by unfold_locales (auto simp: equiv_key_def)

lemma equiv_key_key: "equiv_key (\<lambda>a b. f a < (f b :: 'b::linorder)) a b \<longleftrightarrow> f a = f b"
  by (auto simp: equiv_key_def)

lemma less_eta:
  "ct_less = (\<lambda>a b. tie5 a < tie5 b)" "sym_less = (\<lambda>a b. tie_sym a < tie_sym b)"
  "addrr_less = (\<lambda>a b. tie_addrr a < tie_addrr b)"
  by (auto simp: fun_eq_iff ct_less_def sym_less_def addrr_less_def)

interpretation ct_order: strict_weak_order ct_less
  unfolding less_eta by (rule strict_weak_order_key)

interpretation sym_order: strict_weak_order sym_less
  unfolding less_eta by (rule strict_weak_order_key)

interpretation addrr_order: strict_weak_order addrr_less
  unfolding less_eta by (rule strict_weak_order_key)

lemma equiv_ct_less [simp]: "equiv_key ct_less a b \<longleftrightarrow> a = b"
  unfolding less_eta equiv_key_key by (rule tie5_inj)

lemma equiv_sym_less: "equiv_key sym_less a b \<longleftrightarrow> sym_eq a b"
  unfolding less_eta equiv_key_key sym_eq_def ..

lemma equiv_addrr_less: "equiv_key addrr_less a b \<longleftrightarrow> addrr_eq a b"
  unfolding less_eta equiv_key_key addrr_eq_def ..

lemma ct_find_insert [simp]:
  "smap_find ct_less (smap_insert ct_less k v m) q = (if q = k then Some v else smap_find ct_less m q)"
  using ct_order.find_insert [of k v m q] by simp

lemma ct_find_erase [simp]:
  "smap_find ct_less (smap_erase ct_less k m) q = (if q = k then None else smap_find ct_less m q)"
  using ct_order.find_erase [of k m q] by simp

section \<open>The order as a class instance\<close>

instantiation connection_tuple :: linorder
begin

definition less_connection_tuple :: "connection_tuple \<Rightarrow> connection_tuple \<Rightarrow> bool" where
  "less_connection_tuple = ct_less"

definition less_eq_connection_tuple :: "connection_tuple \<Rightarrow> connection_tuple \<Rightarrow> bool" where
  "less_eq_connection_tuple a b \<longleftrightarrow> tie5 a \<le> tie5 b"

instance
  by standard
    (auto simp: less_connection_tuple_def less_eq_connection_tuple_def ct_less_def
      simp flip: tie5_inj)

end

text \<open>
  \<open>operator>\<close> is written with the operands of \<open>operator<\<close>, so it and \<open>operator<=\<close> are the
  reverse of what their names say; \<open>operator>=\<close> is right.
\<close>

lemma ct_operators:
  "ct_less a b \<longleftrightarrow> a < b" "ct_ge a b \<longleftrightarrow> b \<le> a" "ct_eq a b \<longleftrightarrow> a = b" "ct_neq a b \<longleftrightarrow> a \<noteq> b"
  by (auto simp: ct_ge_def ct_eq_def ct_neq_def less_connection_tuple_def tie5_inj
      ct_less_def less_eq_connection_tuple_def)

lemma ct_reversed_operators: "ct_greater a b \<longleftrightarrow> a < b" "ct_le a b \<longleftrightarrow> b \<le> a"
  using ct_operators [of a b] by (auto simp: ct_greater_def ct_le_def ct_ge_def)

end
