(* ===== verification/Connection_Entry.thy ===== *)
theory Connection_Entry
  imports Connection_Tuple
begin

text \<open>
  \<open>ConnectionEntry\<close> (connection\_entry.hpp): a connection that keeps itself alive. The maps
  of the address translation hold weak pointers; the only lasting strong pointer is the one
  captured by the handler of the entry's timer. When the timer expires its handler returns,
  the last strong pointer goes, from then on \<open>lock()\<close> gives nothing, and the deleter that
  the creator passed runs, which removes the keys from the creator's maps under its mutex.
  A store has the entries that are alive by their address, and the entries whose deleter has
  still to run: that is a step of its own, and other threads may run before it.
\<close>

record conn_entry =
  timeout :: int
  extTuple :: connection_tuple
  intTuple :: connection_tuple
  timer :: "int option" \<comment> \<open>expiry of the pending wait, in microseconds\<close>

text \<open>The constructor's \<open>int timeout\<close> is initialised from a \<open>uint32_t\<close>.\<close>

definition ConnectionEntry_new :: "u32 \<Rightarrow> connection_tuple \<Rightarrow> connection_tuple \<Rightarrow> conn_entry" where
  "ConnectionEntry_new to extTup intTup =
     \<lparr>timeout = sint to, extTuple = extTup, intTuple = intTup, timer = None\<rparr>"

definition armTimer :: "int \<Rightarrow> conn_entry \<Rightarrow> conn_entry" where
  "armTimer now e = e\<lparr>timer := Some (now + timeout e * 1000000)\<rparr>"

definition stop :: "conn_entry \<Rightarrow> conn_entry" where
  "stop e = e\<lparr>timer := None\<rparr>"

definition start :: "int \<Rightarrow> conn_entry \<Rightarrow> conn_entry" where
  "start now e = armTimer now e"

definition rearm :: "int \<Rightarrow> conn_entry \<Rightarrow> conn_entry" where
  "rearm now e = armTimer now (stop e)"

section \<open>The store of entries\<close>

record entry_store =
  live :: "nat \<rightharpoonup> conn_entry"
  dying :: "(nat \<times> conn_entry) list"
  next_entry :: nat

definition empty_store :: entry_store where
  "empty_store = \<lparr>live = Map.empty, dying = [], next_entry = 0\<rparr>"

definition store_add :: "conn_entry \<Rightarrow> entry_store \<Rightarrow> nat \<times> entry_store" where
  "store_add e st =
     (next_entry st, st\<lparr>live := (live st)(next_entry st \<mapsto> e), next_entry := Suc (next_entry st)\<rparr>)"

text \<open>\<open>weak_ptr::lock\<close>\<close>

definition lock :: "entry_store \<Rightarrow> nat \<Rightarrow> conn_entry option" where
  "lock st i = live st i"

definition store_rearm :: "int \<Rightarrow> nat \<Rightarrow> entry_store \<Rightarrow> entry_store" where
  "store_rearm now i st =
     (case live st i of None \<Rightarrow> st | Some e \<Rightarrow> st\<lparr>live := (live st)(i \<mapsto> rearm now e)\<rparr>)"

text \<open>The timer of an entry runs out: the entry is dead, its deleter is due.\<close>

definition store_expire :: "int \<Rightarrow> nat \<Rightarrow> entry_store \<Rightarrow> entry_store option" where
  "store_expire now i st =
     (case live st i of
        None \<Rightarrow> None
      | Some e \<Rightarrow>
          (case timer e of
             None \<Rightarrow> None
           | Some t \<Rightarrow>
               if t \<le> now
               then Some (st\<lparr>live := (live st)(i := None), dying := dying st @ [(i, e)]\<rparr>)
               else None))"

text \<open>The deleter of the \<open>k\<close>-th dying entry is about to run: the entry and the store without it.\<close>

definition store_reap :: "nat \<Rightarrow> entry_store \<Rightarrow> ((nat \<times> conn_entry) \<times> entry_store) option" where
  "store_reap k st =
     (if k < length (dying st)
      then Some (dying st ! k, st\<lparr>dying := take k (dying st) @ drop (Suc k) (dying st)\<rparr>)
      else None)"

lemmas store_defs = store_add_def lock_def store_rearm_def store_expire_def store_reap_def

section \<open>Well-formed stores\<close>

definition store_ok :: "entry_store \<Rightarrow> bool" where
  "store_ok st \<longleftrightarrow> (\<forall>i e. live st i = Some e \<longrightarrow> i < next_entry st \<and> timer e \<noteq> None)
     \<and> (\<forall>(i, e) \<in> set (dying st). i < next_entry st \<and> live st i = None)
     \<and> distinct (map fst (dying st))"

lemma entry_tuples [simp]:
  "extTuple (ConnectionEntry_new to x y) = x" "intTuple (ConnectionEntry_new to x y) = y"
  "timeout (ConnectionEntry_new to x y) = sint to"
  "extTuple (start now e) = extTuple e" "intTuple (start now e) = intTuple e"
  "timer (start now e) = Some (now + timeout e * 1000000)"
  "extTuple (rearm now e) = extTuple e" "intTuple (rearm now e) = intTuple e"
  "timeout (rearm now e) = timeout e" "timeout (start now e) = timeout e"
  "timer (rearm now e) = Some (now + timeout e * 1000000)"
  by (simp_all add: ConnectionEntry_new_def start_def rearm_def stop_def armTimer_def)

lemma store_ok_empty [simp]: "store_ok empty_store"
  by (simp add: store_ok_def empty_store_def)

lemma store_ok_add: "store_ok st \<Longrightarrow> timer e \<noteq> None \<Longrightarrow> store_ok (snd (store_add e st))"
  by (fastforce simp: store_ok_def store_add_def)

lemma store_ok_rearm: "store_ok st \<Longrightarrow> store_ok (store_rearm now i st)"
  by (fastforce simp: store_ok_def store_rearm_def split: option.splits)

lemma store_ok_expire: "store_ok st \<Longrightarrow> store_expire now i st = Some st' \<Longrightarrow> store_ok st'"
  by (fastforce simp: store_ok_def store_expire_def split: option.splits if_splits)

lemma set_reap: "set (take k xs @ drop (Suc k) xs) \<subseteq> set xs"
  by (auto dest: in_set_takeD in_set_dropD)

lemma distinct_reap:
  assumes "distinct (map f xs)"
  shows "distinct (map f (take k xs @ drop (Suc k) xs))"
proof (cases "k < length xs")
  case True
  from assms have "distinct (map f (take k xs @ xs ! k # drop (Suc k) xs))"
    using id_take_nth_drop [OF True] by simp
  then show ?thesis by auto
qed (use assms in simp)

lemma reap_not_in:
  assumes "distinct (map fst xs)" and "k < length xs" and "xs ! k = (i, e)"
  shows "(i, e') \<notin> set (take k xs @ drop (Suc k) xs)"
proof -
  from assms have "distinct (map fst (take k xs @ (i, e) # drop (Suc k) xs))"
    using id_take_nth_drop [OF assms(2)] by simp
  then show ?thesis by (force simp: image_iff)
qed

lemma store_ok_reap:
  assumes "store_ok st" and "store_reap k st = Some (ie, st')"
  shows "store_ok st'"
  using assms distinct_reap [of fst "dying st" k] set_reap [of k "dying st"]
  by (fastforce simp: store_ok_def store_reap_def split: if_splits)

lemma store_expireD:
  "store_expire now i st = Some st' \<Longrightarrow> \<exists>e t. live st i = Some e \<and> timer e = Some t \<and> t \<le> now
     \<and> st' = st\<lparr>live := (live st)(i := None), dying := dying st @ [(i, e)]\<rparr>"
  by (auto simp: store_expire_def split: option.splits if_splits)

lemma store_reapD:
  "store_reap k st = Some ((i, e), st') \<Longrightarrow> k < length (dying st) \<and> dying st ! k = (i, e)
     \<and> (i, e) \<in> set (dying st)
     \<and> st' = st\<lparr>dying := take k (dying st) @ drop (Suc k) (dying st)\<rparr>"
  by (auto simp: store_reap_def split: if_splits) (metis nth_mem)

text \<open>The entries that are alive or whose deleter has not run yet.\<close>

definition present :: "entry_store \<Rightarrow> nat \<Rightarrow> conn_entry \<Rightarrow> bool" where
  "present st i e \<longleftrightarrow> live st i = Some e \<or> (i, e) \<in> set (dying st)"

lemma present_lt: "store_ok st \<Longrightarrow> present st i e \<Longrightarrow> i < next_entry st"
  by (auto simp: store_ok_def present_def)

lemma present_unique:
  assumes "store_ok st" and "present st i e" and "present st i f"
  shows "e = f"
proof -
  have "(i, e) \<in> set (dying st) \<Longrightarrow> (i, f) \<in> set (dying st) \<Longrightarrow> e = f"
    using assms(1) by (auto simp: store_ok_def dest: eq_key_imp_eq_value)
  then show ?thesis using assms by (auto simp: present_def store_ok_def)
qed

lemma store_add_frame [simp]:
  "next_entry (snd (store_add e st)) = Suc (next_entry st)" "fst (store_add e st) = next_entry st"
  by (simp_all add: store_add_def)

lemma live_add: "live (snd (store_add e st)) j = (if j = next_entry st then Some e else live st j)"
  by (simp add: store_add_def)

lemma dying_add [simp]: "dying (snd (store_add e st)) = dying st"
  by (simp add: store_add_def)

lemma present_add:
  "store_ok st \<Longrightarrow> present (snd (store_add e st)) i e' \<longleftrightarrow>
     (if i = next_entry st then e' = e else present st i e')"
  by (fastforce simp: present_def store_add_def store_ok_def)

lemma present_expire:
  "store_ok st \<Longrightarrow> store_expire now i st = Some st' \<Longrightarrow> present st' j e \<longleftrightarrow> present st j e"
  by (drule store_expireD) (auto simp: present_def split: if_splits)

lemma present_reap:
  assumes "store_ok st" and "store_reap k st = Some ((i, e), st')"
  shows "present st' j e' \<longleftrightarrow> present st j e' \<and> j \<noteq> i"
proof -
  from store_reapD [OF assms(2)] have k: "k < length (dying st)" and ki: "dying st ! k = (i, e)"
    and mem: "(i, e) \<in> set (dying st)"
    and st': "st' = st\<lparr>dying := take k (dying st) @ drop (Suc k) (dying st)\<rparr>"
    by auto
  from assms(1) have d: "distinct (map fst (dying st))" and i: "live st i = None"
    using mem by (auto simp: store_ok_def)
  have split: "dying st = take k (dying st) @ (i, e) # drop (Suc k) (dying st)"
    using id_take_nth_drop [OF k] ki by simp
  have "j \<noteq> i \<Longrightarrow> (j, e') \<in> set (dying st) \<longleftrightarrow> (j, e') \<in> set (take k (dying st) @ drop (Suc k) (dying st))"
    by (subst split) auto
  moreover have "(i, e') \<notin> set (take k (dying st) @ drop (Suc k) (dying st))"
    using reap_not_in [OF d k ki] .
  ultimately show ?thesis using i by (auto simp: present_def st' simp del: set_append)
qed

text \<open>Arming a timer again changes neither of an entry's tuples.\<close>

lemma live_rearm:
  "live (store_rearm now i st) j = (if j = i then map_option (rearm now) (live st i) else live st j)"
  by (auto simp: store_rearm_def split: option.splits)

lemma rearm_frame [simp]:
  "dying (store_rearm now i st) = dying st" "next_entry (store_rearm now i st) = next_entry st"
  by (auto simp: store_rearm_def split: option.splits)

lemma present_rearm:
  "present (store_rearm now i st) j e \<Longrightarrow>
     \<exists>e'. present st j e' \<and> extTuple e = extTuple e' \<and> intTuple e = intTuple e'"
  by (auto simp: present_def live_rearm split: if_splits)

lemma rearm_present:
  "present st j e \<Longrightarrow>
     \<exists>e'. present (store_rearm now i st) j e' \<and> extTuple e' = extTuple e \<and> intTuple e' = intTuple e"
  by (cases "live st j") (auto simp: present_def live_rearm)

end
