(* ===== verification/Nat_Mapper.thy ===== *)
theory Nat_Mapper
  imports Connection_Entry
begin

text \<open>
  The address mappers of nat\_mapper.hpp and nat\_mapper.cpp: \<open>NatMapperBase\<close> with the port
  forwarding rules, \<open>NatMapper\<close>, which keeps the port number, and \<open>SymNatMapper\<close>, which
  gives every connection a port of its own. \<open>mapPacket\<close> returns the verdict, the rewritten
  packet and the new state; \<open>now\<close> is the time at which it arms timers. A mapper step is one
  call of \<open>mapPacket\<close>, the expiry of one entry, or the run of one deleter, in any order.
\<close>

section \<open>NatMapperBase\<close>

record nat_mapper_base =
  ipInt :: u32
  ipExt :: u32
  connectionTimeout :: u32
  dnatRules :: "(u16, connection_tuple) smap"

definition setDnatRules ::
  "(u16, connection_tuple) smap \<Rightarrow> 'a nat_mapper_base_scheme \<Rightarrow> 'a nat_mapper_base_scheme" where
  "setDnatRules rules m = m\<lparr>dnatRules := rules\<rparr>"

text \<open>The loop of \<open>removeDnatRule\<close>: erase the first entry with the port and return.\<close>

fun erase_first :: "u16 \<Rightarrow> (u16, 'v) smap \<Rightarrow> (u16, 'v) smap" where
  "erase_first extPort [] = []"
| "erase_first extPort ((k, v) # rules) =
     (if k = extPort then rules else (k, v) # erase_first extPort rules)"

definition removeDnatRule :: "u16 \<Rightarrow> 'a nat_mapper_base_scheme \<Rightarrow> 'a nat_mapper_base_scheme" where
  "removeDnatRule extPort m = m\<lparr>dnatRules := erase_first extPort (dnatRules m)\<rparr>"

definition checkDnat :: "'a nat_mapper_base_scheme \<Rightarrow> packet \<Rightarrow> bool \<times> packet" where
  "checkDnat m pkt =
     (if isIngoing pkt then
        (case smap_find (<) (dnatRules m) (dport pkt) of
           Some rule \<Rightarrow> (True, pkt\<lparr>dstIp := getDstIP rule, dport := getDport rule\<rparr>)
         | None \<Rightarrow> (False, pkt))
      else
        (case smap_find (<) (dnatRules m) (sport pkt) of
           Some rule \<Rightarrow> (True, pkt\<lparr>srcIp := ipExt m\<rparr>)
         | None \<Rightarrow> (False, pkt)))"

section \<open>NatMapper\<close>

record nat_mapper = nat_mapper_base +
  intPortMap :: "(u16, nat) smap"
  extPortMap :: "(u16, nat) smap"
  entries :: entry_store

definition NatMapper_new :: "u32 \<Rightarrow> u32 \<Rightarrow> u32 \<Rightarrow> nat_mapper" where
  "NatMapper_new ipI ipE ct =
     \<lparr>ipInt = ipI, ipExt = ipE, connectionTimeout = ct, dnatRules = [],
      intPortMap = [], extPortMap = [], entries = empty_store\<rparr>"

definition NatMapper_makeNewConn ::
  "int \<Rightarrow> connection_tuple \<Rightarrow> connection_tuple \<Rightarrow> nat_mapper \<Rightarrow> nat_mapper" where
  "NatMapper_makeNewConn now extTup intTup m =
     (let (entry, st) =
            store_add (start now (ConnectionEntry_new (connectionTimeout m) extTup intTup)) (entries m)
      in m\<lparr>intPortMap := smap_insert (<) (getSport intTup) entry (intPortMap m),
           extPortMap := smap_insert (<) (getDport extTup) entry (extPortMap m),
           entries := st\<rparr>)"

definition NatMapper_removeFromMaps ::
  "connection_tuple \<Rightarrow> connection_tuple \<Rightarrow> nat_mapper \<Rightarrow> nat_mapper" where
  "NatMapper_removeFromMaps intTup extTup m =
     m\<lparr>intPortMap := smap_erase (<) (getSport intTup) (intPortMap m),
       extPortMap := smap_erase (<) (getDport extTup) (extPortMap m)\<rparr>"

text \<open>Looking a key up and locking the weak pointer found there.\<close>

definition find_entry ::
  "('k \<Rightarrow> 'k \<Rightarrow> bool) \<Rightarrow> ('k, nat) smap \<Rightarrow> entry_store \<Rightarrow> 'k \<Rightarrow> (nat \<times> conn_entry) option" where
  "find_entry lt m st k =
     (case smap_find lt m k of
        None \<Rightarrow> None
      | Some i \<Rightarrow> (case lock st i of None \<Rightarrow> None | Some e \<Rightarrow> Some (i, e)))"

definition NatMapper_mapPacket :: "int \<Rightarrow> packet \<Rightarrow> nat_mapper \<Rightarrow> bool \<times> packet \<times> nat_mapper" where
  "NatMapper_mapPacket now pkt m =
     (let tuple = tuple_of pkt; (forwarded, pkt1) = checkDnat m pkt in
      if forwarded then (True, pkt1, m)
      else if isIngoing pkt then
        (case find_entry (<) (extPortMap m) (entries m) (dport pkt) of
           Some (i, ent) \<Rightarrow>
             (True, pkt\<lparr>dstIp := getSrcIP (intTuple ent), dport := getSport (intTuple ent)\<rparr>, m)
         | None \<Rightarrow> (False, pkt, m))
      else
        (case find_entry (<) (intPortMap m) (entries m) (sport pkt) of
           Some (i, ent) \<Rightarrow>
             (True, pkt\<lparr>srcIp := getDstIP (extTuple ent), sport := getDport (extTuple ent)\<rparr>,
              m\<lparr>entries := store_rearm now i (entries m)\<rparr>)
         | None \<Rightarrow>
             (let extTup = ConnectionTuple (dstIp pkt) (ipExt m) (dport pkt) (getSport tuple)
                             (transProt pkt)
              in (True, pkt\<lparr>srcIp := getDstIP extTup, sport := getDport extTup\<rparr>,
                  NatMapper_makeNewConn now extTup tuple m))))"

section \<open>SymNatMapper\<close>

record sym_nat_mapper = nat_mapper_base +
  sym_intPortMap :: "(connection_tuple, nat) smap"
  sym_extPortMap :: "(u16, nat) smap"
  sym_entries :: entry_store

definition SymNatMapper_new :: "u32 \<Rightarrow> u32 \<Rightarrow> u32 \<Rightarrow> sym_nat_mapper" where
  "SymNatMapper_new ipI ipE ct =
     \<lparr>ipInt = ipI, ipExt = ipE, connectionTimeout = ct, dnatRules = [],
      sym_intPortMap = [], sym_extPortMap = [], sym_entries = empty_store\<rparr>"

text \<open>The loop of \<open>mapPort\<close>; \<open>None\<close> if it does not end. \<open>port++\<close> wraps at 16 bits.\<close>

partial_function (option) mapPort_loop :: "(u16, nat) smap \<Rightarrow> u16 \<Rightarrow> u16 option" where
  "mapPort_loop ext port =
     (if smap_find (<) ext port \<noteq> None then mapPort_loop ext (port + 1) else Some port)"

definition mapPort :: "sym_nat_mapper \<Rightarrow> connection_tuple \<Rightarrow> u16 option" where
  "mapPort m tup = mapPort_loop (sym_extPortMap m) (getSport tup)"

definition SymNatMapper_makeNewConn ::
  "int \<Rightarrow> connection_tuple \<Rightarrow> connection_tuple \<Rightarrow> sym_nat_mapper \<Rightarrow> sym_nat_mapper" where
  "SymNatMapper_makeNewConn now extTup intTup m =
     (let (entry, st) =
            store_add (start now (ConnectionEntry_new (connectionTimeout m) extTup intTup))
              (sym_entries m)
      in m\<lparr>sym_intPortMap := smap_insert ct_less intTup entry (sym_intPortMap m),
           sym_extPortMap := smap_insert (<) (getDport extTup) entry (sym_extPortMap m),
           sym_entries := st\<rparr>)"

definition SymNatMapper_removeFromMaps ::
  "connection_tuple \<Rightarrow> connection_tuple \<Rightarrow> sym_nat_mapper \<Rightarrow> sym_nat_mapper" where
  "SymNatMapper_removeFromMaps intTup extTup m =
     m\<lparr>sym_intPortMap := smap_erase ct_less intTup (sym_intPortMap m),
       sym_extPortMap := smap_erase (<) (getDport extTup) (sym_extPortMap m)\<rparr>"

text \<open>\<open>None\<close>: \<open>mapPort\<close> does not return, and the call keeps the mutex.\<close>

definition SymNatMapper_mapPacket ::
  "int \<Rightarrow> packet \<Rightarrow> sym_nat_mapper \<Rightarrow> (bool \<times> packet \<times> sym_nat_mapper) option" where
  "SymNatMapper_mapPacket now pkt m =
     (let tuple = tuple_of pkt; (forwarded, pkt1) = checkDnat m pkt in
      if forwarded then Some (True, pkt1, m)
      else if isIngoing pkt then
        (case find_entry (<) (sym_extPortMap m) (sym_entries m) (dport pkt) of
           Some (i, ent) \<Rightarrow>
             Some (True, pkt\<lparr>dstIp := getSrcIP (intTuple ent), dport := getSport (intTuple ent)\<rparr>, m)
         | None \<Rightarrow> Some (False, pkt, m))
      else
        (case find_entry ct_less (sym_intPortMap m) (sym_entries m) tuple of
           Some (i, ent) \<Rightarrow>
             Some (True, pkt\<lparr>srcIp := getDstIP (extTuple ent), sport := getDport (extTuple ent)\<rparr>,
              m\<lparr>sym_entries := store_rearm now i (sym_entries m)\<rparr>)
         | None \<Rightarrow>
             (case mapPort m tuple of
                None \<Rightarrow> None
              | Some port \<Rightarrow>
                  (let extTup = ConnectionTuple (dstIp pkt) (ipExt m) (dport pkt) port (transProt pkt)
                   in Some (True, pkt\<lparr>srcIp := getDstIP extTup, sport := getDport extTup\<rparr>,
                            SymNatMapper_makeNewConn now extTup tuple m)))))"

lemmas mapper_defs = NatMapper_new_def NatMapper_makeNewConn_def NatMapper_removeFromMaps_def
  NatMapper_mapPacket_def SymNatMapper_new_def SymNatMapper_makeNewConn_def
  SymNatMapper_removeFromMaps_def SymNatMapper_mapPacket_def

section \<open>Port forwarding\<close>

lemma find_tail:
  assumes "smap_sorted (<) ((k, v) # rules)"
  shows "smap_find (<) rules (k :: u16) = None"
proof (cases "smap_find (<) rules k")
  case (Some w)
  from linear.find_SomeD [OF this] have "(k, w) \<in> set rules" by simp
  then have "k \<in> set (map fst rules)" by force
  with assms show ?thesis by (auto simp: smap_sorted_def)
qed

lemma erase_first_find:
  "smap_sorted (<) rules \<Longrightarrow>
     smap_find (<) (erase_first p rules) q = (if q = p then None else smap_find (<) rules q)"
proof (induction rules)
  case (Cons e rules)
  obtain k v where e: "e = (k, v)" by (cases e)
  from Cons.prems have "smap_sorted (<) rules" by (simp add: smap_sorted_def)
  with Cons.IH find_tail Cons.prems show ?case by (auto simp: e)
qed simp

lemma checkDnat_ingoing:
  "isIngoing pkt \<Longrightarrow> fst (checkDnat m pkt) \<longleftrightarrow> smap_find (<) (dnatRules m) (dport pkt) \<noteq> None"
  by (cases "smap_find (<) (dnatRules m) (dport pkt)") (simp_all add: checkDnat_def)

lemma checkDnat_outgoing:
  "\<not> isIngoing pkt \<Longrightarrow> fst (checkDnat m pkt) \<longleftrightarrow> smap_find (<) (dnatRules m) (sport pkt) \<noteq> None"
  by (cases "smap_find (<) (dnatRules m) (sport pkt)") (simp_all add: checkDnat_def)

lemma checkDnat_missed: "\<not> fst (checkDnat m pkt) \<Longrightarrow> checkDnat m pkt = (False, pkt)"
  by (cases "isIngoing pkt"; cases "smap_find (<) (dnatRules m) (dport pkt)";
      cases "smap_find (<) (dnatRules m) (sport pkt)") (simp_all add: checkDnat_def)

lemma mapPacket_forwarded:
  "fst (checkDnat m pkt) \<Longrightarrow> NatMapper_mapPacket now pkt m = (True, snd (checkDnat m pkt), m)"
  by (cases "checkDnat m pkt") (simp add: NatMapper_mapPacket_def Let_def)

lemma sym_mapPacket_forwarded:
  "fst (checkDnat s pkt) \<Longrightarrow> SymNatMapper_mapPacket now pkt s = Some (True, snd (checkDnat s pkt), s)"
  by (cases "checkDnat s pkt") (simp add: SymNatMapper_mapPacket_def Let_def)

text \<open>The branches of \<open>mapPacket\<close> when no forwarding rule applies.\<close>

lemma mapPacket_in:
  assumes "\<not> fst (checkDnat m pkt)" and "isIngoing pkt"
  shows "NatMapper_mapPacket now pkt m =
    (case find_entry (<) (extPortMap m) (entries m) (dport pkt) of
       Some (i, ent) \<Rightarrow>
         (True, pkt\<lparr>dstIp := getSrcIP (intTuple ent), dport := getSport (intTuple ent)\<rparr>, m)
     | None \<Rightarrow> (False, pkt, m))"
  using assms by (simp add: NatMapper_mapPacket_def checkDnat_missed Let_def)

lemma mapPacket_out_known:
  assumes "\<not> fst (checkDnat m pkt)" and "\<not> isIngoing pkt"
    and "find_entry (<) (intPortMap m) (entries m) (sport pkt) = Some (i, ent)"
  shows "NatMapper_mapPacket now pkt m =
    (True, pkt\<lparr>srcIp := getDstIP (extTuple ent), sport := getDport (extTuple ent)\<rparr>,
     m\<lparr>entries := store_rearm now i (entries m)\<rparr>)"
  using assms by (simp add: NatMapper_mapPacket_def checkDnat_missed Let_def)

lemma mapPacket_out_new:
  assumes "\<not> fst (checkDnat m pkt)" and "\<not> isIngoing pkt"
    and "find_entry (<) (intPortMap m) (entries m) (sport pkt) = None"
  shows "NatMapper_mapPacket now pkt m =
    (True, pkt\<lparr>srcIp := ipExt m, sport := sport pkt\<rparr>,
     NatMapper_makeNewConn now
       (ConnectionTuple (dstIp pkt) (ipExt m) (dport pkt) (sport pkt) (transProt pkt))
       (tuple_of pkt) m)"
  using assms by (simp add: NatMapper_mapPacket_def checkDnat_missed Let_def tuple_of_def)

lemma sym_mapPacket_in:
  assumes "\<not> fst (checkDnat s pkt)" and "isIngoing pkt"
  shows "SymNatMapper_mapPacket now pkt s =
    (case find_entry (<) (sym_extPortMap s) (sym_entries s) (dport pkt) of
       Some (i, ent) \<Rightarrow>
         Some (True, pkt\<lparr>dstIp := getSrcIP (intTuple ent), dport := getSport (intTuple ent)\<rparr>, s)
     | None \<Rightarrow> Some (False, pkt, s))"
  using assms by (simp add: SymNatMapper_mapPacket_def checkDnat_missed Let_def)

lemma sym_mapPacket_out_known:
  assumes "\<not> fst (checkDnat s pkt)" and "\<not> isIngoing pkt"
    and "find_entry ct_less (sym_intPortMap s) (sym_entries s) (tuple_of pkt) = Some (i, ent)"
  shows "SymNatMapper_mapPacket now pkt s =
    Some (True, pkt\<lparr>srcIp := getDstIP (extTuple ent), sport := getDport (extTuple ent)\<rparr>,
     s\<lparr>sym_entries := store_rearm now i (sym_entries s)\<rparr>)"
  using assms by (simp add: SymNatMapper_mapPacket_def checkDnat_missed Let_def)

lemma sym_mapPacket_out_new:
  assumes "\<not> fst (checkDnat s pkt)" and "\<not> isIngoing pkt"
    and "find_entry ct_less (sym_intPortMap s) (sym_entries s) (tuple_of pkt) = None"
  shows "SymNatMapper_mapPacket now pkt s =
    (case mapPort s (tuple_of pkt) of
       None \<Rightarrow> None
     | Some port \<Rightarrow>
         Some (True, pkt\<lparr>srcIp := ipExt s, sport := port\<rparr>,
           SymNatMapper_makeNewConn now
             (ConnectionTuple (dstIp pkt) (ipExt s) (dport pkt) port (transProt pkt))
             (tuple_of pkt) s))"
  using assms
  by (simp add: SymNatMapper_mapPacket_def checkDnat_missed Let_def split: option.split)

text \<open>What \<open>mapPacket\<close> can do to the state: nothing, arm a timer again, add a connection.\<close>

lemma mapPacket_cases:
  assumes "NatMapper_mapPacket now pkt m = (b, pkt', m')"
  obtains (same) "m' = m"
  | (known) i ent where "\<not> isIngoing pkt" and "b"
      and "find_entry (<) (intPortMap m) (entries m) (sport pkt) = Some (i, ent)"
      and "m' = m\<lparr>entries := store_rearm now i (entries m)\<rparr>"
      and "pkt' = pkt\<lparr>srcIp := getDstIP (extTuple ent), sport := getDport (extTuple ent)\<rparr>"
  | (new) "\<not> isIngoing pkt" and "b" and "smap_find (<) (dnatRules m) (sport pkt) = None"
      and "find_entry (<) (intPortMap m) (entries m) (sport pkt) = None"
      and "m' = NatMapper_makeNewConn now
             (ConnectionTuple (dstIp pkt) (ipExt m) (dport pkt) (sport pkt) (transProt pkt))
             (tuple_of pkt) m"
      and "pkt' = pkt\<lparr>srcIp := ipExt m\<rparr>"
proof -
  consider (fwd) "fst (checkDnat m pkt)" | (inc) "\<not> fst (checkDnat m pkt)" "isIngoing pkt"
    | (out) "\<not> fst (checkDnat m pkt)" "\<not> isIngoing pkt" by blast
  then show ?thesis
  proof cases
    case fwd then show ?thesis using assms mapPacket_forwarded [of m pkt now] same by simp
  next
    case inc then show ?thesis using assms same by (auto simp: mapPacket_in split: option.splits)
  next
    case out
    then have "smap_find (<) (dnatRules m) (sport pkt) = None" by (simp add: checkDnat_outgoing)
    show ?thesis
    proof (cases "find_entry (<) (intPortMap m) (entries m) (sport pkt)")
      case None
      from assms [unfolded mapPacket_out_new [OF out None]] show ?thesis
        using new [OF out(2) _ \<open>smap_find _ _ _ = None\<close> None] by simp
    next
      case (Some ie)
      then obtain i ent
        where f: "find_entry (<) (intPortMap m) (entries m) (sport pkt) = Some (i, ent)"
        by (cases ie) simp
      from assms [unfolded mapPacket_out_known [OF out f]] show ?thesis
        using known [OF out(2) _ f] by simp
    qed
  qed
qed

lemma sym_mapPacket_cases:
  assumes "SymNatMapper_mapPacket now pkt m = Some (b, pkt', m')"
  obtains (same) "m' = m"
  | (known) i ent where "\<not> isIngoing pkt" and "b"
      and "find_entry ct_less (sym_intPortMap m) (sym_entries m) (tuple_of pkt) = Some (i, ent)"
      and "m' = m\<lparr>sym_entries := store_rearm now i (sym_entries m)\<rparr>"
      and "pkt' = pkt\<lparr>srcIp := getDstIP (extTuple ent), sport := getDport (extTuple ent)\<rparr>"
  | (new) port where "\<not> isIngoing pkt" and "b" and "smap_find (<) (dnatRules m) (sport pkt) = None"
      and "find_entry ct_less (sym_intPortMap m) (sym_entries m) (tuple_of pkt) = None"
      and "mapPort m (tuple_of pkt) = Some port"
      and "m' = SymNatMapper_makeNewConn now
             (ConnectionTuple (dstIp pkt) (ipExt m) (dport pkt) port (transProt pkt))
             (tuple_of pkt) m"
      and "pkt' = pkt\<lparr>srcIp := ipExt m, sport := port\<rparr>"
proof -
  consider (fwd) "fst (checkDnat m pkt)" | (inc) "\<not> fst (checkDnat m pkt)" "isIngoing pkt"
    | (out) "\<not> fst (checkDnat m pkt)" "\<not> isIngoing pkt" by blast
  then show ?thesis
  proof cases
    case fwd then show ?thesis using assms sym_mapPacket_forwarded [of m pkt now] same by simp
  next
    case inc then show ?thesis using assms same by (auto simp: sym_mapPacket_in split: option.splits)
  next
    case out
    then have "smap_find (<) (dnatRules m) (sport pkt) = None" by (simp add: checkDnat_outgoing)
    show ?thesis
    proof (cases "find_entry ct_less (sym_intPortMap m) (sym_entries m) (tuple_of pkt)")
      case None
      from assms [unfolded sym_mapPacket_out_new [OF out None]] show ?thesis
        using new [OF out(2) _ \<open>smap_find _ _ _ = None\<close> None]
        by (cases "mapPort m (tuple_of pkt)") simp_all
    next
      case (Some ie)
      then obtain i ent where f:
        "find_entry ct_less (sym_intPortMap m) (sym_entries m) (tuple_of pkt) = Some (i, ent)"
        by (cases ie) simp
      from assms [unfolded sym_mapPacket_out_known [OF out f]] show ?thesis
        using known [OF out(2) _ f] by simp
    qed
  qed
qed

section \<open>The port search of the symmetric mapper\<close>

lemma mapPort_loop_free: "mapPort_loop ext p = Some q \<Longrightarrow> smap_find (<) ext q = None"
proof (rule mapPort_loop.raw_induct [where P = "\<lambda>ext p q. smap_find (<) ext q = None"])
  fix loop ext port y
  assume IH: "\<And>ext p y. loop ext p = Some y \<Longrightarrow> smap_find (<) ext y = None"
    and eq: "(if smap_find (<) ext port \<noteq> None then loop ext (port + 1) else Some port) = Some y"
  then show "smap_find (<) ext y = None" by (auto split: if_splits)
qed

lemma mapPort_loop_steps:
  assumes "\<And>i. i < n \<Longrightarrow> smap_find (<) ext (p + of_nat i) \<noteq> None"
  shows "mapPort_loop ext p = mapPort_loop ext (p + of_nat n)"
  using assms
proof (induction n arbitrary: p)
  case (Suc n)
  have "smap_find (<) ext p \<noteq> None" using Suc.prems [of 0] by simp
  then have "mapPort_loop ext p = mapPort_loop ext (p + 1)" by (simp add: mapPort_loop.simps [of ext p])
  also have "\<dots> = mapPort_loop ext (p + 1 + of_nat n)"
  proof (rule Suc.IH)
    fix i assume "i < n"
    then show "smap_find (<) ext (p + 1 + of_nat i) \<noteq> None"
      using Suc.prems [of "Suc i"] by (simp add: add.assoc)
  qed
  finally show ?case by (simp add: add.assoc)
qed simp

text \<open>The search returns the first free port at or after the start, in cyclic order.\<close>

lemma mapPort_loop_first:
  assumes "smap_find (<) ext (p + of_nat n) = None"
    and "\<And>i. i < n \<Longrightarrow> smap_find (<) ext (p + of_nat i) \<noteq> None"
  shows "mapPort_loop ext p = Some (p + of_nat n)"
  using mapPort_loop_steps [OF assms(2)] assms(1) by (simp add: mapPort_loop.simps [of ext "p + of_nat n"])

lemma mapPort_loop_some:
  assumes "smap_find (<) ext q = None"
  obtains n where "mapPort_loop ext p = Some (p + of_nat n)"
    and "smap_find (<) ext (p + of_nat n) = None"
    and "\<And>i. i < n \<Longrightarrow> smap_find (<) ext (p + of_nat i) \<noteq> None"
proof -
  let ?P = "\<lambda>n. smap_find (<) ext (p + of_nat n) = None"
  have "?P (unat (q - p))" using assms by simp
  then have "?P (LEAST n. ?P n)" by (rule LeastI)
  moreover have "\<And>i. i < (LEAST n. ?P n) \<Longrightarrow> \<not> ?P i" by (rule not_less_Least)
  ultimately show ?thesis using that mapPort_loop_first by blast
qed

end
