(* ===== verification/Nat_Mapper_Steps.thy ===== *)
theory Nat_Mapper_Steps
  imports Nat_Mapper
begin

text \<open>
  The mappers as transition systems: a packet is mapped, the timer of an entry expires, the
  deleter of a dead entry runs, in any order. The invariants relate the maps to the entries
  and hold in every reachable state, also when packets come between an entry's death and its
  deleter. Mapping calls themselves are one at a time.
\<close>

section \<open>NatMapper\<close>

inductive nm_step :: "nat_mapper \<Rightarrow> nat_mapper \<Rightarrow> bool" where
  map_packet: "NatMapper_mapPacket now pkt m = (b, pkt', m') \<Longrightarrow> nm_step m m'"
| expire: "store_expire now i (entries m) = Some st \<Longrightarrow> nm_step m (m\<lparr>entries := st\<rparr>)"
| delete: "store_reap k (entries m) = Some ((i, e), st) \<Longrightarrow>
    nm_step m (NatMapper_removeFromMaps (intTuple e) (extTuple e) (m\<lparr>entries := st\<rparr>))"

inductive nm_reachable :: "nat_mapper \<Rightarrow> nat_mapper \<Rightarrow> bool" for m0 where
  start: "nm_reachable m0 m0"
| step: "nm_reachable m0 m \<Longrightarrow> nm_step m m' \<Longrightarrow> nm_reachable m0 m'"

definition nm_inv :: "nat_mapper \<Rightarrow> bool" where
  "nm_inv m \<longleftrightarrow> store_ok (entries m)
     \<and> (\<forall>p. smap_find (<) (intPortMap m) p = smap_find (<) (extPortMap m) p)
     \<and> (\<forall>p i. smap_find (<) (intPortMap m) p = Some i \<longrightarrow> i < next_entry (entries m))
     \<and> (\<forall>p i e. smap_find (<) (intPortMap m) p = Some i \<longrightarrow> present (entries m) i e \<longrightarrow>
          getSport (intTuple e) = p)
     \<and> (\<forall>i e. present (entries m) i e \<longrightarrow>
          getDport (extTuple e) = getSport (intTuple e) \<and> getDstIP (extTuple e) = ipExt m)"

lemma nm_invD:
  assumes "nm_inv m"
  shows "store_ok (entries m)"
    and "smap_find (<) (extPortMap m) p = smap_find (<) (intPortMap m) p"
    and "smap_find (<) (intPortMap m) p = Some i \<Longrightarrow> i < next_entry (entries m)"
    and "smap_find (<) (intPortMap m) p = Some i \<Longrightarrow> present (entries m) i e \<Longrightarrow>
           getSport (intTuple e) = p"
    and "present (entries m) i e \<Longrightarrow> getDport (extTuple e) = getSport (intTuple e)"
    and "present (entries m) i e \<Longrightarrow> getDstIP (extTuple e) = ipExt m"
  using assms unfolding nm_inv_def by (blast, simp, blast+)

lemma nm_inv_new [simp]: "nm_inv (NatMapper_new a b c)"
  by (simp add: nm_inv_def NatMapper_new_def empty_store_def store_ok_def present_def)

lemma nm_inv_setDnatRules [simp]: "nm_inv (setDnatRules r m) = nm_inv m"
  by (simp add: nm_inv_def setDnatRules_def)

lemma nm_inv_rearm: "nm_inv m \<Longrightarrow> nm_inv (m\<lparr>entries := store_rearm now i (entries m)\<rparr>)"
  unfolding nm_inv_def using store_ok_rearm [of "entries m" now i]
  by (auto dest!: present_rearm)

lemma nm_inv_makeNewConn:
  assumes "nm_inv m"
  shows "nm_inv (NatMapper_makeNewConn now (ConnectionTuple d (ipExt m) dp (sport pkt) pr) (tuple_of pkt) m)"
proof -
  define e where "e = start now (ConnectionEntry_new (connectionTimeout m)
    (ConnectionTuple d (ipExt m) dp (sport pkt) pr) (tuple_of pkt))"
  have e: "intTuple e = tuple_of pkt" "extTuple e = ConnectionTuple d (ipExt m) dp (sport pkt) pr"
    "timer e \<noteq> None" by (simp_all add: e_def)
  note I = nm_invD [OF assms]
  let ?m = "NatMapper_makeNewConn now (ConnectionTuple d (ipExt m) dp (sport pkt) pr) (tuple_of pkt) m"
  let ?n = "next_entry (entries m)"
  have m: "intPortMap ?m = smap_insert (<) (sport pkt) ?n (intPortMap m)"
    "extPortMap ?m = smap_insert (<) (sport pkt) ?n (extPortMap m)"
    "entries ?m = snd (store_add e (entries m))" "ipExt ?m = ipExt m" "next_entry (entries ?m) = Suc ?n"
    by (simp_all add: NatMapper_makeNewConn_def e_def store_add_def tuple_of_def)
  show ?thesis
    unfolding nm_inv_def m present_add [OF I(1)] linear_find_insert
    using store_ok_add [OF I(1) e(3)] I m(5)
    by (auto simp: e m tuple_of_def less_Suc_eq split: if_splits)
qed

lemma nm_inv_map:
  assumes "nm_inv m" and "NatMapper_mapPacket now pkt m = (b, pkt', m')"
  shows "nm_inv m'"
  using assms(2)
  by (cases rule: mapPacket_cases) (simp_all add: assms(1) nm_inv_rearm nm_inv_makeNewConn)

lemma nm_inv_expire:
  assumes "nm_inv m" and "store_expire now i (entries m) = Some st"
  shows "nm_inv (m\<lparr>entries := st\<rparr>)"
proof -
  note I = nm_invD [OF assms(1)]
  have "next_entry st = next_entry (entries m)" using store_expireD [OF assms(2)] by auto
  then show ?thesis
    using I store_ok_expire [OF I(1) assms(2)] present_expire [OF I(1) assms(2)]
    by (simp add: nm_inv_def)
qed

lemma nm_inv_delete:
  assumes "nm_inv m" and "store_reap k (entries m) = Some ((i, e), st)"
  shows "nm_inv (NatMapper_removeFromMaps (intTuple e) (extTuple e) (m\<lparr>entries := st\<rparr>))"
proof -
  note I = nm_invD [OF assms(1)]
  from store_reapD [OF assms(2)] have "present (entries m) i e"
    and n: "next_entry st = next_entry (entries m)" by (auto simp: present_def)
  from this(1) have "getDport (extTuple e) = getSport (intTuple e)" by (rule I(5))
  then show ?thesis
    using I store_ok_reap [OF I(1) assms(2)] present_reap [OF I(1) assms(2)] n
    by (auto simp: nm_inv_def NatMapper_removeFromMaps_def)
qed

lemma nm_step_inv: "nm_step m m' \<Longrightarrow> nm_inv m \<Longrightarrow> nm_inv m'"
  by (induction rule: nm_step.induct) (blast intro: nm_inv_map nm_inv_expire nm_inv_delete)+

lemma nm_reachable_inv: "nm_reachable m0 m \<Longrightarrow> nm_inv m0 \<Longrightarrow> nm_inv m"
  by (induction rule: nm_reachable.induct) (auto intro: nm_step_inv)

section \<open>SymNatMapper\<close>

inductive sn_step :: "sym_nat_mapper \<Rightarrow> sym_nat_mapper \<Rightarrow> bool" where
  map_packet: "SymNatMapper_mapPacket now pkt m = Some (b, pkt', m') \<Longrightarrow> sn_step m m'"
| expire: "store_expire now i (sym_entries m) = Some st \<Longrightarrow> sn_step m (m\<lparr>sym_entries := st\<rparr>)"
| delete: "store_reap k (sym_entries m) = Some ((i, e), st) \<Longrightarrow>
    sn_step m (SymNatMapper_removeFromMaps (intTuple e) (extTuple e) (m\<lparr>sym_entries := st\<rparr>))"

inductive sn_reachable :: "sym_nat_mapper \<Rightarrow> sym_nat_mapper \<Rightarrow> bool" for m0 where
  start: "sn_reachable m0 m0"
| step: "sn_reachable m0 m \<Longrightarrow> sn_step m m' \<Longrightarrow> sn_reachable m0 m'"

definition sn_inv :: "sym_nat_mapper \<Rightarrow> bool" where
  "sn_inv m \<longleftrightarrow> store_ok (sym_entries m)
     \<and> (\<forall>q i. smap_find (<) (sym_extPortMap m) q = Some i \<longleftrightarrow>
          (\<exists>e. present (sym_entries m) i e \<and> getDport (extTuple e) = q))
     \<and> (\<forall>t i. smap_find ct_less (sym_intPortMap m) t = Some i \<longrightarrow> i < next_entry (sym_entries m))
     \<and> (\<forall>t i e. smap_find ct_less (sym_intPortMap m) t = Some i \<longrightarrow>
          present (sym_entries m) i e \<longrightarrow> intTuple e = t)
     \<and> (\<forall>i e. present (sym_entries m) i e \<longrightarrow> getDstIP (extTuple e) = ipExt m)"

lemma sn_inv_new [simp]: "sn_inv (SymNatMapper_new a b c)"
  by (simp add: sn_inv_def present_def SymNatMapper_new_def empty_store_def store_ok_def)

lemma sn_inv_setDnatRules [simp]: "sn_inv (setDnatRules r m) = sn_inv m"
  by (simp add: sn_inv_def setDnatRules_def)

lemma sn_invD:
  assumes "sn_inv m"
  shows "store_ok (sym_entries m)"
    and "smap_find (<) (sym_extPortMap m) q = Some i \<longleftrightarrow>
           (\<exists>e. present (sym_entries m) i e \<and> getDport (extTuple e) = q)"
    and "smap_find ct_less (sym_intPortMap m) t = Some i \<Longrightarrow> i < next_entry (sym_entries m)"
    and "smap_find ct_less (sym_intPortMap m) t = Some i \<Longrightarrow> present (sym_entries m) i e \<Longrightarrow>
           intTuple e = t"
    and "present (sym_entries m) i e \<Longrightarrow> getDstIP (extTuple e) = ipExt m"
  using assms unfolding sn_inv_def by blast+

text \<open>Present entries have ports of their own.\<close>

lemma sn_inv_ports:
  assumes "sn_inv m" and "present (sym_entries m) i e" and "present (sym_entries m) j f"
    and "getDport (extTuple e) = getDport (extTuple f)"
  shows "i = j"
  using sn_invD(2) [OF assms(1), of "getDport (extTuple f)"] assms(2-4) by (metis option.inject)

lemma sn_inv_rearm: "sn_inv m \<Longrightarrow> sn_inv (m\<lparr>sym_entries := store_rearm now i (sym_entries m)\<rparr>)"
proof -
  assume inv: "sn_inv m"
  note I = sn_invD [OF inv]
  have "(\<exists>e. present (store_rearm now i (sym_entries m)) j e \<and> getDport (extTuple e) = q) \<longleftrightarrow>
      (\<exists>e. present (sym_entries m) j e \<and> getDport (extTuple e) = q)" for j q
    using present_rearm [of now i "sym_entries m" j] rearm_present [of "sym_entries m" j _ now i]
    by metis
  moreover have "intTuple e = t"
    if "smap_find ct_less (sym_intPortMap m) t = Some j" "present (store_rearm now i (sym_entries m)) j e"
    for t j e
    using I(4) [OF that(1)] present_rearm [OF that(2)] by metis
  moreover have "getDstIP (extTuple e) = ipExt m"
    if "present (store_rearm now i (sym_entries m)) j e" for j e
    using I(5) present_rearm [OF that] by metis
  ultimately show ?thesis
    using I(1-3) store_ok_rearm [OF I(1), of now i] by (simp add: sn_inv_def)
qed

lemma sn_inv_makeNewConn:
  assumes "sn_inv m" and "smap_find (<) (sym_extPortMap m) port = None"
  shows "sn_inv (SymNatMapper_makeNewConn now (ConnectionTuple d (ipExt m) dp port pr) t m)"
proof -
  define e where "e = start now (ConnectionEntry_new (connectionTimeout m)
    (ConnectionTuple d (ipExt m) dp port pr) t)"
  have e: "intTuple e = t" "extTuple e = ConnectionTuple d (ipExt m) dp port pr"
    "timer e \<noteq> None" by (simp_all add: e_def)
  note I = sn_invD [OF assms(1)]
  let ?m = "SymNatMapper_makeNewConn now (ConnectionTuple d (ipExt m) dp port pr) t m"
  let ?n = "next_entry (sym_entries m)"
  have m: "sym_intPortMap ?m = smap_insert ct_less t ?n (sym_intPortMap m)"
    "sym_extPortMap ?m = smap_insert (<) port ?n (sym_extPortMap m)"
    "sym_entries ?m = snd (store_add e (sym_entries m))" "ipExt ?m = ipExt m"
    "next_entry (sym_entries ?m) = Suc ?n"
    by (simp_all add: SymNatMapper_makeNewConn_def e_def store_add_def)
  have free: "present (sym_entries m) i f \<Longrightarrow> getDport (extTuple f) \<noteq> port" for i f
    using I(2) [of port i] assms(2) by auto
  have new: "\<not> present (sym_entries m) ?n f" for f
    using present_lt [OF I(1), of ?n f] by blast
  have ext: "smap_find (<) (sym_extPortMap ?m) q = Some i \<longleftrightarrow>
      (\<exists>f. present (sym_entries ?m) i f \<and> getDport (extTuple f) = q)" for q i
    unfolding m present_add [OF I(1)] linear_find_insert using I(2) [of q i] free new
    by (auto simp: e)
  have nn: "smap_find ct_less (sym_intPortMap m) u \<noteq> Some ?n" for u
    using I(3) [of u ?n] by blast
  show ?thesis
    unfolding sn_inv_def using ext nn store_ok_add [OF I(1) e(3)] I(3-5) m(5)
    unfolding m present_add [OF I(1)] ct_find_insert
    by (auto simp: e less_Suc_eq split: if_splits)
qed

lemma mapPort_free: "mapPort m t = Some p \<Longrightarrow> smap_find (<) (sym_extPortMap m) p = None"
  unfolding mapPort_def by (rule mapPort_loop_free)

lemma sn_inv_map:
  assumes "sn_inv m" and "SymNatMapper_mapPacket now pkt m = Some (b, pkt', m')"
  shows "sn_inv m'"
  using assms(2)
  by (cases rule: sym_mapPacket_cases)
    (simp_all add: assms(1) sn_inv_rearm sn_inv_makeNewConn mapPort_free)

lemma sn_inv_expire:
  assumes "sn_inv m" and "store_expire now i (sym_entries m) = Some st"
  shows "sn_inv (m\<lparr>sym_entries := st\<rparr>)"
proof -
  note I = sn_invD [OF assms(1)]
  have "next_entry st = next_entry (sym_entries m)" using store_expireD [OF assms(2)] by auto
  then show ?thesis
    using I store_ok_expire [OF I(1) assms(2)] present_expire [OF I(1) assms(2)]
    by (simp add: sn_inv_def)
qed

lemma sn_inv_delete:
  assumes "sn_inv m" and "store_reap k (sym_entries m) = Some ((i, e), st)"
  shows "sn_inv (SymNatMapper_removeFromMaps (intTuple e) (extTuple e) (m\<lparr>sym_entries := st\<rparr>))"
proof -
  note I = sn_invD [OF assms(1)]
  from store_reapD [OF assms(2)] have p: "present (sym_entries m) i e"
    and n: "next_entry st = next_entry (sym_entries m)" by (auto simp: present_def)
  let ?P = "getDport (extTuple e)"
  have eq: "q \<noteq> ?P \<and> present (sym_entries m) j f \<and> getDport (extTuple f) = q \<longleftrightarrow>
      j \<noteq> i \<and> present (sym_entries m) j f \<and> getDport (extTuple f) = q" for q j f
    using sn_inv_ports [OF assms(1) p, of j f] present_unique [OF I(1) p, of f] by auto
  have ext: "smap_find (<) (smap_erase (<) ?P (sym_extPortMap m)) q = Some j \<longleftrightarrow>
      (\<exists>f. present st j f \<and> getDport (extTuple f) = q)" for q j
  proof -
    have "smap_find (<) (smap_erase (<) ?P (sym_extPortMap m)) q = Some j \<longleftrightarrow>
        (\<exists>f. q \<noteq> ?P \<and> present (sym_entries m) j f \<and> getDport (extTuple f) = q)"
      using I(2) [of q j] by simp
    also have "\<dots> \<longleftrightarrow> (\<exists>f. j \<noteq> i \<and> present (sym_entries m) j f \<and> getDport (extTuple f) = q)"
      by (simp only: eq)
    also have "\<dots> \<longleftrightarrow> (\<exists>f. present st j f \<and> getDport (extTuple f) = q)"
      unfolding present_reap [OF I(1) assms(2)] by blast
    finally show ?thesis .
  qed
  show ?thesis
    using I(3-5) store_ok_reap [OF I(1) assms(2)] present_reap [OF I(1) assms(2)]
    unfolding sn_inv_def SymNatMapper_removeFromMaps_def
    by (simp add: n ext del: linear_find_erase) blast
qed

lemma sn_step_inv: "sn_step m m' \<Longrightarrow> sn_inv m \<Longrightarrow> sn_inv m'"
  by (induction rule: sn_step.induct) (blast intro: sn_inv_map sn_inv_expire sn_inv_delete)+

lemma sn_reachable_inv: "sn_reachable m0 m \<Longrightarrow> sn_inv m0 \<Longrightarrow> sn_inv m"
  by (induction rule: sn_reachable.induct) (auto intro: sn_step_inv)

end
