(* ===== verification/Nat_Mapper_Properties.thy ===== *)
theory Nat_Mapper_Properties
  imports Nat_Mapper_Steps
begin

text \<open>
  What the mappers guarantee of the packets: replies come back to the host and port they
  answer, nothing comes in without a connection or a forwarding rule, the symmetric mapper's
  ports are its connections' own and its port search ends exactly when a port is free; and
  what they do not guarantee: port forwarding with a changed port number, and a connection
  that is set up before the deleter of its predecessor has run.
\<close>

section \<open>Configuration is not changed by steps\<close>

lemma rearm_base: "dnatRules (m\<lparr>entries := x\<rparr>) = dnatRules m" "ipExt (m\<lparr>entries := x\<rparr>) = ipExt m"
  by simp_all

lemma makeNewConn_base [simp]:
  "dnatRules (NatMapper_makeNewConn now x y m) = dnatRules m"
  "ipExt (NatMapper_makeNewConn now x y m) = ipExt m"
  "dnatRules (SymNatMapper_makeNewConn now x y s) = dnatRules s"
  "ipExt (SymNatMapper_makeNewConn now x y s) = ipExt s"
  by (simp_all add: NatMapper_makeNewConn_def SymNatMapper_makeNewConn_def store_add_def)

lemma mapPacket_base:
  assumes "NatMapper_mapPacket now pkt m = (b, pkt', m')"
  shows "dnatRules m' = dnatRules m \<and> ipExt m' = ipExt m"
  using assms by (cases rule: mapPacket_cases) simp_all

lemma nm_step_base: "nm_step m m' \<Longrightarrow> dnatRules m' = dnatRules m \<and> ipExt m' = ipExt m"
  by (induction rule: nm_step.induct) (auto dest: mapPacket_base simp: NatMapper_removeFromMaps_def)

lemma nm_reachable_base: "nm_reachable m0 m \<Longrightarrow> dnatRules m = dnatRules m0 \<and> ipExt m = ipExt m0"
  by (induction rule: nm_reachable.induct) (auto dest: nm_step_base)

lemma sym_mapPacket_base:
  assumes "SymNatMapper_mapPacket now pkt m = Some (b, pkt', m')"
  shows "dnatRules m' = dnatRules m \<and> ipExt m' = ipExt m"
  using assms by (cases rule: sym_mapPacket_cases) simp_all

lemma sn_step_base: "sn_step m m' \<Longrightarrow> dnatRules m' = dnatRules m \<and> ipExt m' = ipExt m"
  by (induction rule: sn_step.induct)
    (auto dest: sym_mapPacket_base simp: SymNatMapper_removeFromMaps_def)

lemma sn_reachable_base: "sn_reachable m0 m \<Longrightarrow> dnatRules m = dnatRules m0 \<and> ipExt m = ipExt m0"
  by (induction rule: sn_reachable.induct) (auto dest: sn_step_base)

lemma find_entry_Some:
  "find_entry lt mp st k = Some (i, e) \<longleftrightarrow> smap_find lt mp k = Some i \<and> live st i = Some e"
  by (auto simp: find_entry_def lock_def split: option.splits)

lemma live_present: "live st i = Some e \<Longrightarrow> present st i e"
  by (simp add: present_def)


section \<open>A connection that is alone on its port stays reachable\<close>

definition alone :: "nat_mapper \<Rightarrow> u16 \<Rightarrow> nat \<Rightarrow> u32 \<Rightarrow> bool" where
  "alone m p i h \<longleftrightarrow> smap_find (<) (intPortMap m) p = Some i \<and> live (entries m) i \<noteq> None
     \<and> (\<forall>e. live (entries m) i = Some e \<longrightarrow> getSrcIP (intTuple e) = h)
     \<and> (\<forall>j e. present (entries m) j e \<longrightarrow> getSport (intTuple e) = p \<longrightarrow> j = i)"

lemma aloneD:
  assumes "alone m p i h"
  shows "smap_find (<) (intPortMap m) p = Some i" and "live (entries m) i \<noteq> None"
    and "present (entries m) j e \<Longrightarrow> getSport (intTuple e) = p \<Longrightarrow> j = i"
    and "live (entries m) i = Some e \<Longrightarrow> getSrcIP (intTuple e) = h"
  using assms by (auto simp: alone_def)

lemma alone_rearm: "alone m p i h \<Longrightarrow> alone (m\<lparr>entries := store_rearm now j (entries m)\<rparr>) p i h"
  unfolding alone_def by (auto simp: live_rearm dest!: present_rearm)

lemma makeNewConn_maps:
  fixes pkt :: packet
  shows "intPortMap (NatMapper_makeNewConn now (ConnectionTuple d x dp (sport pkt) pr) (tuple_of pkt) m) = smap_insert (<) (sport pkt) (next_entry (entries m)) (intPortMap m)"
    and "entries (NatMapper_makeNewConn now (ConnectionTuple d x dp (sport pkt) pr) (tuple_of pkt) m) =
      snd (store_add (start now (ConnectionEntry_new (connectionTimeout m)
      (ConnectionTuple d x dp (sport pkt) pr) (tuple_of pkt))) (entries m))"
  by (simp_all add: NatMapper_makeNewConn_def store_add_def tuple_of_def)

lemma alone_makeNewConn:
  assumes "nm_inv m" and "alone m p i h" and "sport pkt \<noteq> p"
  shows "alone (NatMapper_makeNewConn now (ConnectionTuple d (ipExt m) dp (sport pkt) pr) (tuple_of pkt) m) p i h"
proof -
  note I = nm_invD [OF assms(1)] and A = aloneD [OF assms(2)]
  from A(1) have "i < next_entry (entries m)" by (rule I(3))
  then show ?thesis
    unfolding alone_def makeNewConn_maps present_add [OF I(1)] linear_find_insert
    using A assms(3) by (auto simp: tuple_of_def store_add_def split: if_splits)
qed

lemma alone_map:
  assumes inv: "nm_inv m" and al: "alone m p i h" and mp: "NatMapper_mapPacket now pkt m = (b, pkt', m')"
  shows "alone m' p i h"
  using mp
proof (cases rule: mapPacket_cases)
  case new
  with aloneD(1,2) [OF al] have "sport pkt \<noteq> p"
    by (auto simp: find_entry_def lock_def split: option.splits)
  with new alone_makeNewConn [OF inv al] show ?thesis by blast
qed (use al alone_rearm in simp_all)

lemma alone_expire:
  assumes "nm_inv m" and "alone m p i h" and "store_expire now j (entries m) = Some st"
    and "live st i \<noteq> None"
  shows "alone (m\<lparr>entries := st\<rparr>) p i h"
  using aloneD [OF assms(2)] present_expire [OF nm_invD(1) [OF assms(1)] assms(3)] assms(4)
    store_expireD [OF assms(3)]
  by (auto simp: alone_def split: if_splits)

lemma alone_delete:
  assumes inv: "nm_inv m" and al: "alone m p i h" and re: "store_reap k (entries m) = Some ((j, e), st)"
  shows "alone (NatMapper_removeFromMaps (intTuple e) (extTuple e) (m\<lparr>entries := st\<rparr>)) p i h"
proof -
  note I = nm_invD [OF inv] and A = aloneD [OF al]
  from store_reapD [OF re] have d: "(j, e) \<in> set (dying (entries m))" and l: "live st = live (entries m)"
    by auto
  then have pr: "present (entries m) j e" by (simp add: present_def)
  have "j \<noteq> i" using I(1) d A(2) by (auto simp: store_ok_def)
  then have "getSport (intTuple e) \<noteq> p" using A(3) [OF pr] by blast
  then show ?thesis
    using A present_reap [OF I(1) re] l
    by (auto simp: alone_def NatMapper_removeFromMaps_def)
qed

text \<open>Identities of entries are not used again.\<close>

lemma nm_step_entries:
  assumes "nm_step m m'"
  shows "next_entry (entries m) \<le> next_entry (entries m')
     \<and> (\<forall>i < next_entry (entries m). live (entries m) i = None \<longrightarrow> live (entries m') i = None)"
  using assms
proof (induction rule: nm_step.induct)
  case (map_packet now pkt m b pkt' m')
  then show ?case
    by (cases rule: mapPacket_cases)
      (auto simp: live_rearm NatMapper_makeNewConn_def store_add_def)
qed (auto dest!: store_expireD store_reapD simp: NatMapper_removeFromMaps_def)

lemma alone_step:
  assumes "nm_step m m'" and "nm_inv m" and "alone m p i h" and "live (entries m') i \<noteq> None"
  shows "alone m' p i h"
  using assms
proof (induction rule: nm_step.induct)
  case (map_packet now pkt m b pkt' m')
  then show ?case by (blast intro: alone_map)
next
  case (expire now j m st)
  then show ?case by (intro alone_expire) simp_all
next
  case (delete k m j e st)
  then show ?case by (blast intro: alone_delete)
qed

lemma alone_reachable:
  assumes "nm_reachable m m'" and "nm_inv m" and "alone m p i h" and "live (entries m') i \<noteq> None"
  shows "alone m' p i h"
proof -
  have "i < next_entry (entries m') \<and> (live (entries m') i \<noteq> None \<longrightarrow> alone m' p i h)"
    using assms(1)
  proof (induction rule: nm_reachable.induct)
    case start
    then show ?case using assms(2,3) aloneD(1) nm_invD(3) by blast
  next
    case (step m1 m2)
    have "nm_inv m1" using nm_reachable_inv [OF step(1) assms(2)] .
    then show ?case
      using step nm_step_entries [OF step(2)] alone_step [OF step(2)] by (metis order_less_le_trans)
  qed
  then show ?thesis using assms(4) by blast
qed


lemma alone_new:
  assumes "nm_inv m" and "\<forall>j e. present (entries m) j e \<longrightarrow> getSport (intTuple e) \<noteq> sport pkt"
  shows "alone (NatMapper_makeNewConn now (ConnectionTuple d (ipExt m) dp (sport pkt) pr) (tuple_of pkt) m)
    (sport pkt) (next_entry (entries m)) (srcIp pkt)"
  unfolding alone_def makeNewConn_maps present_add [OF nm_invD(1) [OF assms(1)]] linear_find_insert
  using assms(2) by (auto simp: store_add_def tuple_of_def split: if_splits)

lemma free_not_found:
  assumes "nm_inv m" and "\<forall>j e. present (entries m) j e \<longrightarrow> getSport (intTuple e) \<noteq> p"
  shows "find_entry (<) (intPortMap m) (entries m) p = None"
proof (cases "find_entry (<) (intPortMap m) (entries m) p")
  case (Some ie)
  then obtain i e where "smap_find (<) (intPortMap m) p = Some i" and "live (entries m) i = Some e"
    by (cases ie) (simp add: find_entry_Some)
  with nm_invD(4) [OF assms(1)] live_present assms(2) show ?thesis by blast
qed simp

lemma alone_delivers:
  assumes "nm_inv m" and "alone m p i h" and "smap_find (<) (dnatRules m) p = None"
    and "isIngoing reply" and "dport reply = p"
  shows "NatMapper_mapPacket t reply m = (True, reply\<lparr>dstIp := h, dport := p\<rparr>, m)"
proof -
  note I = nm_invD [OF assms(1)] and A = aloneD [OF assms(2)]
  from A(2) obtain e where e: "live (entries m) i = Some e" by blast
  with A(1) have "find_entry (<) (extPortMap m) (entries m) (dport reply) = Some (i, e)"
    by (simp add: find_entry_Some I(2) assms(5))
  moreover have "getSport (intTuple e) = p" using I(4) [OF A(1) live_present [OF e]] .
  moreover have "\<not> fst (checkDnat m reply)" using assms(3-5) by (simp add: checkDnat_ingoing)
  ultimately show ?thesis using A(4) [OF e] assms(4) by (simp add: mapPacket_in)
qed

lemma nat_fresh [simp]:
  "nm_inv (setDnatRules rules (NatMapper_new ipI ipE ct))"
  "dnatRules (setDnatRules rules (NatMapper_new ipI ipE ct)) = rules"
  "ipExt (setDnatRules rules (NatMapper_new ipI ipE ct)) = ipE"
  by simp (simp_all add: setDnatRules_def NatMapper_new_def)

section \<open>NatMapper\<close>

text \<open>
  C17. A packet that opens a connection through \<open>NatMapper\<close> (no forwarding rule and no
  connection, alive or dying, on its source port) leaves with the external address and its
  own source port; and in every later state, whatever packets, expiries and deleters come
  between, until the timer of that connection runs out, a packet to the mapped port is
  rewritten to the internal host and port and passed.
\<close>

theorem nat_reply_reaches_host:
  assumes reach: "nm_reachable (setDnatRules rules (NatMapper_new ipI ipE ct)) m"
    and out: "\<not> isIngoing pkt" and norule: "smap_find (<) rules (sport pkt) = None"
    and free: "\<forall>j e. present (entries m) j e \<longrightarrow> getSport (intTuple e) \<noteq> sport pkt"
    and mp: "NatMapper_mapPacket now pkt m = (b, pkt', m')"
    and later: "nm_reachable m' m''" and lv: "live (entries m'') (next_entry (entries m)) \<noteq> None"
    and reply: "isIngoing reply" "dport reply = sport pkt'"
  shows "b \<and> pkt' = pkt\<lparr>srcIp := ipE\<rparr>
    \<and> NatMapper_mapPacket t reply m'' = (True, reply\<lparr>dstIp := srcIp pkt, dport := sport pkt\<rparr>, m'')"
proof -
  have inv: "nm_inv m" using nm_reachable_inv [OF reach] by simp
  have base: "dnatRules m = rules" "ipExt m = ipE" using nm_reachable_base [OF reach] by simp_all
  note fnd = free_not_found [OF inv free]
  have "\<not> fst (checkDnat m pkt)" using out norule base by (simp add: checkDnat_outgoing)
  note eq = mapPacket_out_new [OF this out fnd, of now, unfolded mp prod.inject]
  have eqs: "b" "pkt' = pkt\<lparr>srcIp := ipE\<rparr>" using eq base by simp_all
  have m': "m' = NatMapper_makeNewConn now
      (ConnectionTuple (dstIp pkt) (ipExt m) (dport pkt) (sport pkt) (transProt pkt)) (tuple_of pkt) m"
    using eq by blast
  have inv': "nm_inv m'" using nm_inv_map [OF inv mp] .
  have "alone m' (sport pkt) (next_entry (entries m)) (srcIp pkt)"
    unfolding m' by (rule alone_new [OF inv free])
  from alone_reachable [OF later inv' this lv]
  have "alone m'' (sport pkt) (next_entry (entries m)) (srcIp pkt)" .
  moreover have "smap_find (<) (dnatRules m'') (sport pkt) = None"
    using nm_reachable_base [OF later] mapPacket_base [OF mp] base norule by simp
  ultimately show ?thesis
    using alone_delivers [OF nm_reachable_inv [OF later inv']] reply eqs by simp
qed

text \<open>
  \<open>NatMapper\<close> lets nothing in by itself: an ingoing packet is passed exactly if its
  destination port has a forwarding rule or is the port of a connection that is alive, and it
  then goes to the address and port of the rule or to the internal end of that connection.
\<close>

lemma nat_ingoing_needs_connection:
  assumes reach: "nm_reachable (setDnatRules rules (NatMapper_new ipI ipE ct)) m"
    and "isIngoing pkt" and mp: "NatMapper_mapPacket now pkt m = (b, pkt', m')"
  shows "m' = m \<and> (b \<longrightarrow>
      (\<exists>rule. smap_find (<) rules (dport pkt) = Some rule \<and>
         pkt' = pkt\<lparr>dstIp := getDstIP rule, dport := getDport rule\<rparr>) \<or>
      (\<exists>i e. live (entries m) i = Some e \<and> getDport (extTuple e) = dport pkt \<and>
         pkt' = pkt\<lparr>dstIp := getSrcIP (intTuple e), dport := getSport (intTuple e)\<rparr>)) \<and>
    (\<not> b \<longrightarrow> pkt' = pkt \<and> smap_find (<) rules (dport pkt) = None)"
proof -
  have I: "nm_inv m" using nm_reachable_inv [OF reach] by simp
  have base: "dnatRules m = rules" using nm_reachable_base [OF reach] by simp
  show ?thesis
  proof (cases "smap_find (<) rules (dport pkt)")
    case (Some rule)
    then have "checkDnat m pkt = (True, pkt\<lparr>dstIp := getDstIP rule, dport := getDport rule\<rparr>)"
      using assms(2) base by (simp add: checkDnat_def)
    then show ?thesis using mp Some by (simp add: mapPacket_forwarded)
  next
    case None
    then have nf: "\<not> fst (checkDnat m pkt)" using assms(2) base by (simp add: checkDnat_ingoing)
    show ?thesis
    proof (cases "find_entry (<) (extPortMap m) (entries m) (dport pkt)")
      case (Some ie)
      obtain i e where ie: "ie = (i, e)" by (cases ie)
      with Some have f: "smap_find (<) (intPortMap m) (dport pkt) = Some i" and l: "live (entries m) i = Some e"
        by (simp_all add: find_entry_Some nm_invD(2) [OF I])
      have "getDport (extTuple e) = dport pkt"
        using nm_invD(4,5) [OF I] f live_present [OF l] by simp
      then show ?thesis using mp mapPacket_in [OF nf assms(2)] Some ie l None by auto
    qed (use mp mapPacket_in [OF nf assms(2)] None in simp)
  qed
qed


section \<open>SymNatMapper\<close>

lemma sym_fresh [simp]:
  "sn_inv (setDnatRules rules (SymNatMapper_new ipI ipE ct))"
  "dnatRules (setDnatRules rules (SymNatMapper_new ipI ipE ct)) = rules"
  "ipExt (setDnatRules rules (SymNatMapper_new ipI ipE ct)) = ipE"
  by simp (simp_all add: setDnatRules_def SymNatMapper_new_def)

definition same_entry :: "conn_entry \<Rightarrow> conn_entry \<Rightarrow> bool" where
  "same_entry e f \<longleftrightarrow> extTuple e = extTuple f \<and> intTuple e = intTuple f"

text \<open>A live entry was there before, with the same tuples, unless it is new.\<close>

lemma sn_step_entries:
  assumes "sn_step m m'" and "sn_inv m"
  shows "next_entry (sym_entries m) \<le> next_entry (sym_entries m')
     \<and> (\<forall>i e'. i < next_entry (sym_entries m) \<longrightarrow> live (sym_entries m') i = Some e' \<longrightarrow>
          (\<exists>e. live (sym_entries m) i = Some e \<and> same_entry e e'))"
  using assms
proof (induction rule: sn_step.induct)
  case (map_packet now pkt m b pkt' m')
  from map_packet(1) show ?case
    by (cases rule: sym_mapPacket_cases)
      (auto simp: live_rearm SymNatMapper_makeNewConn_def store_add_def same_entry_def)
qed (auto dest!: store_expireD store_reapD simp: SymNatMapper_removeFromMaps_def same_entry_def
      split: if_splits)

lemma sn_reachable_entries:
  assumes "sn_reachable m m'" and "sn_inv m" and "i < next_entry (sym_entries m)"
    and "live (sym_entries m') i = Some e'"
  shows "\<exists>e. live (sym_entries m) i = Some e \<and> same_entry e e'"
proof -
  have "next_entry (sym_entries m) \<le> next_entry (sym_entries m')
     \<and> (\<forall>e'. live (sym_entries m') i = Some e' \<longrightarrow>
          (\<exists>e. live (sym_entries m) i = Some e \<and> same_entry e e'))"
    using assms(1)
  proof (induction rule: sn_reachable.induct)
    case (step m1 m2)
    have "sn_inv m1" using sn_reachable_inv [OF step(1) assms(2)] .
    from sn_step_entries [OF step(2) this] step.IH assms(3) show ?case
      unfolding same_entry_def by (metis le_trans order_less_le_trans)
  qed (auto simp: same_entry_def)
  then show ?thesis using assms(4) by blast
qed

text \<open>After an outgoing packet there is a live connection for it, on the port it left from.\<close>

lemma sym_outgoing_connected:
  assumes inv: "sn_inv m" and "\<not> isIngoing pkt" and "smap_find (<) (dnatRules m) (sport pkt) = None"
    and mp: "SymNatMapper_mapPacket now pkt m = Some (b, pkt', m')"
  shows "b \<and> (\<exists>i e. live (sym_entries m') i = Some e \<and> intTuple e = tuple_of pkt
    \<and> i < next_entry (sym_entries m')
    \<and> pkt' = pkt\<lparr>srcIp := ipExt m, sport := getDport (extTuple e)\<rparr>)"
proof -
  have nf: "\<not> fst (checkDnat m pkt)" using assms by (simp add: checkDnat_outgoing)
  have inv': "sn_inv m'" using sn_inv_map [OF inv mp] .
  show ?thesis
  proof (cases "find_entry ct_less (sym_intPortMap m) (sym_entries m) (tuple_of pkt)")
    case None
    from mp [unfolded sym_mapPacket_out_new [OF nf assms(2) None]] obtain port
      where eq: "b" "pkt' = pkt\<lparr>srcIp := ipExt m, sport := port\<rparr>"
        "m' = SymNatMapper_makeNewConn now
          (ConnectionTuple (dstIp pkt) (ipExt m) (dport pkt) port (transProt pkt)) (tuple_of pkt) m"
      by (cases "mapPort m (tuple_of pkt)") auto
    then show ?thesis
      by (auto simp: SymNatMapper_makeNewConn_def store_add_def)
  next
    case (Some ie)
    then obtain i e where f:
      "find_entry ct_less (sym_intPortMap m) (sym_entries m) (tuple_of pkt) = Some (i, e)"
      by (cases ie) simp
    note eq = mp [unfolded sym_mapPacket_out_known [OF nf assms(2) f] option.inject prod.inject]
    from f have m: "smap_find ct_less (sym_intPortMap m) (tuple_of pkt) = Some i"
      "live (sym_entries m) i = Some e" by (simp_all add: find_entry_Some)
    have "intTuple e = tuple_of pkt" "getDstIP (extTuple e) = ipExt m" "i < next_entry (sym_entries m)"
      using sn_invD(4) [OF inv m(1)] sn_invD(5) [OF inv] sn_invD(3) [OF inv m(1)]
        live_present [OF m(2)] by simp_all
    moreover have "live (sym_entries m') i = Some (rearm now e)"
      "next_entry (sym_entries m') = next_entry (sym_entries m)"
      using eq m(2) by (auto simp: live_rearm)
    ultimately show ?thesis using eq by (intro conjI exI [of _ i] exI [of _ "rearm now e"]) simp_all
  qed
qed

lemma sym_delivers:
  assumes inv: "sn_inv m" and lv: "live (sym_entries m) i = Some e"
    and "smap_find (<) (dnatRules m) (getDport (extTuple e)) = None"
    and "isIngoing reply" and "dport reply = getDport (extTuple e)"
  shows "SymNatMapper_mapPacket t reply m = Some (True,
    reply\<lparr>dstIp := getSrcIP (intTuple e), dport := getSport (intTuple e)\<rparr>, m)"
proof -
  have "smap_find (<) (sym_extPortMap m) (dport reply) = Some i"
    using sn_invD(2) [OF inv] live_present [OF lv] assms(5) by metis
  then have "find_entry (<) (sym_extPortMap m) (sym_entries m) (dport reply) = Some (i, e)"
    using lv by (simp add: find_entry_Some)
  moreover have "\<not> fst (checkDnat m reply)" using assms by (simp add: checkDnat_ingoing)
  ultimately show ?thesis using assms(4) by (simp add: sym_mapPacket_in)
qed

text \<open>
  Every outgoing packet that the symmetric mapper translates (no forwarding rule on its
  source port) leaves with the external address and belongs to a connection; and in every
  later state in which that connection is alive, whatever steps come between, a packet to the
  mapped port, if no forwarding rule has that port, goes back to the host and port of the
  packet.
\<close>

lemma symnat_reply_reaches_host:
  assumes reach: "sn_reachable (setDnatRules rules (SymNatMapper_new ipI ipE ct)) m"
    and out: "\<not> isIngoing pkt" and "smap_find (<) rules (sport pkt) = None"
    and mp: "SymNatMapper_mapPacket now pkt m = Some (b, pkt', m')"
    and norule: "smap_find (<) rules (sport pkt') = None"
  shows "b \<and> srcIp pkt' = ipE \<and> (\<exists>i. live (sym_entries m') i \<noteq> None \<and>
    (\<forall>m'' t reply. sn_reachable m' m'' \<and> live (sym_entries m'') i \<noteq> None \<and>
       isIngoing reply \<and> dport reply = sport pkt' \<longrightarrow>
       SymNatMapper_mapPacket t reply m'' =
         Some (True, reply\<lparr>dstIp := srcIp pkt, dport := sport pkt\<rparr>, m'')))"
proof -
  have inv: "sn_inv m" using sn_reachable_inv [OF reach] by simp
  have base: "dnatRules m = rules" "ipExt m = ipE" using sn_reachable_base [OF reach] by simp_all
  have inv': "sn_inv m'" using sn_inv_map [OF inv mp] .
  from sym_outgoing_connected [OF inv out _ mp] assms(3) base obtain i e where b
    and i: "live (sym_entries m') i = Some e" "intTuple e = tuple_of pkt"
      "i < next_entry (sym_entries m')"
    and p: "pkt' = pkt\<lparr>srcIp := ipE, sport := getDport (extTuple e)\<rparr>" by auto
  have sp: "sport pkt' = getDport (extTuple e)" "srcIp pkt' = ipE" by (simp_all add: p)
  have "SymNatMapper_mapPacket t reply m'' =
      Some (True, reply\<lparr>dstIp := srcIp pkt, dport := sport pkt\<rparr>, m'')"
    if H: "sn_reachable m' m''" "live (sym_entries m'') i \<noteq> None" "isIngoing reply"
      "dport reply = sport pkt'" for m'' t reply
  proof -
    from H(2) obtain e'' where e'': "live (sym_entries m'') i = Some e''" by blast
    from sn_reachable_entries [OF H(1) inv' i(3) e''] i(1) have t: "same_entry e e''" by simp
    have base': "dnatRules m'' = rules"
      using sn_reachable_base [OF H(1)] sym_mapPacket_base [OF mp] base by simp
    from t i(2) have t2: "intTuple e'' = tuple_of pkt" "getDport (extTuple e'') = sport pkt'"
      by (simp_all add: same_entry_def sp)
    have "SymNatMapper_mapPacket t reply m'' = Some (True,
        reply\<lparr>dstIp := getSrcIP (intTuple e''), dport := getSport (intTuple e'')\<rparr>, m'')"
      using sym_delivers [OF sn_reachable_inv [OF H(1) inv'] e'' _ H(3)] H(4) norule base' t2(2)
      by simp
    then show ?thesis unfolding t2(1) by (simp add: tuple_of_def)
  qed
  then show ?thesis using \<open>b\<close> i(1) sp(2) by blast
qed

text \<open>
  The symmetric mapper gives every connection a port of its own: while the connection of a
  translated packet is alive, packets with another connection tuple leave from other ports.
\<close>

lemma symnat_ports_distinct:
  assumes reach: "sn_reachable (setDnatRules rules (SymNatMapper_new ipI ipE ct)) m"
    and out: "\<not> isIngoing pkt" and norule: "smap_find (<) rules (sport pkt) = None"
    and mp: "SymNatMapper_mapPacket now pkt m = Some (b, pkt', m')"
  shows "\<exists>i. live (sym_entries m') i \<noteq> None \<and>
    (\<forall>m1 t q b1 q' m2. sn_reachable m' m1 \<and> live (sym_entries m1) i \<noteq> None \<and>
       \<not> isIngoing q \<and> smap_find (<) rules (sport q) = None \<and> tuple_of q \<noteq> tuple_of pkt \<and>
       SymNatMapper_mapPacket t q m1 = Some (b1, q', m2) \<and> live (sym_entries m2) i \<noteq> None \<longrightarrow>
       sport q' \<noteq> sport pkt')"
proof -
  have inv: "sn_inv m" using sn_reachable_inv [OF reach] by simp
  have base: "dnatRules m = rules" using sn_reachable_base [OF reach] by simp
  have inv': "sn_inv m'" using sn_inv_map [OF inv mp] .
  from sym_outgoing_connected [OF inv out _ mp] norule base obtain i e
    where i: "live (sym_entries m') i = Some e" "intTuple e = tuple_of pkt"
      "i < next_entry (sym_entries m')"
    and p: "pkt' = pkt\<lparr>srcIp := ipExt m, sport := getDport (extTuple e)\<rparr>" by auto
  have sp: "sport pkt' = getDport (extTuple e)" by (simp add: p)
  have "sport q' \<noteq> sport pkt'"
    if H: "sn_reachable m' m1" "\<not> isIngoing q" "smap_find (<) rules (sport q) = None"
      "tuple_of q \<noteq> tuple_of pkt" "SymNatMapper_mapPacket t q m1 = Some (b1, q', m2)"
      "live (sym_entries m2) i \<noteq> None" for m1 t q b1 q' m2
  proof -
    have inv1: "sn_inv m1" using sn_reachable_inv [OF H(1) inv'] .
    have inv2: "sn_inv m2" using sn_inv_map [OF inv1 H(5)] .
    have r2: "sn_reachable m' m2" using sn_reachable.step [OF H(1) sn_step.map_packet [OF H(5)]] .
    have "dnatRules m1 = rules"
      using sn_reachable_base [OF H(1)] sym_mapPacket_base [OF mp] base by simp
    with sym_outgoing_connected [OF inv1 H(2) _ H(5)] H(3) obtain j f
      where j: "live (sym_entries m2) j = Some f" "intTuple f = tuple_of q"
        and q: "q' = q\<lparr>srcIp := ipExt m1, sport := getDport (extTuple f)\<rparr>" by auto
    have sq: "sport q' = getDport (extTuple f)" by (simp add: q)
    from H(6) obtain e2 where e2: "live (sym_entries m2) i = Some e2" by blast
    from sn_reachable_entries [OF r2 inv' i(3) e2] i(1) have t: "same_entry e e2" by simp
    have "i \<noteq> j" using j e2 t i(2) H(4) by (auto simp: same_entry_def)
    then show ?thesis
      using sn_inv_ports [OF inv2 live_present [OF e2] live_present [OF j(1)]] t sp sq
      by (auto simp: same_entry_def)
  qed
  then show ?thesis using i(1) by blast
qed

lemma mapPort_none: "mapPort m tup = None \<longleftrightarrow> (\<forall>p. smap_find (<) (sym_extPortMap m) p \<noteq> None)"
proof
  assume n: "mapPort m tup = None"
  have "smap_find (<) (sym_extPortMap m) r \<noteq> None" for r
    using mapPort_loop_some [of "sym_extPortMap m" r "getSport tup"] n by (auto simp: mapPort_def)
  then show "\<forall>p. smap_find (<) (sym_extPortMap m) p \<noteq> None" by blast
next
  assume "\<forall>p. smap_find (<) (sym_extPortMap m) p \<noteq> None"
  then show "mapPort m tup = None" using mapPort_free by (metis option.exhaust)
qed

lemma mapPort_some:
  "mapPort m tup = Some q \<longleftrightarrow> smap_find (<) (sym_extPortMap m) q = None \<and>
     (\<forall>i < unat (q - getSport tup). smap_find (<) (sym_extPortMap m) (getSport tup + of_nat i) \<noteq> None)"
  (is "?S \<longleftrightarrow> ?F")
proof
  let ?ext = "sym_extPortMap m" and ?p = "getSport tup"
  assume S: ?S
  then have q: "smap_find (<) ?ext q = None" by (rule mapPort_free)
  obtain n where n: "mapPort_loop ?ext ?p = Some (?p + of_nat n)"
    "\<And>i. i < n \<Longrightarrow> smap_find (<) ?ext (?p + of_nat i) \<noteq> None"
    using mapPort_loop_some [OF q, of ?p] by blast
  from n(1) S have qn: "q = ?p + of_nat n" by (simp add: mapPort_def)
  have "unat (q - ?p) \<le> n"
    unfolding qn by (simp add: unat_of_nat)
  then show ?F using q n(2) by simp
next
  let ?ext = "sym_extPortMap m" and ?p = "getSport tup"
  assume F: ?F
  have "mapPort_loop ?ext ?p = Some (?p + of_nat (unat (q - ?p)))"
    by (rule mapPort_loop_first) (use F in simp_all)
  then show ?S by (simp add: mapPort_def)
qed

text \<open>
  C20. The port search of the symmetric mapper ends exactly if some port is free, and then
  returns the first free port at or after the packet's source port in cyclic order; with all
  65536 ports in the map, the call never returns and the mapper's mutex stays locked.
\<close>

theorem mapPort_search:
  "(mapPort m tup = None \<longleftrightarrow> (\<forall>p. smap_find (<) (sym_extPortMap m) p \<noteq> None)) \<and>
   (mapPort m tup = Some q \<longleftrightarrow>
      smap_find (<) (sym_extPortMap m) q = None \<and>
      (\<forall>i < unat (q - getSport tup). smap_find (<) (sym_extPortMap m) (getSport tup + of_nat i) \<noteq> None))"
  using mapPort_none mapPort_some by (rule conjI)

lemma mapPort_search_witness:
  "mapPort (SymNatMapper_new 1 2 60) (ConnectionTuple 1 2 500 3 17) = Some 500"
  using mapPort_search [of "SymNatMapper_new 1 2 60" "ConnectionTuple 1 2 500 3 17" 500]
  by (simp add: SymNatMapper_new_def)

section \<open>Port forwarding and its answers\<close>

text \<open>The port-preserving mapper rewrites of an outgoing packet the source address only.\<close>

lemma same_sport: "p\<lparr>srcIp := x, sport := sport p\<rparr> = (p\<lparr>srcIp := x\<rparr> :: packet)"
  by (cases p) simp

lemma nat_keeps_sport:
  assumes inv: "nm_inv m" and "\<not> isIngoing pkt" and mp: "NatMapper_mapPacket now pkt m = (b, pkt', m')"
  shows "b \<and> pkt' = pkt\<lparr>srcIp := ipExt m\<rparr>"
proof (cases "fst (checkDnat m pkt)")
  case True
  then show ?thesis using mp assms(2)
    by (auto simp: mapPacket_forwarded checkDnat_def split: option.splits)
next
  case False
  show ?thesis
  proof (cases "find_entry (<) (intPortMap m) (entries m) (sport pkt)")
    case None
    note mp [unfolded mapPacket_out_new [OF False assms(2) None] prod.inject]
    then have "b" and p: "pkt\<lparr>srcIp := ipExt m, sport := sport pkt\<rparr> = pkt'" by blast+
    show ?thesis unfolding p [symmetric] same_sport using \<open>b\<close> by simp
  next
    case (Some ie)
    then obtain i e where f: "find_entry (<) (intPortMap m) (entries m) (sport pkt) = Some (i, e)"
      by (cases ie) simp
    then have m: "smap_find (<) (intPortMap m) (sport pkt) = Some i" "present (entries m) i e"
      by (auto simp: find_entry_Some live_present)
    have e: "getDport (extTuple e) = sport pkt" "getDstIP (extTuple e) = ipExt m"
      using nm_invD(4-6) [OF inv] m by simp_all
    note mp [unfolded mapPacket_out_known [OF False assms(2) f] prod.inject e]
    then have "b" and p: "pkt\<lparr>srcIp := ipExt m, sport := sport pkt\<rparr> = pkt'" by blast+
    show ?thesis unfolding p [symmetric] same_sport using \<open>b\<close> by simp
  qed
qed

text \<open>
  C23. Port forwarding with \<open>NatMapper\<close>: a packet to the external port of a rule goes to the
  host and port of the rule, without a connection being made. The answer of that host passes
  with the external address as its source and nothing else changed, so from the port the host
  answered from: the remote gets it from the port it sent to exactly if the rule does not change
  the port number.
\<close>

theorem dnat_answer_port:
  assumes reach: "nm_reachable (setDnatRules rules (NatMapper_new ipI ipE ct)) m"
    and rule: "smap_find (<) rules extPort = Some r"
    and req: "isIngoing pkt" "dport pkt = extPort"
    and ans: "\<not> isIngoing ans" "srcIp ans = getDstIP r" "sport ans = getDport r"
    and mp: "NatMapper_mapPacket t ans m = (b, ans', m')"
  shows "NatMapper_mapPacket now pkt m = (True, pkt\<lparr>dstIp := getDstIP r, dport := getDport r\<rparr>, m)
    \<and> b \<and> ans' = ans\<lparr>srcIp := ipE\<rparr> \<and> (sport ans' = extPort \<longleftrightarrow> getDport r = extPort)"
proof -
  have inv: "nm_inv m" using nm_reachable_inv [OF reach] by simp
  have base: "dnatRules m = rules" "ipExt m = ipE" using nm_reachable_base [OF reach] by simp_all
  have "checkDnat m pkt = (True, pkt\<lparr>dstIp := getDstIP r, dport := getDport r\<rparr>)"
    using rule req base by (simp add: checkDnat_def)
  then show ?thesis
    using nat_keeps_sport [OF inv ans(1) mp] ans base by (simp add: mapPacket_forwarded)
qed

section \<open>A deleter that runs late\<close>

text \<open>
  C24. The deleter of a dead entry erases the keys of its connection whatever they now map to.
  If a packet sets up a new connection on the port after the old entry has died and before its
  deleter has run, the deleter cuts the new connection off: its entry is alive, yet every
  packet to its port is dropped.
\<close>

theorem nat_late_deleter_drops:
  assumes reach: "nm_reachable (setDnatRules rules (NatMapper_new ipI ipE ct)) m"
    and out: "\<not> isIngoing pkt" and norule: "smap_find (<) rules (sport pkt) = None"
    and gone: "find_entry (<) (intPortMap m) (entries m) (sport pkt) = None"
    and mp: "NatMapper_mapPacket now pkt m = (b, pkt', m')"
    and reap: "store_reap k (entries m') = Some ((j, e), st)" and "getSport (intTuple e) = sport pkt"
    and reply: "isIngoing reply" "dport reply = sport pkt'"
  shows "let m'' = NatMapper_removeFromMaps (intTuple e) (extTuple e) (m'\<lparr>entries := st\<rparr>) in
    live (entries m'') (next_entry (entries m)) \<noteq> None
    \<and> NatMapper_mapPacket t reply m'' = (False, reply, m'')"
proof -
  have inv: "nm_inv m" using nm_reachable_inv [OF reach] by simp
  have base: "dnatRules m = rules" using nm_reachable_base [OF reach] by simp
  have inv': "nm_inv m'" using nm_inv_map [OF inv mp] .
  have sp: "sport pkt' = sport pkt" using nat_keeps_sport [OF inv out mp] by simp
  have nf: "\<not> fst (checkDnat m pkt)" using out norule base by (simp add: checkDnat_outgoing)
  note m' = mp [unfolded mapPacket_out_new [OF nf out gone] prod.inject]
  have l: "live (entries m') (next_entry (entries m)) \<noteq> None"
    using m' by (auto simp: NatMapper_makeNewConn_def store_add_def)
  let ?m = "NatMapper_removeFromMaps (intTuple e) (extTuple e) (m'\<lparr>entries := st\<rparr>)"
  from store_reapD [OF reap] have pr: "present (entries m') j e" and ls: "live st = live (entries m')"
    by (auto simp: present_def)
  have "getDport (extTuple e) = dport reply" using nm_invD(5) [OF inv' pr] assms(7) reply(2) sp by simp
  then have "find_entry (<) (extPortMap ?m) (entries ?m) (dport reply) = None"
    by (simp add: find_entry_def NatMapper_removeFromMaps_def)
  moreover have "dnatRules ?m = rules"
    using mapPacket_base [OF mp] base by (simp add: NatMapper_removeFromMaps_def)
  then have "\<not> fst (checkDnat ?m reply)" using reply sp norule by (simp add: checkDnat_ingoing)
  ultimately have "NatMapper_mapPacket t reply ?m = (False, reply, ?m)"
    using reply(1) by (simp add: mapPacket_in)
  then show ?thesis using l ls by (simp add: Let_def NatMapper_removeFromMaps_def)
qed

section \<open>Concrete runs\<close>

lemmas run_simps = NatMapper_mapPacket_def SymNatMapper_mapPacket_def checkDnat_def tuple_of_def
  find_entry_def lock_def NatMapper_makeNewConn_def SymNatMapper_makeNewConn_def mapPort_def
  mapPort_loop.simps store_add_def setDnatRules_def NatMapper_new_def SymNatMapper_new_def
  example_packet_def empty_store_def equiv_key_def store_rearm_def Let_def

lemma nat_reply_reaches_host_witness:
  "NatMapper_mapPacket 7 (example_packet True 9 2 80 1000)
     (snd (snd (NatMapper_mapPacket 0 (example_packet False 10 9 1000 80)
       (setDnatRules [] (NatMapper_new 1 2 60))))) =
   (True, example_packet True 9 10 80 1000,
     snd (snd (NatMapper_mapPacket 0 (example_packet False 10 9 1000 80)
       (setDnatRules [] (NatMapper_new 1 2 60)))))"
proof -
  let ?m = "setDnatRules [] (NatMapper_new 1 2 60)" and ?p = "example_packet False 10 9 1000 80"
  let ?r = "NatMapper_mapPacket 0 ?p ?m"
  have "fst ?r \<and> fst (snd ?r) = ?p\<lparr>srcIp := 2\<rparr>
    \<and> NatMapper_mapPacket 7 (example_packet True 9 2 80 1000) (snd (snd ?r)) =
       (True, (example_packet True 9 2 80 1000)\<lparr>dstIp := srcIp ?p, dport := sport ?p\<rparr>, snd (snd ?r))"
  proof (rule nat_reply_reaches_host [OF nm_reachable.start _ _ _ _ nm_reachable.start])
    show "\<forall>j e. present (entries ?m) j e \<longrightarrow> getSport (intTuple e) \<noteq> sport ?p"
      by (simp add: present_def setDnatRules_def NatMapper_new_def empty_store_def)
    show "live (entries (snd (snd ?r))) (next_entry (entries ?m)) \<noteq> None"
      by (simp add: run_simps)
    show "dport (example_packet True 9 2 80 1000) = sport (fst (snd ?r))" by (simp add: run_simps)
  qed (simp_all add: example_packet_def)
  then show ?thesis by (simp add: example_packet_def)
qed


definition example_rules :: "(u16, connection_tuple) smap" where
  "example_rules = [(5, ConnectionTuple 0 77 0 6 0)]"

lemma nat_ingoing_needs_connection_witness:
  "\<exists>pkt'. NatMapper_mapPacket 0 (example_packet True 9 2 80 5)
     (setDnatRules example_rules (NatMapper_new 1 2 60)) =
       (True, pkt', setDnatRules example_rules (NatMapper_new 1 2 60))
     \<and> dstIp pkt' = 77 \<and> dport pkt' = 6"
proof -
  let ?m = "setDnatRules example_rules (NatMapper_new 1 2 60)" and ?p = "example_packet True 9 2 80 5"
  obtain b q m where r: "NatMapper_mapPacket 0 ?p ?m = (b, q, m)" by (metis prod_cases3)
  have "isIngoing ?p" by (simp add: example_packet_def)
  from nat_ingoing_needs_connection [OF nm_reachable.start this r]
  have "m = ?m" "b \<Longrightarrow> dstIp q = 77 \<and> dport q = 6 \<or>
      (\<exists>i e. live (entries ?m) i = Some e)" "b \<or> smap_find (<) example_rules 5 = None"
    by (auto simp: example_rules_def equiv_key_def example_packet_def)
  then show ?thesis using r
    by (auto simp: setDnatRules_def NatMapper_new_def empty_store_def example_rules_def equiv_key_def)
qed

lemma sym_example:
  "SymNatMapper_mapPacket 0 (example_packet False 10 9 1000 80) (setDnatRules [] (SymNatMapper_new 1 2 60)) =
     Some (True, example_packet False 2 9 1000 80,
       SymNatMapper_makeNewConn 0 (ConnectionTuple 9 2 80 1000 17) (ConnectionTuple 10 9 1000 80 17)
         (setDnatRules [] (SymNatMapper_new 1 2 60)))"
  by (simp add: run_simps)

lemma symnat_reply_reaches_host_witness:
  "\<exists>i m'. SymNatMapper_mapPacket 0 (example_packet False 10 9 1000 80)
        (setDnatRules [] (SymNatMapper_new 1 2 60)) = Some (True, example_packet False 2 9 1000 80, m')
     \<and> live (sym_entries m') i \<noteq> None
     \<and> SymNatMapper_mapPacket 3 (example_packet True 9 2 80 1000) m' =
         Some (True, example_packet True 9 10 80 1000, m')"
proof -
  let ?p = "example_packet False 10 9 1000 80" and ?r = "example_packet True 9 2 80 1000"
  have h: "\<not> isIngoing ?p" "smap_find (<) [] (sport ?p) = None"
    "smap_find (<) [] (sport (example_packet False 2 9 1000 80)) = None"
    "isIngoing ?r" "dport ?r = sport (example_packet False 2 9 1000 80)"
    by (simp_all add: example_packet_def)
  obtain m' where mp: "SymNatMapper_mapPacket 0 ?p (setDnatRules [] (SymNatMapper_new 1 2 60)) =
      Some (True, example_packet False 2 9 1000 80, m')" using sym_example by blast
  obtain i where i: "live (sym_entries m') i \<noteq> None"
    "SymNatMapper_mapPacket 3 ?r m' = Some (True, ?r\<lparr>dstIp := srcIp ?p, dport := sport ?p\<rparr>, m')"
    using symnat_reply_reaches_host [OF sn_reachable.start h(1,2) mp h(3)] h(4,5) sn_reachable.start
    by blast
  moreover have "?r\<lparr>dstIp := srcIp ?p, dport := sport ?p\<rparr> = example_packet True 9 10 80 1000"
    by (simp add: example_packet_def)
  ultimately show ?thesis using mp by (intro exI [of _ i] exI [of _ m']) simp
qed

lemma symnat_ports_distinct_witness:
  "\<exists>m' m2 q'. SymNatMapper_mapPacket 0 (example_packet False 10 9 1000 80)
        (setDnatRules [] (SymNatMapper_new 1 2 60)) = Some (True, example_packet False 2 9 1000 80, m')
     \<and> SymNatMapper_mapPacket 1 (example_packet False 11 9 1000 80) m' = Some (True, q', m2)
     \<and> sport q' \<noteq> 1000"
proof -
  let ?p = "example_packet False 10 9 1000 80" and ?q = "example_packet False 11 9 1000 80"
  let ?m = "setDnatRules [] (SymNatMapper_new 1 2 60)"
  define m' where "m' = SymNatMapper_makeNewConn 0 (ConnectionTuple 9 2 80 1000 17)
    (ConnectionTuple 10 9 1000 80 17) ?m"
  have h: "\<not> isIngoing ?p" "smap_find (<) ([] :: (u16, connection_tuple) smap) (sport ?p) = None" "\<not> isIngoing ?q"
    "smap_find (<) ([] :: (u16, connection_tuple) smap) (sport ?q) = None" "tuple_of ?q \<noteq> tuple_of ?p"
    "sport (example_packet False 2 9 1000 80) = 1000"
    by (simp_all add: example_packet_def tuple_of_def)
  have mp: "SymNatMapper_mapPacket 0 ?p ?m = Some (True, example_packet False 2 9 1000 80, m')"
    using sym_example m'_def by simp
  obtain q' m2 where q: "SymNatMapper_mapPacket 1 ?q m' = Some (True, q', m2)"
    and l: "live (sym_entries m2) 0 \<noteq> None" "\<And>i. i \<noteq> 0 \<Longrightarrow> live (sym_entries m') i = None"
    by (simp add: m'_def run_simps ct_less_def tie5_def)
  from symnat_ports_distinct [OF sn_reachable.start h(1,2) mp] obtain i
    where i: "live (sym_entries m') i \<noteq> None" and
      d: "\<forall>m1 t q b1 q' m2. sn_reachable m' m1 \<and> live (sym_entries m1) i \<noteq> None \<and>
       \<not> isIngoing q \<and> smap_find (<) ([] :: (u16, connection_tuple) smap) (sport q) = None \<and> tuple_of q \<noteq> tuple_of ?p \<and>
       SymNatMapper_mapPacket t q m1 = Some (b1, q', m2) \<and> live (sym_entries m2) i \<noteq> None \<longrightarrow>
       sport q' \<noteq> sport (example_packet False 2 9 1000 80)"
    by (elim exE conjE) (rule that)
  have i0: "i = 0" using i l(2) [of i] by (cases "i = 0") simp_all
  have "sport q' \<noteq> sport (example_packet False 2 9 1000 80)"
    by (rule d [rule_format, of m' ?q 1 True q' m2])
      (intro conjI sn_reachable.start i h(3-5) q, rule l(1) [folded i0])
  then show ?thesis
    by (intro exI [of _ m'] exI [of _ m2] exI [of _ q'] conjI mp q) (simp only: h(6) not_False_eq_True)
qed

lemma dnat_answer_port_witness:
  "\<exists>ans' m'. NatMapper_mapPacket 0 (example_packet False 77 9 6 80)
      (setDnatRules example_rules (NatMapper_new 1 2 60)) = (True, ans', m')
     \<and> ans' = example_packet False 2 9 6 80 \<and> sport ans' \<noteq> 5"
proof -
  let ?m = "setDnatRules example_rules (NatMapper_new 1 2 60)"
  let ?p = "example_packet True 9 2 80 5" and ?a = "example_packet False 77 9 6 80"
  obtain b q m where r: "NatMapper_mapPacket 0 ?a ?m = (b, q, m)" by (metis prod_cases3)
  have "b \<and> q = ?a\<lparr>srcIp := 2\<rparr> \<and> (sport q = 5 \<longleftrightarrow> getDport (ConnectionTuple 0 77 0 6 0) = 5)"
    using dnat_answer_port [OF nm_reachable.start _ _ _ _ _ _ r, of 5 "ConnectionTuple 0 77 0 6 0" ?p]
    by (simp add: example_packet_def example_rules_def equiv_key_def)
  then show ?thesis using r by (simp add: example_packet_def)
qed

lemma nat_late_deleter_drops_witness:
  "\<exists>m i. live (entries m) i \<noteq> None
     \<and> NatMapper_mapPacket 9 (example_packet True 9 2 80 1000) m = (False, example_packet True 9 2 80 1000, m)"
proof -
  let ?p = "example_packet False 10 9 1000 80" and ?m0 = "setDnatRules [] (NatMapper_new 1 2 60)"
  let ?e = "start 0 (ConnectionEntry_new 60 (ConnectionTuple 9 2 80 1000 17) (ConnectionTuple 10 9 1000 80 17))"
  define m1 where "m1 = NatMapper_makeNewConn 0 (ConnectionTuple 9 2 80 1000 17)
    (ConnectionTuple 10 9 1000 80 17) ?m0"
  define st where "st = (entries m1)\<lparr>live := (live (entries m1))(0 := None), dying := [(0, ?e)]\<rparr>"
  define m2 where "m2 = m1\<lparr>entries := st\<rparr>"
  have "NatMapper_mapPacket 0 ?p ?m0 = (True, example_packet False 2 9 1000 80, m1)"
    by (simp add: run_simps m1_def)
  then have r1: "nm_reachable ?m0 m1" by (rule nm_reachable.step [OF nm_reachable.start nm_step.map_packet])
  have "timer ?e = Some 60000000" by (simp add: start_def armTimer_def ConnectionEntry_new_def)
  then have "store_expire 60000000 0 (entries m1) = Some st"
    by (simp add: st_def m1_def run_simps store_expire_def)
  then have r2: "nm_reachable ?m0 m2"
    unfolding m2_def by (rule nm_reachable.step [OF r1 nm_step.expire])
  have none: "find_entry (<) (intPortMap m2) (entries m2) (sport ?p) = None"
    by (simp add: m2_def m1_def st_def run_simps)
  obtain m3 where mp: "NatMapper_mapPacket 60000001 ?p m2 = (True, example_packet False 2 9 1000 80, m3)"
    and d: "dying (entries m3) = [(0, ?e)]"
    by (simp add: m2_def m1_def st_def run_simps)
  have reap: "store_reap 0 (entries m3) = Some ((0, ?e), (entries m3)\<lparr>dying := []\<rparr>)"
    by (simp add: store_reap_def d)
  have "let m'' = NatMapper_removeFromMaps (intTuple ?e) (extTuple ?e) (m3\<lparr>entries := (entries m3)\<lparr>dying := []\<rparr>\<rparr>)
    in live (entries m'') (next_entry (entries m2)) \<noteq> None
    \<and> NatMapper_mapPacket 9 (example_packet True 9 2 80 1000) m'' = (False, example_packet True 9 2 80 1000, m'')"
    by (rule nat_late_deleter_drops [OF r2 _ _ none mp reap]) (simp_all add: example_packet_def)
  then show ?thesis by (auto simp: Let_def)
qed

end
