(* ===== verification/Nat_Filters.thy ===== *)
theory Nat_Filters
  imports Nat_Mapper
begin

text \<open>
  The packet filters of nat\_filters.hpp and nat\_filters.cpp. \<open>PortrSymNatFilter\<close> and
  \<open>AddrrNatFilter\<close> have the same code over maps with different key comparisons: the code is
  \<open>restricted_filterPacket\<close>, with the comparison as its argument, and the two classes are
  its instances at \<open>ct_less\<close> and \<open>addrr_less\<close>. The theory shows that an ingoing packet is
  passed only if it was asked for, and that with prompt deleters a filter is a table of
  deadlines.
\<close>

section \<open>Classes\<close>

record nat_filter =
  nf_connectionTimeout :: u32
  nf_dnatRules :: "(u16, connection_tuple) smap"

definition nf_setDnatRules ::
  "(u16, connection_tuple) smap \<Rightarrow> 'a nat_filter_scheme \<Rightarrow> 'a nat_filter_scheme" where
  "nf_setDnatRules rules f = f\<lparr>nf_dnatRules := rules\<rparr>"

definition nf_removeDnatRule :: "u16 \<Rightarrow> 'a nat_filter_scheme \<Rightarrow> 'a nat_filter_scheme" where
  "nf_removeDnatRule extPort f = f\<lparr>nf_dnatRules := smap_erase (<) extPort (nf_dnatRules f)\<rparr>"

record restricted_filter = nat_filter +
  connMap :: "(connection_tuple, nat) smap"
  connEntries :: entry_store

definition restricted_filter_new :: "u32 \<Rightarrow> restricted_filter" where
  "restricted_filter_new to =
     \<lparr>nf_connectionTimeout = to, nf_dnatRules = [], connMap = [], connEntries = empty_store\<rparr>"

text \<open>The key of an outgoing packet: the tuple of a packet that answers it.\<close>

definition extTup_of :: "packet \<Rightarrow> connection_tuple" where
  "extTup_of pkt = ConnectionTuple (dstIp pkt) (srcIp pkt) (dport pkt) (sport pkt) (transProt pkt)"

definition restricted_filterPacket ::
  "(connection_tuple \<Rightarrow> connection_tuple \<Rightarrow> bool) \<Rightarrow> int \<Rightarrow> packet \<Rightarrow> restricted_filter
     \<Rightarrow> bool \<times> restricted_filter" where
  "restricted_filterPacket lt now pkt f =
     (let tuple = tuple_of pkt in
      if isIngoing pkt then
        (if smap_find lt (connMap f) tuple \<noteq> None then (True, f)
         else if smap_find (<) (nf_dnatRules f) (dport pkt) \<noteq> None then (True, f)
         else (False, f))
      else
        (let extTup = extTup_of pkt in
         case find_entry lt (connMap f) (connEntries f) extTup of
           Some (i, ent) \<Rightarrow> (True, f\<lparr>connEntries := store_rearm now i (connEntries f)\<rparr>)
         | None \<Rightarrow>
             (let (entry, st) =
                    store_add (start now (ConnectionEntry_new (nf_connectionTimeout f) extTup tuple))
                      (connEntries f)
              in (True, f\<lparr>connMap := smap_insert lt extTup entry (connMap f), connEntries := st\<rparr>))))"

definition restricted_removeFromMaps ::
  "(connection_tuple \<Rightarrow> connection_tuple \<Rightarrow> bool) \<Rightarrow> connection_tuple \<Rightarrow> restricted_filter
     \<Rightarrow> restricted_filter" where
  "restricted_removeFromMaps lt tup f =
     (if smap_find lt (connMap f) tup \<noteq> None
      then f\<lparr>connMap := smap_erase lt tup (connMap f)\<rparr> else f)"

definition PortrSymNatFilter_filterPacket :: "int \<Rightarrow> packet \<Rightarrow> restricted_filter \<Rightarrow> bool \<times> restricted_filter" where
  "PortrSymNatFilter_filterPacket now pkt f = restricted_filterPacket ct_less now pkt f"

definition PortrSymNatFilter_removeFromMaps :: "connection_tuple \<Rightarrow> restricted_filter \<Rightarrow> restricted_filter" where
  "PortrSymNatFilter_removeFromMaps tup f = restricted_removeFromMaps ct_less tup f"

definition AddrrNatFilter_filterPacket :: "int \<Rightarrow> packet \<Rightarrow> restricted_filter \<Rightarrow> bool \<times> restricted_filter" where
  "AddrrNatFilter_filterPacket now pkt f = restricted_filterPacket addrr_less now pkt f"

definition AddrrNatFilter_removeFromMaps :: "connection_tuple \<Rightarrow> restricted_filter \<Rightarrow> restricted_filter" where
  "AddrrNatFilter_removeFromMaps tup f = restricted_removeFromMaps addrr_less tup f"

definition FullconeNatFilter_filterPacket :: "packet \<Rightarrow> nat_filter \<Rightarrow> bool \<times> nat_filter" where
  "FullconeNatFilter_filterPacket pkt f = (True, f)"

section \<open>Runs\<close>

text \<open>What a filter can go through; a \<open>Filtered\<close> event records the packet and the verdict.\<close>

datatype filter_event = Filtered int packet bool | Expired int nat | Deleted nat

inductive rf_run ::
  "(connection_tuple \<Rightarrow> connection_tuple \<Rightarrow> bool) \<Rightarrow> restricted_filter \<Rightarrow> filter_event list
     \<Rightarrow> restricted_filter \<Rightarrow> bool" for lt f0 where
  start: "rf_run lt f0 [] f0"
| filtered: "rf_run lt f0 es f \<Longrightarrow> restricted_filterPacket lt now pkt f = (b, f') \<Longrightarrow>
    rf_run lt f0 (es @ [Filtered now pkt b]) f'"
| expired: "rf_run lt f0 es f \<Longrightarrow> store_expire now i (connEntries f) = Some st \<Longrightarrow>
    rf_run lt f0 (es @ [Expired now i]) (f\<lparr>connEntries := st\<rparr>)"
| deleted: "rf_run lt f0 es f \<Longrightarrow> store_reap k (connEntries f) = Some ((i, e), st) \<Longrightarrow>
    rf_run lt f0 (es @ [Deleted k]) (restricted_removeFromMaps lt (extTuple e) (f\<lparr>connEntries := st\<rparr>))"

section \<open>The branches of \<open>filterPacket\<close>\<close>

lemma rf_in:
  "isIngoing pkt \<Longrightarrow> restricted_filterPacket lt now pkt f =
     (smap_find lt (connMap f) (tuple_of pkt) \<noteq> None \<or>
      smap_find (<) (nf_dnatRules f) (dport pkt) \<noteq> None, f)"
  by (simp add: restricted_filterPacket_def Let_def)

lemma rf_out_known:
  "\<not> isIngoing pkt \<Longrightarrow> find_entry lt (connMap f) (connEntries f) (extTup_of pkt) = Some (i, e) \<Longrightarrow>
   restricted_filterPacket lt now pkt f = (True, f\<lparr>connEntries := store_rearm now i (connEntries f)\<rparr>)"
  by (simp add: restricted_filterPacket_def Let_def)

lemma rf_out_new:
  "\<not> isIngoing pkt \<Longrightarrow> find_entry lt (connMap f) (connEntries f) (extTup_of pkt) = None \<Longrightarrow>
   restricted_filterPacket lt now pkt f =
     (True, f\<lparr>connMap := smap_insert lt (extTup_of pkt) (next_entry (connEntries f)) (connMap f),
       connEntries := snd (store_add (start now (ConnectionEntry_new (nf_connectionTimeout f)
         (extTup_of pkt) (tuple_of pkt))) (connEntries f))\<rparr>)"
  by (simp add: restricted_filterPacket_def Let_def store_add_def)

lemma rf_outgoing_passes: "\<not> isIngoing pkt \<Longrightarrow> fst (restricted_filterPacket lt now pkt f)"
  by (cases "find_entry lt (connMap f) (connEntries f) (extTup_of pkt)")
    (auto simp: rf_out_new rf_out_known)

lemma rf_rules: "snd (restricted_filterPacket lt now pkt f) = f' \<Longrightarrow> nf_dnatRules f' = nf_dnatRules f
    \<and> nf_connectionTimeout f' = nf_connectionTimeout f"
  by (cases "isIngoing pkt"; cases "find_entry lt (connMap f) (connEntries f) (extTup_of pkt)")
    (auto simp: rf_in rf_out_new rf_out_known)

lemma rf_run_rules: "rf_run lt f0 es f \<Longrightarrow> nf_dnatRules f = nf_dnatRules f0
    \<and> nf_connectionTimeout f = nf_connectionTimeout f0"
proof (induction rule: rf_run.induct)
  case (filtered es f now pkt b f')
  then show ?case using rf_rules [of lt now pkt f f'] by simp
qed (auto simp: restricted_removeFromMaps_def)

section \<open>What is in the map was asked for\<close>

locale tuple_order = strict_weak_order lt
  for lt :: "connection_tuple \<Rightarrow> connection_tuple \<Rightarrow> bool"
begin

lemma asked_for:
  assumes "rf_run lt f0 es f" and "connMap f0 = []" and "smap_find lt (connMap f) t \<noteq> None"
  shows "\<exists>now p. Filtered now p True \<in> set es \<and> \<not> isIngoing p \<and> equiv_key lt t (extTup_of p)"
  using assms(1,3)
proof (induction rule: rf_run.induct)
  case start
  then show ?case using assms(2) by simp
next
  case (filtered es f now pkt b f')
  show ?case
  proof (cases "isIngoing pkt")
    case True
    then show ?thesis using filtered by (auto simp: rf_in)
  next
    case out: False
    then have b: b using rf_outgoing_passes [of pkt lt now f] filtered.hyps(2) by simp
    show ?thesis
    proof (cases "find_entry lt (connMap f) (connEntries f) (extTup_of pkt)")
      case None
      show ?thesis
      proof (cases "equiv_key lt t (extTup_of pkt)")
        case True
        then show ?thesis using out b by (intro exI [of _ now] exI [of _ pkt]) simp
      next
        case False
        then have "smap_find lt (connMap f) t \<noteq> None"
          using filtered.prems filtered.hyps(2) out None by (auto simp: rf_out_new find_insert)
        with filtered.IH show ?thesis unfolding set_append by blast
      qed
    next
      case (Some ie)
      with filtered.prems filtered.hyps(2) out have "smap_find lt (connMap f) t \<noteq> None"
        by (cases ie) (auto simp: rf_out_known)
      with filtered.IH show ?thesis unfolding set_append by blast
    qed
  qed
next
  case (expired es f now i st)
  then show ?case by auto
next
  case (deleted es f k i e st)
  then have "smap_find lt (connMap f) t \<noteq> None"
    by (auto simp: restricted_removeFromMaps_def find_erase split: if_splits)
  with deleted.IH show ?case by auto
qed

text \<open>After a packet out, a packet with a key equivalent to its own is let in.\<close>

lemma answered:
  assumes "restricted_filterPacket lt now p f = (b, f')" and "\<not> isIngoing p" and "isIngoing r"
    and "equiv_key lt (tuple_of r) (extTup_of p)"
  shows "restricted_filterPacket lt t r f' = (True, f')"
proof -
  have "smap_find lt (connMap f') (extTup_of p) \<noteq> None"
  proof (cases "find_entry lt (connMap f) (connEntries f) (extTup_of p)")
    case None
    then show ?thesis using assms(1,2) by (auto simp: rf_out_new find_insert)
  next
    case (Some ie)
    then show ?thesis using assms(1,2)
      by (cases ie) (auto simp: rf_out_known find_entry_def split: option.splits)
  qed
  then show ?thesis using find_cong [OF assms(4), of "connMap f'"] assms(3) by (auto simp: rf_in)
qed

text \<open>A filter that was just made lets in what answers the packet out, and nothing else.\<close>

lemma answered_only:
  assumes "restricted_filterPacket lt now p (nf_setDnatRules rules (restricted_filter_new to)) = (b, f')"
    and "\<not> isIngoing p" and "isIngoing r" and "smap_find (<) rules (dport r) = None"
  shows "restricted_filterPacket lt t r f' = (equiv_key lt (tuple_of r) (extTup_of p), f')"
proof -
  have none: "find_entry lt (connMap (nf_setDnatRules rules (restricted_filter_new to)))
      (connEntries (nf_setDnatRules rules (restricted_filter_new to))) (extTup_of p) = None"
    by (simp add: find_entry_def nf_setDnatRules_def restricted_filter_new_def)
  from assms(1) [unfolded rf_out_new [OF assms(2) none]]
  have "connMap f' = [(extTup_of p, 0)]" "nf_dnatRules f' = rules"
    by (auto simp: nf_setDnatRules_def restricted_filter_new_def empty_store_def)
  then show ?thesis using assms(3,4) by (simp add: rf_in)
qed

end

interpretation portr: tuple_order ct_less
  by unfold_locales

interpretation addrr: tuple_order addrr_less
  by unfold_locales

text \<open>
  The port restricted and symmetric filter passes an ingoing packet to a port without a
  forwarding rule only if an earlier outgoing packet went from the packet's destination
  address and port to its source address and port, with its protocol.
\<close>

lemma portr_filter_solicited:
  assumes run: "rf_run ct_less (nf_setDnatRules rules (restricted_filter_new to)) es f"
    and "isIngoing pkt" and "smap_find (<) rules (dport pkt) = None"
    and "fst (PortrSymNatFilter_filterPacket now pkt f)"
  shows "\<exists>t p. Filtered t p True \<in> set es \<and> \<not> isIngoing p
    \<and> dstIp p = srcIp pkt \<and> dport p = sport pkt \<and> srcIp p = dstIp pkt \<and> sport p = dport pkt
    \<and> transProt p = transProt pkt"
proof -
  have "nf_dnatRules f = rules" using rf_run_rules [OF run] by (simp add: nf_setDnatRules_def)
  with assms have "smap_find ct_less (connMap f) (tuple_of pkt) \<noteq> None"
    by (simp add: PortrSymNatFilter_filterPacket_def rf_in)
  from portr.asked_for [OF run _ this]
  obtain t p where "Filtered t p True \<in> set es" "\<not> isIngoing p" "tuple_of pkt = extTup_of p"
    by (auto simp: nf_setDnatRules_def restricted_filter_new_def)
  then show ?thesis by (intro exI [of _ t] exI [of _ p]) (simp add: tuple_of_def extTup_of_def)
qed

text \<open>
  The address restricted filter passes an ingoing packet to a port without a forwarding
  rule only if an earlier outgoing packet went from the packet's destination address and port
  to its source address, to any port.
\<close>

lemma addrr_filter_solicited:
  assumes run: "rf_run addrr_less (nf_setDnatRules rules (restricted_filter_new to)) es f"
    and "isIngoing pkt" and "smap_find (<) rules (dport pkt) = None"
    and "fst (AddrrNatFilter_filterPacket now pkt f)"
  shows "\<exists>t p. Filtered t p True \<in> set es \<and> \<not> isIngoing p
    \<and> dstIp p = srcIp pkt \<and> srcIp p = dstIp pkt \<and> sport p = dport pkt
    \<and> transProt p = transProt pkt"
proof -
  have "nf_dnatRules f = rules" using rf_run_rules [OF run] by (simp add: nf_setDnatRules_def)
  with assms have "smap_find addrr_less (connMap f) (tuple_of pkt) \<noteq> None"
    by (simp add: AddrrNatFilter_filterPacket_def rf_in)
  from addrr.asked_for [OF run _ this]
  obtain t p where "Filtered t p True \<in> set es" "\<not> isIngoing p"
    "tie_addrr (tuple_of pkt) = tie_addrr (extTup_of p)"
    by (auto simp: nf_setDnatRules_def restricted_filter_new_def equiv_addrr_less addrr_eq_def)
  then show ?thesis
    by (intro exI [of _ t] exI [of _ p]) (simp add: tuple_of_def extTup_of_def tie_addrr_def)
qed


section \<open>With prompt deleters: a table of deadlines\<close>

text \<open>The filter when every deleter runs as soon as its entry is dead.\<close>

inductive rf_prompt ::
  "(connection_tuple \<Rightarrow> connection_tuple \<Rightarrow> bool) \<Rightarrow> restricted_filter \<Rightarrow> restricted_filter \<Rightarrow> bool" for lt where
  filter_packet: "restricted_filterPacket lt now pkt f = (b, f') \<Longrightarrow> rf_prompt lt f f'"
| expire_delete: "store_expire now i (connEntries f) = Some st \<Longrightarrow>
    store_reap 0 st = Some ((i, e), st') \<Longrightarrow>
    rf_prompt lt f (restricted_removeFromMaps lt (extTuple e) (f\<lparr>connEntries := st'\<rparr>))"

inductive rf_prompts ::
  "(connection_tuple \<Rightarrow> connection_tuple \<Rightarrow> bool) \<Rightarrow> restricted_filter \<Rightarrow> restricted_filter \<Rightarrow> bool"
  for lt f0 where
  start: "rf_prompts lt f0 f0"
| step: "rf_prompts lt f0 f \<Longrightarrow> rf_prompt lt f f' \<Longrightarrow> rf_prompts lt f0 f'"

text \<open>The abstraction: for every key the time at which its connection runs out.\<close>

definition deadlines ::
  "(connection_tuple \<Rightarrow> connection_tuple \<Rightarrow> bool) \<Rightarrow> restricted_filter \<Rightarrow> connection_tuple \<Rightarrow> int option" where
  "deadlines lt f t =
     (case find_entry lt (connMap f) (connEntries f) t of None \<Rightarrow> None | Some (i, e) \<Rightarrow> timer e)"

text \<open>The specification: a packet out sets the deadline of its key, a key is dropped when it is due.\<close>

inductive table_step ::
  "(connection_tuple \<Rightarrow> connection_tuple \<Rightarrow> bool) \<Rightarrow> int \<Rightarrow> (connection_tuple \<Rightarrow> int option)
     \<Rightarrow> (connection_tuple \<Rightarrow> int option) \<Rightarrow> bool" for lt to where
  ingoing: "table_step lt to T T"
| outgoing: "table_step lt to T (\<lambda>t. if equiv_key lt t k then Some (now + to * 1000000) else T t)"
| due: "T k = Some d \<Longrightarrow> d \<le> now \<Longrightarrow> table_step lt to T (\<lambda>t. if equiv_key lt t k then None else T t)"

definition rf_prompt_inv ::
  "(connection_tuple \<Rightarrow> connection_tuple \<Rightarrow> bool) \<Rightarrow> restricted_filter \<Rightarrow> bool" where
  "rf_prompt_inv lt f \<longleftrightarrow> store_ok (connEntries f) \<and> dying (connEntries f) = []
     \<and> (\<forall>t i. smap_find lt (connMap f) t = Some i \<longrightarrow>
          (\<exists>e. live (connEntries f) i = Some e \<and> equiv_key lt t (extTuple e)))
     \<and> (\<forall>i e. live (connEntries f) i = Some e \<longrightarrow> smap_find lt (connMap f) (extTuple e) = Some i
          \<and> timeout e = sint (nf_connectionTimeout f))"

lemma rf_prompt_invD:
  assumes "rf_prompt_inv lt f"
  shows "store_ok (connEntries f)" and "dying (connEntries f) = []"
    and "smap_find lt (connMap f) t = Some i \<Longrightarrow>
      \<exists>e. live (connEntries f) i = Some e \<and> equiv_key lt t (extTuple e)"
    and "live (connEntries f) i = Some e \<Longrightarrow> smap_find lt (connMap f) (extTuple e) = Some i"
    and "live (connEntries f) i = Some e \<Longrightarrow> timeout e = sint (nf_connectionTimeout f)"
  using assms by (simp_all add: rf_prompt_inv_def)

lemma rf_prompt_inv_new [simp]: "rf_prompt_inv lt (nf_setDnatRules rules (restricted_filter_new to))"
  by (simp add: rf_prompt_inv_def nf_setDnatRules_def restricted_filter_new_def empty_store_def store_ok_def)

context tuple_order
begin

lemma inv_known:
  assumes inv: "rf_prompt_inv lt f"
  shows "rf_prompt_inv lt (f\<lparr>connEntries := store_rearm now i (connEntries f)\<rparr>)"
proof -
  note I = rf_prompt_invD [OF inv]
  have "smap_find lt (connMap f) t = Some j \<Longrightarrow>
      \<exists>e. live (store_rearm now i (connEntries f)) j = Some e \<and> equiv_key lt t (extTuple e)" for t j
    using I(3) [of t j] by (auto simp: live_rearm)
  moreover have "live (store_rearm now i (connEntries f)) j = Some e \<Longrightarrow>
      smap_find lt (connMap f) (extTuple e) = Some j \<and> timeout e = sint (nf_connectionTimeout f)" for j e
    using I(4,5) [of j] by (auto simp: live_rearm split: if_splits)
  ultimately show ?thesis using I(1,2) store_ok_rearm [OF I(1)] by (simp add: rf_prompt_inv_def)
qed

lemma not_found_no_key:
  assumes "rf_prompt_inv lt f" and "find_entry lt (connMap f) (connEntries f) k = None"
  shows "smap_find lt (connMap f) k = None"
    and "live (connEntries f) i = Some e \<Longrightarrow> \<not> equiv_key lt k (extTuple e)"
proof -
  show none: "smap_find lt (connMap f) k = None"
    using rf_prompt_invD(3) [OF assms(1)] assms(2) by (fastforce simp: find_entry_def lock_def split: option.splits)
  show "\<not> equiv_key lt k (extTuple e)" if "live (connEntries f) i = Some e"
    using find_cong [of k "extTuple e" "connMap f"] none rf_prompt_invD(4) [OF assms(1) that] by auto
qed

lemma inv_new:
  assumes inv: "rf_prompt_inv lt f"
    and none: "find_entry lt (connMap f) (connEntries f) (extTup_of pkt) = None"
  shows "rf_prompt_inv lt (f\<lparr>connMap := smap_insert lt (extTup_of pkt) (next_entry (connEntries f)) (connMap f),
       connEntries := snd (store_add (start now (ConnectionEntry_new (nf_connectionTimeout f)
         (extTup_of pkt) (tuple_of pkt))) (connEntries f))\<rparr>)"
proof -
  note I = rf_prompt_invD [OF inv] and N = not_found_no_key [OF inv none]
  let ?e = "start now (ConnectionEntry_new (nf_connectionTimeout f) (extTup_of pkt) (tuple_of pkt))"
  let ?n = "next_entry (connEntries f)"
  have lt_n: "live (connEntries f) j = Some e \<Longrightarrow> j \<noteq> ?n" for j e
    using I(1) by (auto simp: store_ok_def)
  show ?thesis
    unfolding rf_prompt_inv_def
    using store_ok_add [OF I(1), of ?e] I(2-5) N(2) lt_n
    by (auto simp: find_insert live_add equiv_sym [of "extTuple _"] split: if_splits) blast+
qed

lemma prompt_expire:
  assumes inv: "rf_prompt_inv lt f" and ex: "store_expire now i (connEntries f) = Some st"
    and re: "store_reap 0 st = Some ((i, e), st')"
  shows "live (connEntries f) i = Some e" and "\<exists>d. timer e = Some d \<and> d \<le> now"
    and "st' = (connEntries f)\<lparr>live := (live (connEntries f))(i := None)\<rparr>"
  using rf_prompt_invD(2) [OF inv] store_expireD [OF ex] re by (auto simp: store_reap_def)

lemma inv_expire:
  assumes inv: "rf_prompt_inv lt f" and ex: "store_expire now i (connEntries f) = Some st"
    and re: "store_reap 0 st = Some ((i, e), st')"
  shows "rf_prompt_inv lt (restricted_removeFromMaps lt (extTuple e) (f\<lparr>connEntries := st'\<rparr>))"
proof -
  note I = rf_prompt_invD [OF inv] and P = prompt_expire [OF assms]
  have K: "equiv_key lt t (extTuple e) \<longleftrightarrow> smap_find lt (connMap f) t = Some i" for t
    using find_cong [of t "extTuple e" "connMap f"] I(3) [of t i] I(4) [OF P(1)] P(1) by auto
  define f' where "f' = restricted_removeFromMaps lt (extTuple e) (f\<lparr>connEntries := st'\<rparr>)"
  have f': "connMap f' = smap_erase lt (extTuple e) (connMap f)"
    "connEntries f' = (connEntries f)\<lparr>live := (live (connEntries f))(i := None)\<rparr>"
    "nf_connectionTimeout f' = nf_connectionTimeout f"
    using K [of "extTuple e"] P(3) by (simp_all add: f'_def restricted_removeFromMaps_def)
  have "rf_prompt_inv lt f'"
    unfolding rf_prompt_inv_def f' find_erase K using I by (auto simp: store_ok_def)
  then show ?thesis by (simp add: f'_def)
qed

text \<open>The keys of a live entry are those equivalent to its outer tuple.\<close>

lemma key_iff:
  assumes inv: "rf_prompt_inv lt f" and l: "live (connEntries f) i = Some e"
  shows "smap_find lt (connMap f) t = Some i \<longleftrightarrow> equiv_key lt t (extTuple e)"
  using find_cong [of t "extTuple e" "connMap f"] rf_prompt_invD(3) [OF inv, of t i]
    rf_prompt_invD(4) [OF inv l] l by auto

lemma deadlines_eq:
  assumes inv: "rf_prompt_inv lt f"
  shows "deadlines lt f t =
    (case smap_find lt (connMap f) t of None \<Rightarrow> None | Some i \<Rightarrow> timer (the (live (connEntries f) i)))"
  using rf_prompt_invD(3) [OF inv, of t]
  by (auto simp: deadlines_def find_entry_def lock_def split: option.split)

lemma deadlines_known:
  assumes inv: "rf_prompt_inv lt f"
    and fnd: "find_entry lt (connMap f) (connEntries f) k = Some (i, e)"
  shows "deadlines lt (f\<lparr>connEntries := store_rearm now i (connEntries f)\<rparr>) =
    (\<lambda>t. if equiv_key lt t k then Some (now + sint (nf_connectionTimeout f) * 1000000)
         else deadlines lt f t)"
proof
  fix t
  from fnd have m: "smap_find lt (connMap f) k = Some i" "live (connEntries f) i = Some e"
    by (auto simp: find_entry_def lock_def split: option.splits)
  have "equiv_key lt k (extTuple e)" using key_iff [OF inv m(2)] m(1) by simp
  then have K: "smap_find lt (connMap f) t = Some i \<longleftrightarrow> equiv_key lt t k"
    unfolding key_iff [OF inv m(2)] using equiv_iff equiv_sym by blast
  show "deadlines lt (f\<lparr>connEntries := store_rearm now i (connEntries f)\<rparr>) t =
      (if equiv_key lt t k then Some (now + sint (nf_connectionTimeout f) * 1000000)
       else deadlines lt f t)"
    unfolding deadlines_eq [OF inv_known [OF inv]] deadlines_eq [OF inv]
    using K rf_prompt_invD(5) [OF inv m(2)] m(2)
    by (auto simp: live_rearm split: option.split)
qed

lemma deadlines_new:
  assumes inv: "rf_prompt_inv lt f"
    and none: "find_entry lt (connMap f) (connEntries f) (extTup_of pkt) = None"
  shows "deadlines lt (f\<lparr>connMap := smap_insert lt (extTup_of pkt) (next_entry (connEntries f)) (connMap f),
       connEntries := snd (store_add (start now (ConnectionEntry_new (nf_connectionTimeout f)
         (extTup_of pkt) (tuple_of pkt))) (connEntries f))\<rparr>) =
    (\<lambda>t. if equiv_key lt t (extTup_of pkt)
         then Some (now + sint (nf_connectionTimeout f) * 1000000) else deadlines lt f t)"
proof
  fix t
  have "live (connEntries f) (next_entry (connEntries f)) = None"
    using rf_prompt_invD(1) [OF inv]
    by (cases "live (connEntries f) (next_entry (connEntries f))") (auto simp: store_ok_def)
  then have "smap_find lt (connMap f) t \<noteq> Some (next_entry (connEntries f))"
    using rf_prompt_invD(3) [OF inv] by force
  then show "deadlines lt (f\<lparr>connMap := smap_insert lt (extTup_of pkt) (next_entry (connEntries f)) (connMap f),
       connEntries := snd (store_add (start now (ConnectionEntry_new (nf_connectionTimeout f)
         (extTup_of pkt) (tuple_of pkt))) (connEntries f))\<rparr>) t =
      (if equiv_key lt t (extTup_of pkt)
       then Some (now + sint (nf_connectionTimeout f) * 1000000) else deadlines lt f t)"
    unfolding deadlines_eq [OF inv_new [OF inv none]] deadlines_eq [OF inv]
    by (auto simp: find_insert live_add split: option.split)
qed

lemma deadlines_expire:
  assumes inv: "rf_prompt_inv lt f" and ex: "store_expire now i (connEntries f) = Some st"
    and re: "store_reap 0 st = Some ((i, e), st')"
  shows "deadlines lt (restricted_removeFromMaps lt (extTuple e) (f\<lparr>connEntries := st'\<rparr>)) =
    (\<lambda>t. if equiv_key lt t (extTuple e) then None else deadlines lt f t)"
    and "\<exists>d. deadlines lt f (extTuple e) = Some d \<and> d \<le> now"
proof -
  note P = prompt_expire [OF assms]
  show "\<exists>d. deadlines lt f (extTuple e) = Some d \<and> d \<le> now"
    unfolding deadlines_eq [OF inv] rf_prompt_invD(4) [OF inv P(1)] using P(1,2) by simp
  show "deadlines lt (restricted_removeFromMaps lt (extTuple e) (f\<lparr>connEntries := st'\<rparr>)) =
    (\<lambda>t. if equiv_key lt t (extTuple e) then None else deadlines lt f t)"
  proof
    fix t
    show "deadlines lt (restricted_removeFromMaps lt (extTuple e) (f\<lparr>connEntries := st'\<rparr>)) t =
        (if equiv_key lt t (extTuple e) then None else deadlines lt f t)"
      unfolding deadlines_eq [OF inv_expire [OF assms]] deadlines_eq [OF inv]
      using key_iff [OF inv P(1), of t] rf_prompt_invD(4) [OF inv P(1)] P(3)
      by (auto simp: restricted_removeFromMaps_def find_erase split: option.split)
  qed
qed

text \<open>What a packet out does to the table.\<close>

lemma prompt_outgoing:
  assumes inv: "rf_prompt_inv lt f" and out: "\<not> isIngoing pkt"
    and fp: "restricted_filterPacket lt now pkt f = (b, f')"
  shows "rf_prompt_inv lt f'" and "deadlines lt f' =
    (\<lambda>t. if equiv_key lt t (extTup_of pkt)
         then Some (now + sint (nf_connectionTimeout f) * 1000000) else deadlines lt f t)"
proof -
  have "rf_prompt_inv lt f' \<and> deadlines lt f' = (\<lambda>t. if equiv_key lt t (extTup_of pkt)
      then Some (now + sint (nf_connectionTimeout f) * 1000000) else deadlines lt f t)"
  proof (cases "find_entry lt (connMap f) (connEntries f) (extTup_of pkt)")
    case None
    from fp [unfolded rf_out_new [OF out None] prod.inject, THEN conjunct2, symmetric]
    show ?thesis by (simp only: inv_new [OF inv None] deadlines_new [OF inv None] simp_thms)
  next
    case (Some ie)
    then obtain i e where f: "find_entry lt (connMap f) (connEntries f) (extTup_of pkt) = Some (i, e)"
      by (cases ie) simp
    from fp [unfolded rf_out_known [OF out f] prod.inject, THEN conjunct2, symmetric]
    show ?thesis by (simp only: inv_known [OF inv] deadlines_known [OF inv f] simp_thms)
  qed
  then show "rf_prompt_inv lt f'" and "deadlines lt f' = (\<lambda>t. if equiv_key lt t (extTup_of pkt)
      then Some (now + sint (nf_connectionTimeout f) * 1000000) else deadlines lt f t)" by blast+
qed

lemma prompt_refines:
  assumes "rf_prompt lt f f'" and "rf_prompt_inv lt f"
  shows "rf_prompt_inv lt f' \<and>
    table_step lt (sint (nf_connectionTimeout f)) (deadlines lt f) (deadlines lt f')"
  using assms
proof (induction rule: rf_prompt.induct)
  case (filter_packet now pkt f b f')
  show ?case
  proof (cases "isIngoing pkt")
    case True
    then show ?thesis using filter_packet table_step.ingoing by (simp add: rf_in)
  next
    case False
    from prompt_outgoing [OF filter_packet(2) this filter_packet(1)]
    show ?thesis using table_step.outgoing by simp
  qed
next
  case (expire_delete now i f st e st')
  note D = deadlines_expire [OF expire_delete(3,1,2)]
  from D(2) obtain d where "deadlines lt f (extTuple e) = Some d" "d \<le> now" by blast
  from table_step.due [of "deadlines lt f", OF this]
  show ?case using inv_expire [OF expire_delete(3,1,2)] unfolding D(1) by simp
qed

lemma prompts_inv:
  assumes "rf_prompts lt f0 f" and "rf_prompt_inv lt f0"
  shows "rf_prompt_inv lt f"
  using assms by (induction rule: rf_prompts.induct) (simp_all add: prompt_refines)

lemma prompt_accepts:
  assumes "rf_prompt_inv lt f" and "isIngoing pkt"
  shows "restricted_filterPacket lt now pkt f =
    (deadlines lt f (tuple_of pkt) \<noteq> None \<or> smap_find (<) (nf_dnatRules f) (dport pkt) \<noteq> None, f)"
proof -
  have "timer (the (live (connEntries f) i)) \<noteq> None"
    if "smap_find lt (connMap f) (tuple_of pkt) = Some i" for i
    using rf_prompt_invD(1) [OF assms(1)] rf_prompt_invD(3) [OF assms(1) that]
    by (auto simp: store_ok_def)
  then show ?thesis
    unfolding rf_in [OF assms(2)] deadlines_eq [OF assms(1)] by (auto split: option.split)
qed

end

text \<open>
  With prompt deleters both restricted filters implement a table of deadlines: every step
  of the filter is a step of the table, which a packet out extends by the connection timeout
  for its own key, which loses a key when it is due and which nothing else changes; and an
  ingoing packet passes exactly if its key is in the table or its port has a forwarding rule.
\<close>

lemma restricted_filter_refines_table:
  assumes lt: "lt = ct_less \<or> lt = addrr_less"
    and run: "rf_prompts lt (nf_setDnatRules rules (restricted_filter_new to)) f"
  shows "(\<forall>f'. rf_prompt lt f f' \<longrightarrow>
      table_step lt (sint (nf_connectionTimeout f)) (deadlines lt f) (deadlines lt f'))
    \<and> (isIngoing pkt \<longrightarrow> restricted_filterPacket lt now pkt f =
        (deadlines lt f (tuple_of pkt) \<noteq> None \<or> smap_find (<) (nf_dnatRules f) (dport pkt) \<noteq> None, f))"
proof -
  have inv: "rf_prompt_inv lt f"
    using lt portr.prompts_inv addrr.prompts_inv run rf_prompt_inv_new by blast
  show ?thesis
    using lt inv portr.prompt_refines addrr.prompt_refines portr.prompt_accepts addrr.prompt_accepts
    by blast
qed


section \<open>Concrete runs\<close>

lemmas filter_run_simps = restricted_filterPacket_def Let_def tuple_of_def extTup_of_def
  find_entry_def lock_def store_add_def nf_setDnatRules_def restricted_filter_new_def
  empty_store_def example_packet_def equiv_key_def ct_less_def tie5_def addrr_less_def tie_addrr_def
  PortrSymNatFilter_filterPacket_def AddrrNatFilter_filterPacket_def

definition example_filter :: "(connection_tuple \<Rightarrow> connection_tuple \<Rightarrow> bool) \<Rightarrow> restricted_filter" where
  "example_filter lt = snd (restricted_filterPacket lt 0 (example_packet False 2 9 1000 80)
     (nf_setDnatRules [] (restricted_filter_new 60)))"

lemma example_filter_run:
  "rf_run lt (nf_setDnatRules [] (restricted_filter_new 60))
     [Filtered 0 (example_packet False 2 9 1000 80) True] (example_filter lt)"
proof -
  have "restricted_filterPacket lt 0 (example_packet False 2 9 1000 80)
      (nf_setDnatRules [] (restricted_filter_new 60)) = (True, example_filter lt)"
    by (simp add: example_filter_def filter_run_simps)
  from rf_run.filtered [OF rf_run.start this] show ?thesis by simp
qed

lemma portr_filter_solicited_witness:
  "fst (PortrSymNatFilter_filterPacket 5 (example_packet True 9 2 80 1000) (example_filter ct_less)) \<and>
   (\<exists>t p. Filtered t p True \<in> set [Filtered 0 (example_packet False 2 9 1000 80) True]
      \<and> dstIp p = 9 \<and> dport p = 80)"
proof
  show pass: "fst (PortrSymNatFilter_filterPacket 5 (example_packet True 9 2 80 1000) (example_filter ct_less))"
    by (simp add: example_filter_def filter_run_simps)
  show "\<exists>t p. Filtered t p True \<in> set [Filtered 0 (example_packet False 2 9 1000 80) True]
      \<and> dstIp p = 9 \<and> dport p = 80"
    using portr_filter_solicited [OF example_filter_run _ _ pass] by (simp add: example_packet_def)
qed

lemma addrr_filter_solicited_witness:
  "fst (AddrrNatFilter_filterPacket 5 (example_packet True 9 2 81 1000) (example_filter addrr_less)) \<and>
   (\<exists>t p. Filtered t p True \<in> set [Filtered 0 (example_packet False 2 9 1000 80) True]
      \<and> dstIp p = 9 \<and> sport p = 1000)"
proof
  show pass: "fst (AddrrNatFilter_filterPacket 5 (example_packet True 9 2 81 1000) (example_filter addrr_less))"
    by (simp add: example_filter_def filter_run_simps)
  show "\<exists>t p. Filtered t p True \<in> set [Filtered 0 (example_packet False 2 9 1000 80) True]
      \<and> dstIp p = 9 \<and> sport p = 1000"
    using addrr_filter_solicited [OF example_filter_run _ _ pass] by (simp add: example_packet_def)
qed

lemma restricted_filter_refines_table_witness:
  "fst (restricted_filterPacket ct_less 5 (example_packet True 9 2 80 1000) (example_filter ct_less)) \<longleftrightarrow>
   deadlines ct_less (example_filter ct_less) (ConnectionTuple 9 2 80 1000 17) \<noteq> None"
proof -
  have "restricted_filterPacket ct_less 0 (example_packet False 2 9 1000 80)
      (nf_setDnatRules [] (restricted_filter_new 60)) = (True, example_filter ct_less)"
    by (simp add: example_filter_def filter_run_simps)
  then have run: "rf_prompts ct_less (nf_setDnatRules [] (restricted_filter_new 60)) (example_filter ct_less)"
    by (rule rf_prompts.step [OF rf_prompts.start rf_prompt.filter_packet])
  have "nf_dnatRules (example_filter ct_less) = []" by (simp add: example_filter_def filter_run_simps)
  with restricted_filter_refines_table [OF disjI1 [OF refl] run, of "example_packet True 9 2 80 1000" 5]
  show ?thesis by (simp add: example_packet_def tuple_of_def)
qed

end
