(* ===== verification/Nat_Handler.thy ===== *)
theory Nat_Handler
  imports Nat_Mapper_Properties Nat_Filters
begin

text \<open>
  The class \<open>Nat\<close> (nat.hpp, nat.cpp): the configuration calls, \<open>init\<close>, which makes the
  mapper and the filter of the NAT type, and \<open>handlePacket\<close>, which runs a packet through
  both. \<open>handlePacket\<close> returns the packet it passes to \<open>next_\<close>, if any, and the new state;
  it is a fault when \<open>init\<close> was not called and when the port search of the symmetric mapper
  does not end. The packets of the filter chain that has a \<open>Nat\<close> are IPv4 packets, so the
  cast to \<open>Packet\<close> succeeds. \<open>inet_network\<close> is an argument of the calls that use it.
\<close>

datatype nat_type = PORT_R_NAT | ADDR_R_NAT | SYM_NAT | FULL_CONE_NAT

text \<open>The objects behind the pointers \<open>mapper\_\<close> and \<open>filter\_\<close>.\<close>

datatype mapper_obj = PlainMapper nat_mapper | SymMapper sym_nat_mapper

datatype filter_obj =
  PortrSymFilter restricted_filter | AddrrFilter restricted_filter | FullconeFilter nat_filter

record nat_handler =
  natIpExt :: u32
  natIpInt :: u32
  natTimeout :: u32
  natType :: nat_type
  natRules :: "(u16, connection_tuple) smap"
  natMapper :: "mapper_obj option"
  natFilter :: "filter_obj option"

text \<open>The constructor leaves the addresses as they are in the storage \<open>raw\<close>.\<close>

definition Nat_new :: "nat_handler \<Rightarrow> nat_handler" where
  "Nat_new raw =
     raw\<lparr>natTimeout := 10 * 60, natType := PORT_R_NAT, natRules := [],
       natMapper := None, natFilter := None\<rparr>"

section \<open>Configuration\<close>

definition Nat_setIPs :: "(string \<Rightarrow> u32) \<Rightarrow> string \<Rightarrow> string \<Rightarrow> nat_handler \<Rightarrow> nat_handler" where
  "Nat_setIPs inet_network ipE ipI n = n\<lparr>natIpExt := inet_network ipE, natIpInt := inet_network ipI\<rparr>"

definition Nat_setDnatRule ::
  "(string \<Rightarrow> u32) \<Rightarrow> string \<Rightarrow> u16 \<Rightarrow> u16 \<Rightarrow> nat_handler \<Rightarrow> nat_handler" where
  "Nat_setDnatRule inet_network ip extPort intPort n =
     n\<lparr>natRules := smap_insert (<) extPort (ConnectionTuple 0 (inet_network ip) 0 intPort 0) (natRules n)\<rparr>"

definition Nat_removeDnatRule :: "u16 \<Rightarrow> nat_handler \<Rightarrow> nat_handler" where
  "Nat_removeDnatRule extPort n = n\<lparr>natRules := erase_first extPort (natRules n)\<rparr>"

definition Nat_setNatType :: "string \<Rightarrow> nat_handler \<Rightarrow> nat_handler" where
  "Nat_setNatType type n =
     (if type = ''portr'' then n\<lparr>natType := PORT_R_NAT\<rparr>
      else if type = ''addrr'' then n\<lparr>natType := ADDR_R_NAT\<rparr>
      else if type = ''symnat'' then n\<lparr>natType := SYM_NAT\<rparr>
      else if type = ''fullcone'' then n\<lparr>natType := FULL_CONE_NAT\<rparr>
      else n)"

definition Nat_setTimeout :: "u32 \<Rightarrow> nat_handler \<Rightarrow> nat_handler" where
  "Nat_setTimeout to n = n\<lparr>natTimeout := to\<rparr>"

definition mapper_setDnatRules :: "(u16, connection_tuple) smap \<Rightarrow> mapper_obj \<Rightarrow> mapper_obj" where
  "mapper_setDnatRules rules m =
     (case m of PlainMapper p \<Rightarrow> PlainMapper (setDnatRules rules p)
              | SymMapper s \<Rightarrow> SymMapper (setDnatRules rules s))"

definition filter_setDnatRules :: "(u16, connection_tuple) smap \<Rightarrow> filter_obj \<Rightarrow> filter_obj" where
  "filter_setDnatRules rules f =
     (case f of PortrSymFilter p \<Rightarrow> PortrSymFilter (nf_setDnatRules rules p)
              | AddrrFilter a \<Rightarrow> AddrrFilter (nf_setDnatRules rules a)
              | FullconeFilter c \<Rightarrow> FullconeFilter (nf_setDnatRules rules c))"

definition Nat_init :: "nat_handler \<Rightarrow> bool \<times> nat_handler" where
  "Nat_init n =
     (let to = natTimeout n;
          (flt, mpr) =
            (case natType n of
               PORT_R_NAT \<Rightarrow> (PortrSymFilter (restricted_filter_new to),
                                PlainMapper (NatMapper_new (natIpInt n) (natIpExt n) to))
             | ADDR_R_NAT \<Rightarrow> (AddrrFilter (restricted_filter_new to),
                                PlainMapper (NatMapper_new (natIpInt n) (natIpExt n) to))
             | SYM_NAT \<Rightarrow> (PortrSymFilter (restricted_filter_new to),
                                SymMapper (SymNatMapper_new (natIpInt n) (natIpExt n) to))
             | FULL_CONE_NAT \<Rightarrow>
                 (FullconeFilter \<lparr>nf_connectionTimeout = to, nf_dnatRules = []\<rparr>,
                  PlainMapper (NatMapper_new (natIpInt n) (natIpExt n) to)))
      in (True, n\<lparr>natMapper := Some (mapper_setDnatRules (natRules n) mpr),
                  natFilter := Some (filter_setDnatRules (natRules n) flt)\<rparr>))"

section \<open>The packet handler\<close>

text \<open>The virtual calls through the two pointers.\<close>

definition mapPacket :: "int \<Rightarrow> packet \<Rightarrow> mapper_obj option \<Rightarrow> fault + bool \<times> packet \<times> mapper_obj" where
  "mapPacket now pkt mo =
     (case mo of
        None \<Rightarrow> Inl NullDeref
      | Some (PlainMapper m) \<Rightarrow>
          (let (b, pkt', m') = NatMapper_mapPacket now pkt m in Inr (b, pkt', PlainMapper m'))
      | Some (SymMapper s) \<Rightarrow>
          (case SymNatMapper_mapPacket now pkt s of
             None \<Rightarrow> Inl Hang
           | Some (b, pkt', s') \<Rightarrow> Inr (b, pkt', SymMapper s')))"

definition filterPacket :: "int \<Rightarrow> packet \<Rightarrow> filter_obj option \<Rightarrow> fault + bool \<times> filter_obj" where
  "filterPacket now pkt fo =
     (case fo of
        None \<Rightarrow> Inl NullDeref
      | Some (PortrSymFilter p) \<Rightarrow>
          (let (b, p') = PortrSymNatFilter_filterPacket now pkt p in Inr (b, PortrSymFilter p'))
      | Some (AddrrFilter a) \<Rightarrow>
          (let (b, a') = AddrrNatFilter_filterPacket now pkt a in Inr (b, AddrrFilter a'))
      | Some (FullconeFilter c) \<Rightarrow>
          (let (b, c') = FullconeNatFilter_filterPacket pkt c in Inr (b, FullconeFilter c')))"

definition Nat_handlePacket :: "int \<Rightarrow> packet \<Rightarrow> nat_handler \<Rightarrow> fault + packet option \<times> nat_handler" where
  "Nat_handlePacket now pkt n =
     (if isIngoing pkt then
        try_bind (filterPacket now pkt (natFilter n)) (\<lambda>(pass, f').
          if pass then
            try_bind (mapPacket now pkt (natMapper n)) (\<lambda>(mapped, pkt', m').
              Inr (if mapped then Some pkt' else None, n\<lparr>natFilter := Some f', natMapper := Some m'\<rparr>))
          else Inr (None, n\<lparr>natFilter := Some f'\<rparr>))
      else
        try_bind (mapPacket now pkt (natMapper n)) (\<lambda>(mapped, pkt', m').
          if mapped then
            try_bind (filterPacket now pkt' (natFilter n)) (\<lambda>(pass, f').
              Inr (if pass then Some pkt' else None, n\<lparr>natFilter := Some f', natMapper := Some m'\<rparr>))
          else Inr (None, n\<lparr>natMapper := Some m'\<rparr>)))"

lemmas nat_cfg_defs = Nat_new_def Nat_setIPs_def Nat_setDnatRule_def Nat_removeDnatRule_def
  Nat_setNatType_def Nat_setTimeout_def Nat_init_def mapper_setDnatRules_def filter_setDnatRules_def

section \<open>Steps\<close>

text \<open>A packet is handled, or a timer or deleter of the mapper or of the filter runs.\<close>

inductive mapper_tick :: "mapper_obj \<Rightarrow> mapper_obj \<Rightarrow> bool" where
  plain_expire: "store_expire now i (entries m) = Some st \<Longrightarrow>
    mapper_tick (PlainMapper m) (PlainMapper (m\<lparr>entries := st\<rparr>))"
| plain_delete: "store_reap k (entries m) = Some ((i, e), st) \<Longrightarrow>
    mapper_tick (PlainMapper m)
      (PlainMapper (NatMapper_removeFromMaps (intTuple e) (extTuple e) (m\<lparr>entries := st\<rparr>)))"
| sym_expire: "store_expire now i (sym_entries s) = Some st \<Longrightarrow>
    mapper_tick (SymMapper s) (SymMapper (s\<lparr>sym_entries := st\<rparr>))"
| sym_delete: "store_reap k (sym_entries s) = Some ((i, e), st) \<Longrightarrow>
    mapper_tick (SymMapper s)
      (SymMapper (SymNatMapper_removeFromMaps (intTuple e) (extTuple e) (s\<lparr>sym_entries := st\<rparr>)))"

text \<open>Any step of the mapper, a call or a timer.\<close>

inductive mapper_step :: "mapper_obj \<Rightarrow> mapper_obj \<Rightarrow> bool" where
  plain: "nm_step m m' \<Longrightarrow> mapper_step (PlainMapper m) (PlainMapper m')"
| sym: "sn_step s s' \<Longrightarrow> mapper_step (SymMapper s) (SymMapper s')"

inductive rf_timer ::
  "(connection_tuple \<Rightarrow> connection_tuple \<Rightarrow> bool) \<Rightarrow> restricted_filter \<Rightarrow> restricted_filter \<Rightarrow> bool" for lt where
  expire: "store_expire now i (connEntries f) = Some st \<Longrightarrow> rf_timer lt f (f\<lparr>connEntries := st\<rparr>)"
| delete: "store_reap k (connEntries f) = Some ((i, e), st) \<Longrightarrow>
    rf_timer lt f (restricted_removeFromMaps lt (extTuple e) (f\<lparr>connEntries := st\<rparr>))"

inductive filter_timer :: "filter_obj \<Rightarrow> filter_obj \<Rightarrow> bool" where
  portr_timer: "rf_timer ct_less f f' \<Longrightarrow> filter_timer (PortrSymFilter f) (PortrSymFilter f')"
| addrr_timer: "rf_timer addrr_less f f' \<Longrightarrow> filter_timer (AddrrFilter f) (AddrrFilter f')"

inductive nat_step :: "nat_handler \<Rightarrow> nat_handler \<Rightarrow> bool" where
  handle: "Nat_handlePacket now pkt n = Inr (out, n') \<Longrightarrow> nat_step n n'"
| mapper_timer: "natMapper n = Some m \<Longrightarrow> mapper_tick m m' \<Longrightarrow> nat_step n (n\<lparr>natMapper := Some m'\<rparr>)"
| filter_timer: "natFilter n = Some f \<Longrightarrow> filter_timer f f' \<Longrightarrow> nat_step n (n\<lparr>natFilter := Some f'\<rparr>)"

inductive nat_reachable :: "nat_handler \<Rightarrow> nat_handler \<Rightarrow> bool" for n0 where
  start: "nat_reachable n0 n0"
| step: "nat_reachable n0 n \<Longrightarrow> nat_step n n' \<Longrightarrow> nat_reachable n0 n'"

inductive_cases filter_timerE: "filter_timer f f'"
inductive_cases mapper_stepE: "mapper_step m m'"

section \<open>The invariant of an initialised handler\<close>

text \<open>Mapper and filter fit the type, keep the rules and address they were made with, and the mapper's maps fit its entries.\<close>

definition mapper_ok :: "nat_handler \<Rightarrow> mapper_obj \<Rightarrow> bool" where
  "mapper_ok n m =
     (case m of
        PlainMapper p \<Rightarrow> natType n \<noteq> SYM_NAT \<and> nm_inv p \<and> dnatRules p = natRules n \<and> ipExt p = natIpExt n
      | SymMapper s \<Rightarrow> natType n = SYM_NAT \<and> sn_inv s \<and> dnatRules s = natRules n \<and> ipExt s = natIpExt n)"

definition filter_ok :: "nat_handler \<Rightarrow> filter_obj \<Rightarrow> bool" where
  "filter_ok n f =
     (case f of
        PortrSymFilter p \<Rightarrow> natType n \<in> {PORT_R_NAT, SYM_NAT} \<and> nf_dnatRules p = natRules n
      | AddrrFilter a \<Rightarrow> natType n = ADDR_R_NAT \<and> nf_dnatRules a = natRules n
      | FullconeFilter c \<Rightarrow> natType n = FULL_CONE_NAT)"

definition nat_ok :: "nat_handler \<Rightarrow> bool" where
  "nat_ok n \<longleftrightarrow> (\<exists>m. natMapper n = Some m \<and> mapper_ok n m) \<and> (\<exists>f. natFilter n = Some f \<and> filter_ok n f)"

lemma nat_ok_init: "nat_ok (snd (Nat_init n))"
  by (cases "natType n") (simp_all add: nat_ok_def Nat_init_def Let_def mapper_ok_def filter_ok_def
      mapper_setDnatRules_def filter_setDnatRules_def nf_setDnatRules_def)

text \<open>The configuration a step leaves alone.\<close>

definition same_cfg :: "nat_handler \<Rightarrow> nat_handler \<Rightarrow> bool" where
  "same_cfg n n' \<longleftrightarrow> natType n' = natType n \<and> natRules n' = natRules n \<and> natIpExt n' = natIpExt n"

lemma same_cfg_ok:
  "same_cfg n n' \<Longrightarrow> mapper_ok n' m = mapper_ok n m" "same_cfg n n' \<Longrightarrow> filter_ok n' f = filter_ok n f"
  by (auto simp: same_cfg_def mapper_ok_def filter_ok_def split: mapper_obj.split filter_obj.split)

lemma same_cfg_upd [simp]:
  "same_cfg n (n\<lparr>natMapper := x\<rparr>)" "same_cfg n (n\<lparr>natFilter := y\<rparr>)"
  "same_cfg n (n\<lparr>natFilter := y, natMapper := x\<rparr>)"
  by (simp_all add: same_cfg_def)

lemma mapPacket_step: "mapPacket now pkt (Some m) = Inr (b, pkt', m') \<Longrightarrow> mapper_step m m'"
  by (auto simp: mapPacket_def split: mapper_obj.splits option.splits prod.splits
      intro: mapper_step.intros nm_step.map_packet sn_step.map_packet)

lemma mapper_tick_step: "mapper_tick m m' \<Longrightarrow> mapper_step m m'"
  by (induction rule: mapper_tick.induct)
    (auto intro: mapper_step.intros nm_step.expire nm_step.delete sn_step.expire sn_step.delete)

lemma mapper_step_ok: "mapper_step m m' \<Longrightarrow> mapper_ok n m \<Longrightarrow> mapper_ok n m'"
  by (induction rule: mapper_step.induct)
    (auto simp: mapper_ok_def dest: nm_step_inv nm_step_base sn_step_inv sn_step_base)

lemma rf_rules_pair:
  "restricted_filterPacket lt now pkt f = (b, f') \<Longrightarrow> nf_dnatRules f' = nf_dnatRules f"
  using rf_rules [of lt now pkt f f'] by simp

lemma filterPacket_ok:
  "filterPacket now pkt (Some f) = Inr (b, f') \<Longrightarrow> filter_ok n f \<Longrightarrow> filter_ok n f'"
  by (auto simp: filterPacket_def filter_ok_def PortrSymNatFilter_filterPacket_def
      AddrrNatFilter_filterPacket_def split: filter_obj.splits prod.splits dest!: rf_rules_pair)

lemma filter_timer_ok: "filter_timer f f' \<Longrightarrow> filter_ok n f \<Longrightarrow> filter_ok n f'"
  by (induction rule: filter_timer.induct)
    (auto elim!: rf_timer.cases simp: filter_ok_def restricted_removeFromMaps_def)

text \<open>What \<open>handlePacket\<close> does to mapper and filter.\<close>

lemma nat_handle_effect:
  assumes "Nat_handlePacket now pkt n = Inr (out, n')" and "natMapper n = Some m" and "natFilter n = Some f"
  shows "\<exists>m' f'. n' = n\<lparr>natFilter := Some f', natMapper := Some m'\<rparr>
    \<and> (m' = m \<or> (\<exists>b q. mapPacket now pkt (Some m) = Inr (b, q, m')))
    \<and> (f' = f \<or> (\<exists>b q. filterPacket now q (Some f) = Inr (b, f')))"
proof (cases "isIngoing pkt")
  case True
  then obtain b f' where f: "filterPacket now pkt (Some f) = Inr (b, f')"
    using assms by (cases "filterPacket now pkt (Some f)") (auto simp: Nat_handlePacket_def)
  show ?thesis
  proof (cases b)
    case b: True
    with f True assms obtain c q m' where "mapPacket now pkt (Some m) = Inr (c, q, m')"
      by (cases "mapPacket now pkt (Some m)") (auto simp: Nat_handlePacket_def)
    then show ?thesis using f b True assms
      by (intro exI [of _ m'] exI [of _ f']) (auto simp: Nat_handlePacket_def)
  next
    case False
    then show ?thesis using f True assms
      by (intro exI [of _ m] exI [of _ f']) (auto simp: Nat_handlePacket_def)
  qed
next
  case out: False
  then obtain b q m' where m: "mapPacket now pkt (Some m) = Inr (b, q, m')"
    using assms by (cases "mapPacket now pkt (Some m)") (auto simp: Nat_handlePacket_def)
  show ?thesis
  proof (cases b)
    case b: True
    with m out assms obtain c f' where "filterPacket now q (Some f) = Inr (c, f')"
      by (cases "filterPacket now q (Some f)") (auto simp: Nat_handlePacket_def)
    then show ?thesis using m b out assms
      by (intro exI [of _ m'] exI [of _ f']) (auto simp: Nat_handlePacket_def)
  next
    case False
    then show ?thesis using m out assms
      by (intro exI [of _ m'] exI [of _ f]) (auto simp: Nat_handlePacket_def)
  qed
qed

lemma nat_step_ok:
  assumes "nat_step n n'" and "nat_ok n"
  shows "nat_ok n' \<and> same_cfg n n'"
  using assms
proof (induction rule: nat_step.induct)
  case (handle now pkt n out n')
  then obtain m f where mf: "natMapper n = Some m" "mapper_ok n m" "natFilter n = Some f" "filter_ok n f"
    by (auto simp: nat_ok_def)
  from nat_handle_effect [OF handle(1) mf(1,3)] obtain m' f'
    where n': "n' = n\<lparr>natFilter := Some f', natMapper := Some m'\<rparr>"
      and m': "m' = m \<or> (\<exists>b q. mapPacket now pkt (Some m) = Inr (b, q, m'))"
      and f': "f' = f \<or> (\<exists>b q. filterPacket now q (Some f) = Inr (b, f'))" by blast
  have "mapper_ok n m'" using m' mf(2) mapPacket_step mapper_step_ok by blast
  moreover have "filter_ok n f'" using f' mf(4) filterPacket_ok by blast
  moreover have c: "same_cfg n n'" by (simp add: n')
  ultimately show ?case using same_cfg_ok [OF c] by (simp add: nat_ok_def n')
next
  case (mapper_timer n m m')
  then show ?case using mapper_step_ok [OF mapper_tick_step] same_cfg_ok [OF same_cfg_upd(1) [of n "Some m'"]]
    by (auto simp: nat_ok_def)
next
  case (filter_timer n f f')
  then show ?case using filter_timer_ok same_cfg_ok [OF same_cfg_upd(2) [of n "Some f'"]]
    by (auto simp: nat_ok_def)
qed

lemma nat_reachable_ok:
  assumes "nat_reachable n0 n" and "nat_ok n0"
  shows "nat_ok n \<and> same_cfg n0 n"
  using assms
proof (induction rule: nat_reachable.induct)
  case start
  then show ?case by (simp add: same_cfg_def)
next
  case (step n n')
  then show ?case using nat_step_ok [of n n'] by (simp add: same_cfg_def)
qed

lemma same_cfg_init: "same_cfg cfg (snd (Nat_init cfg))"
  by (simp add: same_cfg_def Nat_init_def Let_def split: nat_type.split)

lemma nat_initialised:
  assumes "nat_reachable (snd (Nat_init cfg)) n"
  obtains m f where "natMapper n = Some m" and "mapper_ok n m" and "natFilter n = Some f"
    and "filter_ok n f" and "same_cfg cfg n"
  using nat_reachable_ok [OF assms nat_ok_init] same_cfg_init [of cfg]
  by (auto simp: nat_ok_def same_cfg_def)


section \<open>Every packet is handled\<close>

lemma filterPacket_total: "\<exists>b f'. filterPacket now pkt (Some f) = Inr (b, f')"
  by (auto simp: filterPacket_def split: filter_obj.split prod.split)

lemma filterPacket_outgoing:
  assumes "\<not> isIngoing pkt" and "filterPacket now pkt (Some f) = Inr (b, f')"
  shows b
  using assms rf_outgoing_passes [OF assms(1), of ct_less now] rf_outgoing_passes [OF assms(1), of addrr_less now]
  by (auto simp: filterPacket_def PortrSymNatFilter_filterPacket_def AddrrNatFilter_filterPacket_def
      FullconeNatFilter_filterPacket_def split: filter_obj.splits prod.splits)
    (metis fst_conv)+

lemma sym_mapPacket_None:
  "SymNatMapper_mapPacket now pkt s = None \<longleftrightarrow> \<not> isIngoing pkt
     \<and> smap_find (<) (dnatRules s) (sport pkt) = None
     \<and> find_entry ct_less (sym_intPortMap s) (sym_entries s) (tuple_of pkt) = None
     \<and> (\<forall>p. smap_find (<) (sym_extPortMap s) p \<noteq> None)"
proof (cases "fst (checkDnat s pkt)")
  case True
  then show ?thesis using checkDnat_outgoing [of pkt s] by (auto simp: sym_mapPacket_forwarded)
next
  case nf: False
  show ?thesis
  proof (cases "isIngoing pkt")
    case True
    then show ?thesis using nf by (auto simp: sym_mapPacket_in split: option.split)
  next
    case out: False
    have r: "smap_find (<) (dnatRules s) (sport pkt) = None"
      using nf out by (simp add: checkDnat_outgoing)
    show ?thesis
    proof (cases "find_entry ct_less (sym_intPortMap s) (sym_entries s) (tuple_of pkt)")
      case None
      have "mapPort s (tuple_of pkt) = None \<longleftrightarrow> (\<forall>p. smap_find (<) (sym_extPortMap s) p \<noteq> None)"
        by (rule mapPort_none)
      then show ?thesis using nf out r None
        by (cases "mapPort s (tuple_of pkt)") (simp_all add: sym_mapPacket_out_new)
    next
      case (Some ie)
      then show ?thesis using nf out by (cases ie) (simp add: sym_mapPacket_out_known)
    qed
  qed
qed

lemma mapPacket_result:
  "mapPacket now pkt (Some m) = Inl e \<longleftrightarrow>
     e = Hang \<and> (\<exists>s. m = SymMapper s \<and> SymNatMapper_mapPacket now pkt s = None)"
  by (auto simp: mapPacket_def split: mapper_obj.split option.split prod.split)

text \<open>
  C21. After \<open>init\<close> the NAT handles every packet, in every reachable state and for every
  type, without a null dereference; the one way not to return is the symmetric type with a
  packet of a new connection when all 65536 external ports are in the map.
\<close>

theorem nat_handle_returns:
  assumes "nat_reachable (snd (Nat_init cfg)) n"
  shows "Nat_handlePacket now pkt n = Inl e \<longleftrightarrow>
    e = Hang \<and> \<not> isIngoing pkt \<and> smap_find (<) (natRules cfg) (sport pkt) = None \<and>
    (\<exists>s. natMapper n = Some (SymMapper s) \<and>
      find_entry ct_less (sym_intPortMap s) (sym_entries s) (tuple_of pkt) = None \<and>
      (\<forall>p. smap_find (<) (sym_extPortMap s) p \<noteq> None))"
proof -
  obtain m f where m: "natMapper n = Some m" "mapper_ok n m" and f: "natFilter n = Some f"
    and cfg: "natRules n = natRules cfg" using nat_initialised [OF assms] by (metis same_cfg_def)
  have "Nat_handlePacket now pkt n = Inl e \<longleftrightarrow> \<not> isIngoing pkt \<and> mapPacket now pkt (Some m) = Inl e"
  proof (cases "isIngoing pkt")
    case True
    obtain b f' where "filterPacket now pkt (Some f) = Inr (b, f')" using filterPacket_total by blast
    moreover have "mapPacket now pkt (Some m) \<noteq> Inl e'" for e'
      using True by (auto simp: mapPacket_result sym_mapPacket_None)
    ultimately show ?thesis using True m f
      by (cases "mapPacket now pkt (Some m)") (auto simp: Nat_handlePacket_def)
  next
    case False
    have nf: "filterPacket now q (natFilter n) \<noteq> Inl e'" for q e'
      using filterPacket_total [of now q f] f by auto
    show ?thesis using False m nf
      by (auto simp: Nat_handlePacket_def try_bind_Inl_iff split: prod.splits)
  qed
  then show ?thesis using m cfg
    by (auto simp: mapPacket_result sym_mapPacket_None mapper_ok_def)
qed

section \<open>Replies\<close>

text \<open>After a packet out, the filter lets its answer in.\<close>

lemma filter_answered:
  assumes "filterPacket now p (Some f) = Inr (b, f')" and "\<not> isIngoing p" and "isIngoing r"
    and "tuple_of r = extTup_of p"
  shows "filterPacket t r (Some f') = Inr (True, f')"
proof -
  have "equiv_key ct_less (tuple_of r) (extTup_of p)" "equiv_key addrr_less (tuple_of r) (extTup_of p)"
    using assms(4) addrr_order.equiv_refl by simp_all
  with portr.answered [OF _ assms(2,3)] addrr.answered [OF _ assms(2,3)] assms(1) show ?thesis
    by (fastforce simp: filterPacket_def PortrSymNatFilter_filterPacket_def AddrrNatFilter_filterPacket_def
        FullconeNatFilter_filterPacket_def split: filter_obj.splits prod.splits)
qed

text \<open>After a packet out, the mapper sends packets to the mapped port back to its sender.\<close>

lemma plain_answered:
  assumes inv: "nm_inv m" and out: "\<not> isIngoing pkt" and nr: "smap_find (<) (dnatRules m) (sport pkt) = None"
    and one: "\<forall>j e. present (entries m) j e \<longrightarrow> getSport (intTuple e) = sport pkt \<longrightarrow>
      getSrcIP (intTuple e) = srcIp pkt"
    and mp: "NatMapper_mapPacket now pkt m = (b, pkt', m')"
    and r: "isIngoing r" "dport r = sport pkt'"
  shows "NatMapper_mapPacket t r m' = (True, r\<lparr>dstIp := srcIp pkt, dport := sport pkt\<rparr>, m')"
proof -
  have inv': "nm_inv m'" using nm_inv_map [OF inv mp] .
  have sp: "sport pkt' = sport pkt" using nat_keeps_sport [OF inv out mp] by simp
  have nf: "\<not> fst (checkDnat m pkt)" using out nr by (simp add: checkDnat_outgoing)
  have "\<exists>i e. smap_find (<) (intPortMap m') (sport pkt) = Some i \<and> live (entries m') i = Some e
      \<and> getSrcIP (intTuple e) = srcIp pkt"
  proof (cases "find_entry (<) (intPortMap m) (entries m) (sport pkt)")
    case None
    from mp [unfolded mapPacket_out_new [OF nf out None] prod.inject]
    have "m' = NatMapper_makeNewConn now
      (ConnectionTuple (dstIp pkt) (ipExt m) (dport pkt) (sport pkt) (transProt pkt)) (tuple_of pkt) m"
      by blast
    then show ?thesis by (simp add: NatMapper_makeNewConn_def store_add_def tuple_of_def)
  next
    case (Some ie)
    then obtain i e where f: "find_entry (<) (intPortMap m) (entries m) (sport pkt) = Some (i, e)"
      by (cases ie) simp
    from mp [unfolded mapPacket_out_known [OF nf out f] prod.inject]
    have m': "m' = m\<lparr>entries := store_rearm now i (entries m)\<rparr>" by blast
    from f have "smap_find (<) (intPortMap m) (sport pkt) = Some i" "live (entries m) i = Some e"
      by (simp_all add: find_entry_Some)
    moreover have "getSrcIP (intTuple e) = srcIp pkt"
      using one nm_invD(4) [OF inv] live_present calculation by blast
    ultimately show ?thesis unfolding m' by (simp add: live_rearm)
  qed
  then obtain i e where i: "smap_find (<) (intPortMap m') (sport pkt) = Some i" "live (entries m') i = Some e"
    "getSrcIP (intTuple e) = srcIp pkt" by blast
  have "getSport (intTuple e) = sport pkt" using nm_invD(4) [OF inv' i(1)] live_present [OF i(2)] .
  moreover have "find_entry (<) (extPortMap m') (entries m') (dport r) = Some (i, e)"
    using i nm_invD(2) [OF inv'] by (simp add: find_entry_Some r sp)
  moreover have "\<not> fst (checkDnat m' r)"
    using nr r sp mapPacket_base [OF mp] by (simp add: checkDnat_ingoing)
  ultimately show ?thesis using i(3) r(1) by (simp add: mapPacket_in)
qed

lemma sym_answered:
  assumes inv: "sn_inv s" and out: "\<not> isIngoing pkt" and nr: "smap_find (<) (dnatRules s) (sport pkt) = None"
    and mp: "SymNatMapper_mapPacket now pkt s = Some (b, pkt', s')"
    and nr': "smap_find (<) (dnatRules s) (sport pkt') = None"
    and r: "isIngoing r" "dport r = sport pkt'"
  shows "SymNatMapper_mapPacket t r s' = Some (True, r\<lparr>dstIp := srcIp pkt, dport := sport pkt\<rparr>, s')"
proof -
  from sym_outgoing_connected [OF inv out nr mp] obtain i e
    where i: "live (sym_entries s') i = Some e" "intTuple e = tuple_of pkt"
      and p: "pkt' = pkt\<lparr>srcIp := ipExt s, sport := getDport (extTuple e)\<rparr>" by blast
  have sp: "sport pkt' = getDport (extTuple e)" by (simp add: p)
  have "SymNatMapper_mapPacket t r s' = Some (True,
      r\<lparr>dstIp := getSrcIP (intTuple e), dport := getSport (intTuple e)\<rparr>, s')"
    by (rule sym_delivers [OF sn_inv_map [OF inv mp] i(1)])
      (use r nr' sp sym_mapPacket_base [OF mp] in simp_all)
  then show ?thesis unfolding i(2) by (simp add: tuple_of_def)
qed

text \<open>An outgoing packet keeps its remote end and protocol.\<close>

definition same_remote :: "packet \<Rightarrow> packet \<Rightarrow> bool" where
  "same_remote p q \<longleftrightarrow> isIngoing p = isIngoing q \<and> dstIp p = dstIp q \<and> dport p = dport q \<and> transProt p = transProt q"

lemma plain_same_remote:
  assumes "\<not> isIngoing pkt" and "NatMapper_mapPacket now pkt m = (b, pkt', m')"
  shows "same_remote pkt pkt'"
  using assms
  by (auto simp: same_remote_def NatMapper_mapPacket_def checkDnat_def Let_def
      split: option.splits if_splits)

lemma sym_same_remote:
  assumes "\<not> isIngoing pkt" and "SymNatMapper_mapPacket now pkt s = Some (b, pkt', s')"
  shows "same_remote pkt pkt'"
  using assms
  by (auto simp: same_remote_def SymNatMapper_mapPacket_def checkDnat_def Let_def
      split: option.splits if_splits)


text \<open>What a handled outgoing packet tells of the calls made for it.\<close>

lemma nat_outgoing_calls:
  assumes "Nat_handlePacket now pkt n = Inr (out, n')" and "natMapper n = Some m" and "natFilter n = Some f"
    and "\<not> isIngoing pkt" and "out = Some pkt'"
  shows "\<exists>m' f'. mapPacket now pkt (Some m) = Inr (True, pkt', m')
    \<and> filterPacket now pkt' (Some f) = Inr (True, f') \<and> n' = n\<lparr>natFilter := Some f', natMapper := Some m'\<rparr>"
  using assms by (auto simp: Nat_handlePacket_def try_bind_Inr_iff split: prod.splits if_splits)

text \<open>
  C6. The NAT as a whole: after a packet out that it passed (no forwarding rule on the source
  port or the mapped port and, for the port-preserving types, no connection of another host on
  that source port), the answer of the packet's remote to the mapped address and port is
  passed to the host and port the packet came from, and changes no state.
\<close>

theorem nat_reply_roundtrip:
  assumes reach: "nat_reachable (snd (Nat_init cfg)) n"
    and out: "\<not> isIngoing pkt"
    and nr: "smap_find (<) (natRules cfg) (sport pkt) = None" "smap_find (<) (natRules cfg) (sport pkt') = None"
    and one: "\<And>m j e. natMapper n = Some (PlainMapper m) \<Longrightarrow> present (entries m) j e \<Longrightarrow>
      getSport (intTuple e) = sport pkt \<Longrightarrow> getSrcIP (intTuple e) = srcIp pkt"
    and h: "Nat_handlePacket now pkt n = Inr (Some pkt', n')"
    and r: "isIngoing r" "srcIp r = dstIp pkt" "sport r = dport pkt" "dstIp r = srcIp pkt'"
      "dport r = sport pkt'" "transProt r = transProt pkt"
  shows "Nat_handlePacket t r n' = Inr (Some (r\<lparr>dstIp := srcIp pkt, dport := sport pkt\<rparr>), n')"
proof -
  obtain m f where m: "natMapper n = Some m" "mapper_ok n m" and f: "natFilter n = Some f"
    and cfg: "natRules n = natRules cfg" using nat_initialised [OF reach] by (metis same_cfg_def)
  obtain m' f' where m': "mapPacket now pkt (Some m) = Inr (True, pkt', m')"
    and f': "filterPacket now pkt' (Some f) = Inr (True, f')"
    and n': "n' = n\<lparr>natFilter := Some f', natMapper := Some m'\<rparr>"
    using nat_outgoing_calls [OF h m(1) f out refl] by blast
  have *: "same_remote pkt pkt' \<and>
      mapPacket t r (Some m') = Inr (True, r\<lparr>dstIp := srcIp pkt, dport := sport pkt\<rparr>, m')"
  proof (cases m)
    case (PlainMapper p)
    then obtain p' where p': "NatMapper_mapPacket now pkt p = (True, pkt', p')" "m' = PlainMapper p'"
      using m' by (auto simp: mapPacket_def split: prod.splits)
    have "NatMapper_mapPacket t r p' = (True, r\<lparr>dstIp := srcIp pkt, dport := sport pkt\<rparr>, p')"
      by (rule plain_answered [OF _ out _ _ p'(1) r(1,5)])
        (use m(2) PlainMapper nr(1) cfg one m(1) in \<open>auto simp: mapper_ok_def\<close>)
    then show ?thesis using plain_same_remote [OF out p'(1)] by (simp add: mapPacket_def p'(2))
  next
    case (SymMapper s)
    then obtain s' where s': "SymNatMapper_mapPacket now pkt s = Some (True, pkt', s')" "m' = SymMapper s'"
      using m' by (auto simp: mapPacket_def split: prod.splits option.splits)
    have "SymNatMapper_mapPacket t r s' = Some (True, r\<lparr>dstIp := srcIp pkt, dport := sport pkt\<rparr>, s')"
      by (rule sym_answered [OF _ out _ s'(1) _ r(1,5)])
        (use m(2) SymMapper nr cfg in \<open>auto simp: mapper_ok_def\<close>)
    then show ?thesis using sym_same_remote [OF out s'(1)] by (simp add: mapPacket_def s'(2))
  qed
  have "filterPacket t r (Some f') = Inr (True, f')"
    by (rule filter_answered [OF f'])
      (use * out r in \<open>simp_all add: same_remote_def tuple_of_def extTup_of_def\<close>)
  then show ?thesis using * r(1) by (simp add: n' Nat_handlePacket_def)
qed


section \<open>The NAT types\<close>

text \<open>Which remote ends a NAT type lets answer a packet.\<close>

definition answers :: "nat_type \<Rightarrow> packet \<Rightarrow> packet \<Rightarrow> bool" where
  "answers ty r pkt =
     (case ty of
        FULL_CONE_NAT \<Rightarrow> True
      | ADDR_R_NAT \<Rightarrow> srcIp r = dstIp pkt
      | PORT_R_NAT \<Rightarrow> srcIp r = dstIp pkt \<and> sport r = dport pkt
      | SYM_NAT \<Rightarrow> srcIp r = dstIp pkt \<and> sport r = dport pkt)"

lemma answers_src [simp]: "answers ty r (pkt\<lparr>srcIp := x\<rparr>) = answers ty r pkt"
  by (cases ty) (simp_all add: answers_def)

definition fresh_filter :: "nat_handler \<Rightarrow> filter_obj" where
  "fresh_filter cfg = the (natFilter (snd (Nat_init cfg)))"

definition fresh_mapper :: "nat_handler \<Rightarrow> mapper_obj" where
  "fresh_mapper cfg = the (natMapper (snd (Nat_init cfg)))"

lemma fresh_eqs:
  "snd (Nat_init cfg) = cfg\<lparr>natMapper := Some (fresh_mapper cfg), natFilter := Some (fresh_filter cfg)\<rparr>"
  "natMapper (snd (Nat_init cfg)) = Some (fresh_mapper cfg)"
  "natFilter (snd (Nat_init cfg)) = Some (fresh_filter cfg)"
  by (simp_all add: fresh_mapper_def fresh_filter_def Nat_init_def Let_def split: nat_type.split)

lemma fresh_filter_semantics:
  assumes "filterPacket now p (Some (fresh_filter cfg)) = Inr (b, f')"
    and "\<not> isIngoing p" and "isIngoing r" and "smap_find (<) (natRules cfg) (dport r) = None"
    and "dstIp r = srcIp p" and "dport r = sport p" and "transProt r = transProt p"
  shows "filterPacket t r (Some f') = Inr (answers (natType cfg) r p, f')"
proof -
  have k: "equiv_key ct_less (tuple_of r) (extTup_of p) \<longleftrightarrow> srcIp r = dstIp p \<and> sport r = dport p"
    "equiv_key addrr_less (tuple_of r) (extTup_of p) \<longleftrightarrow> srcIp r = dstIp p"
    using assms(5-7) by (auto simp: tuple_of_def extTup_of_def equiv_addrr_less addrr_eq_def tie_addrr_def)
  show ?thesis
    using assms(1) portr.answered_only [OF _ assms(2-4), of now _ b _ t]
      addrr.answered_only [OF _ assms(2-4), of now _ b _ t]
    unfolding k
    by (cases "natType cfg")
      (auto simp: fresh_filter_def Nat_init_def Let_def filterPacket_def answers_def
        filter_setDnatRules_def PortrSymNatFilter_filterPacket_def AddrrNatFilter_filterPacket_def
        FullconeNatFilter_filterPacket_def split: prod.splits)
qed

lemma fresh_mapper_outgoing:
  assumes "\<not> isIngoing pkt" and "smap_find (<) (natRules cfg) (sport pkt) = None"
  shows "\<exists>m'. mapPacket now pkt (Some (fresh_mapper cfg)) = Inr (True, pkt\<lparr>srcIp := natIpExt cfg\<rparr>, m')"
  using assms
  by (cases "natType cfg")
    (simp_all add: fresh_mapper_def Nat_init_def Let_def mapPacket_def mapper_setDnatRules_def
      setDnatRules_def NatMapper_new_def SymNatMapper_new_def NatMapper_mapPacket_def
      SymNatMapper_mapPacket_def checkDnat_def find_entry_def mapPort_def mapPort_loop.simps tuple_of_def)

text \<open>
  C12. The four NAT types: after one packet out of a freshly initialised NAT, which leaves with
  the external address and its own source port, a packet to that address and port is passed to
  the sender exactly if it comes from: anywhere (full cone), the address the packet went to
  (address restricted), the address and port the packet went to (port restricted, symmetric).
\<close>

theorem nat_type_semantics:
  assumes n: "n = snd (Nat_init cfg)"
    and out: "\<not> isIngoing pkt" and nr: "smap_find (<) (natRules cfg) (sport pkt) = None"
    and h: "Nat_handlePacket now pkt n = Inr (res, n')"
    and r: "isIngoing r" "dstIp r = natIpExt cfg" "dport r = sport pkt" "transProt r = transProt pkt"
  shows "res = Some (pkt\<lparr>srcIp := natIpExt cfg\<rparr>) \<and>
    Nat_handlePacket t r n' =
      Inr (if answers (natType cfg) r pkt
           then Some (r\<lparr>dstIp := srcIp pkt, dport := sport pkt\<rparr>) else None, n')"
proof -
  let ?p = "pkt\<lparr>srcIp := natIpExt cfg\<rparr>"
  obtain m' where m': "mapPacket now pkt (Some (fresh_mapper cfg)) = Inr (True, ?p, m')"
    using fresh_mapper_outgoing [OF out nr] by blast
  obtain b f' where f': "filterPacket now ?p (Some (fresh_filter cfg)) = Inr (b, f')"
    using filterPacket_total by blast
  have b using filterPacket_outgoing [OF _ f'] out by simp
  have "Inr (Some ?p, n\<lparr>natFilter := Some f', natMapper := Some m'\<rparr>) = Nat_handlePacket now pkt n"
    using m' f' \<open>b\<close> out by (simp add: n fresh_eqs Nat_handlePacket_def)
  with h have res: "res = Some ?p" and n': "n' = n\<lparr>natFilter := Some f', natMapper := Some m'\<rparr>" by simp_all
  have flt: "filterPacket t r (Some f') = Inr (answers (natType cfg) r pkt, f')"
    using fresh_filter_semantics [OF f'] out r nr by simp
  have "mapPacket t r (Some m') = Inr (True, r\<lparr>dstIp := srcIp pkt, dport := sport pkt\<rparr>, m')"
  proof (cases "fresh_mapper cfg")
    case (PlainMapper p)
    then obtain p' where p': "NatMapper_mapPacket now pkt p = (True, ?p, p')" "m' = PlainMapper p'"
      using m' by (auto simp: mapPacket_def split: prod.splits)
    have p: "p = setDnatRules (natRules cfg) (NatMapper_new (natIpInt cfg) (natIpExt cfg) (natTimeout cfg))"
      using PlainMapper by (cases "natType cfg")
        (simp_all add: fresh_mapper_def Nat_init_def Let_def mapper_setDnatRules_def)
    have "NatMapper_mapPacket t r p' = (True, r\<lparr>dstIp := srcIp pkt, dport := sport pkt\<rparr>, p')"
      by (rule plain_answered [OF _ out _ _ p'(1) r(1)])
        (use nr r in \<open>simp_all add: p, simp add: setDnatRules_def NatMapper_new_def present_def empty_store_def\<close>)
    then show ?thesis by (simp add: mapPacket_def p'(2))
  next
    case (SymMapper s)
    then obtain s' where s': "SymNatMapper_mapPacket now pkt s = Some (True, ?p, s')" "m' = SymMapper s'"
      using m' by (auto simp: mapPacket_def split: prod.splits option.splits)
    have s: "s = setDnatRules (natRules cfg) (SymNatMapper_new (natIpInt cfg) (natIpExt cfg) (natTimeout cfg))"
      using SymMapper by (cases "natType cfg")
        (simp_all add: fresh_mapper_def Nat_init_def Let_def mapper_setDnatRules_def)
    have "SymNatMapper_mapPacket t r s' = Some (True, r\<lparr>dstIp := srcIp pkt, dport := sport pkt\<rparr>, s')"
      by (rule sym_answered [OF _ out _ s'(1) _ r(1)]) (use nr r in \<open>simp_all add: s\<close>)
    then show ?thesis by (simp add: mapPacket_def s'(2))
  qed
  then show ?thesis using flt r(1) res by (simp add: n' Nat_handlePacket_def)
qed


section \<open>Concrete runs\<close>

definition example_nat :: "nat_type \<Rightarrow> nat_handler" where
  "example_nat ty = \<lparr>natIpExt = 2, natIpInt = 10, natTimeout = 600, natType = ty, natRules = [],
     natMapper = None, natFilter = None\<rparr>"

lemma example_out:
  "\<exists>n'. Nat_handlePacket 0 (example_packet False 10 9 1000 80) (snd (Nat_init (example_nat ty))) =
     Inr (Some (example_packet False 2 9 1000 80), n')"
proof -
  let ?p = "example_packet False 10 9 1000 80" and ?n = "snd (Nat_init (example_nat ty))"
  have out: "\<not> isIngoing ?p" and nr: "smap_find (<) (natRules (example_nat ty)) (sport ?p) = None"
    by (simp_all add: example_packet_def example_nat_def)
  have eq: "?p\<lparr>srcIp := natIpExt (example_nat ty)\<rparr> = example_packet False 2 9 1000 80"
    by (simp add: example_packet_def example_nat_def)
  from fresh_mapper_outgoing [OF out nr] obtain m' where
    m': "mapPacket 0 ?p (Some (fresh_mapper (example_nat ty))) = Inr (True, example_packet False 2 9 1000 80, m')"
    unfolding eq by blast
  obtain b f' where f': "filterPacket 0 (example_packet False 2 9 1000 80) (Some (fresh_filter (example_nat ty))) = Inr (b, f')"
    using filterPacket_total by blast
  have b using filterPacket_outgoing [OF _ f'] by (simp add: example_packet_def)
  then show ?thesis using m' f' out by (simp add: fresh_eqs Nat_handlePacket_def)
qed

lemma nat_handle_returns_witness:
  "\<exists>res. Nat_handlePacket 0 (example_packet True 9 2 80 1000) (snd (Nat_init (example_nat SYM_NAT))) = Inr res"
proof (cases "Nat_handlePacket 0 (example_packet True 9 2 80 1000) (snd (Nat_init (example_nat SYM_NAT)))")
  case (Inl e)
  from this [unfolded nat_handle_returns [OF nat_reachable.start]] show ?thesis
    by (simp add: example_packet_def)
qed blast

lemma nat_reply_roundtrip_witness:
  "\<exists>n'. Nat_handlePacket 0 (example_packet False 10 9 1000 80) (snd (Nat_init (example_nat PORT_R_NAT))) =
      Inr (Some (example_packet False 2 9 1000 80), n')
     \<and> Nat_handlePacket 5 (example_packet True 9 2 80 1000) n' =
         Inr (Some (example_packet True 9 10 80 1000), n')"
proof -
  let ?n = "snd (Nat_init (example_nat PORT_R_NAT))"
  obtain n' where h: "Nat_handlePacket 0 (example_packet False 10 9 1000 80) ?n =
      Inr (Some (example_packet False 2 9 1000 80), n')" using example_out by blast
  have "natMapper ?n = Some (PlainMapper m) \<Longrightarrow> present (entries m) j e \<Longrightarrow> False" for m j e
    by (auto simp: Nat_init_def example_nat_def mapper_setDnatRules_def setDnatRules_def
        NatMapper_new_def present_def empty_store_def)
  then have "Nat_handlePacket 5 (example_packet True 9 2 80 1000) n' =
      Inr (Some ((example_packet True 9 2 80 1000)\<lparr>dstIp := srcIp (example_packet False 10 9 1000 80),
        dport := sport (example_packet False 10 9 1000 80)\<rparr>), n')"
    by (intro nat_reply_roundtrip [OF nat_reachable.start _ _ _ _ h])
      (auto simp: example_packet_def example_nat_def)
  then show ?thesis using h by (auto simp: example_packet_def)
qed

lemma nat_type_semantics_witness:
  "\<exists>n'. Nat_handlePacket 5 (example_packet True 9 2 81 1000) n' = Inr (None, n')
     \<and> Nat_handlePacket 6 (example_packet True 9 2 80 1000) n' = Inr (Some (example_packet True 9 10 80 1000), n')"
proof -
  let ?n = "snd (Nat_init (example_nat PORT_R_NAT))"
  obtain n' where h: "Nat_handlePacket 0 (example_packet False 10 9 1000 80) ?n =
      Inr (Some (example_packet False 2 9 1000 80), n')" using example_out by blast
  have "Nat_handlePacket t (example_packet True 9 2 q 1000) n' =
      Inr (if q = 80 then Some (example_packet True 9 10 q 1000) else None, n')" for t q
    using nat_type_semantics [OF refl _ _ h, of "example_packet True 9 2 q 1000" t]
    by (auto simp: example_packet_def example_nat_def answers_def)
  from this [of 5 81] this [of 6 80] show ?thesis by auto
qed

end
