(* ===== verification/Nat_Origin.thy ===== *)
theory Nat_Origin
  imports Nat_Handler
begin

text \<open>
  Where the packets come from that \<open>Nat\<close> passes. The state of the mapper and of the filter is
  related to the set of packets that have been handled so far: each connection and each key of
  a filter was made by an outgoing packet of that set. So an ingoing packet that is passed has a
  forwarding rule, or it goes to the host of a packet in the set and comes from a remote end
  that a packet in the set was sent to.
\<close>

section \<open>Packets up to their bookkeeping\<close>

text \<open>The filters write the time stamp and the verdict flag of a packet.\<close>

definition bare :: "'a parent_packet_scheme \<Rightarrow> 'a parent_packet_scheme" where
  "bare p = p\<lparr>stamp := 0, verdictSet := False\<rparr>"

lemma bare_fields [simp]:
  "isIngoing (bare p) = isIngoing p" "sport (bare p) = sport p" "dport (bare p) = dport p"
  "nfqID (bare p) = nfqID p" "bare (bare p) = bare p"
  "bare (p\<lparr>stamp := t\<rparr>) = bare p" "bare (p\<lparr>verdictSet := v\<rparr>) = bare p"
  "bare (resetTimeStamp t p) = bare p" "bare (fst (setVerdict a p)) = bare p"
  by (simp_all add: bare_def resetTimeStamp_def setVerdict_def)

lemma bare_packet [simp]:
  "srcIp (bare q) = srcIp q" "dstIp (bare q) = dstIp q" "transProt (bare q) = transProt q"
  "tuple_of (bare q) = tuple_of q" "extTup_of (bare q) = extTup_of q"
  "bare (q\<lparr>dstIp := d, dport := dp\<rparr>) = (bare q)\<lparr>dstIp := d, dport := dp\<rparr>"
  "bare (q\<lparr>srcIp := s, sport := sp\<rparr>) = (bare q)\<lparr>srcIp := s, sport := sp\<rparr>"
  by (simp_all add: bare_def tuple_of_def extTup_of_def)

section \<open>What the translation may pass\<close>

text \<open>
  \<open>q\<close> is the packet that made the connection, \<open>o\<close> one that made the remote end known; for the
  types that keep the port they left from the port that the answer goes to.
\<close>

definition via_connection :: "nat_handler \<Rightarrow> packet set \<Rightarrow> packet \<Rightarrow> packet \<Rightarrow> bool" where
  "via_connection cfg H p r \<longleftrightarrow> (\<exists>q \<in> H. \<not> isIngoing q \<and> r = p\<lparr>dstIp := srcIp q, dport := sport q\<rparr>
     \<and> (natType cfg \<noteq> SYM_NAT \<longrightarrow> sport q = dport p))"

definition known_remote :: "nat_handler \<Rightarrow> packet set \<Rightarrow> packet \<Rightarrow> bool" where
  "known_remote cfg H p \<longleftrightarrow> natType cfg = FULL_CONE_NAT \<or> dstIp p = natIpExt cfg
     \<and> (\<exists>q \<in> H. \<not> isIngoing q \<and> answers (natType cfg) p q \<and> transProt p = transProt q)"

definition let_in :: "nat_handler \<Rightarrow> packet set \<Rightarrow> packet \<Rightarrow> packet \<Rightarrow> bool" where
  "let_in cfg H p r \<longleftrightarrow>
     (case smap_find (<) (natRules cfg) (dport p) of
        Some rule \<Rightarrow> r = p\<lparr>dstIp := getDstIP rule, dport := getDport rule\<rparr>
      | None \<Rightarrow> via_connection cfg H p r \<and> known_remote cfg H p)"

definition nat_sends :: "nat_handler \<Rightarrow> packet set \<Rightarrow> packet set" where
  "nat_sends cfg H = {r. \<exists>p \<in> H. isIngoing r = isIngoing p
     \<and> (if isIngoing p then let_in cfg H p r else \<exists>s. r = p\<lparr>srcIp := natIpExt cfg, sport := s\<rparr>)}"

lemma let_in_mono: "H \<subseteq> K \<Longrightarrow> let_in cfg H p r \<Longrightarrow> let_in cfg K p r"
  unfolding let_in_def via_connection_def known_remote_def by (auto split: option.splits)

lemma nat_sends_mono: "H \<subseteq> K \<Longrightarrow> nat_sends cfg H \<subseteq> nat_sends cfg K"
  unfolding nat_sends_def using let_in_mono by (smt (verit) Collect_mono subsetD)

section \<open>The state and the packets so far\<close>

definition entry_from :: "packet set \<Rightarrow> conn_entry \<Rightarrow> bool" where
  "entry_from H e \<longleftrightarrow> (\<exists>q \<in> H. \<not> isIngoing q \<and> intTuple e = tuple_of q)"

definition mapper_from :: "packet set \<Rightarrow> mapper_obj \<Rightarrow> bool" where
  "mapper_from H mo =
     (case mo of
        PlainMapper m \<Rightarrow> \<forall>i e. live (entries m) i = Some e \<longrightarrow> entry_from H e
      | SymMapper s \<Rightarrow> \<forall>i e. live (sym_entries s) i = Some e \<longrightarrow> entry_from H e)"

definition keys_from ::
  "u32 \<Rightarrow> (connection_tuple \<Rightarrow> connection_tuple \<Rightarrow> bool) \<Rightarrow> packet set \<Rightarrow> restricted_filter \<Rightarrow> bool" where
  "keys_from ipE lt H f \<longleftrightarrow> (\<forall>t. smap_find lt (connMap f) t \<noteq> None \<longrightarrow>
     (\<exists>q \<in> H. \<exists>s. \<not> isIngoing q \<and> equiv_key lt t (extTup_of (q\<lparr>srcIp := ipE, sport := s\<rparr>))))"

definition filter_from :: "u32 \<Rightarrow> packet set \<Rightarrow> filter_obj \<Rightarrow> bool" where
  "filter_from ipE H fo =
     (case fo of
        PortrSymFilter f \<Rightarrow> keys_from ipE ct_less H f
      | AddrrFilter f \<Rightarrow> keys_from ipE addrr_less H f
      | FullconeFilter c \<Rightarrow> True)"

definition nat_from :: "packet set \<Rightarrow> nat_handler \<Rightarrow> bool" where
  "nat_from H n \<longleftrightarrow> nat_ok n \<and> (\<exists>m. natMapper n = Some m \<and> mapper_from H m)
     \<and> (\<exists>f. natFilter n = Some f \<and> filter_from (natIpExt n) H f)"

lemma from_mono:
  assumes "H \<subseteq> K"
  shows "mapper_from H m \<Longrightarrow> mapper_from K m" and "filter_from ipE H f \<Longrightarrow> filter_from ipE K f"
    and "nat_from H n \<Longrightarrow> nat_from K n"
proof -
  show m: "mapper_from H m \<Longrightarrow> mapper_from K m" for m
    using assms unfolding mapper_from_def entry_from_def by (fastforce split: mapper_obj.splits)
  show f: "filter_from ipE H f \<Longrightarrow> filter_from ipE K f" for ipE f
    using assms unfolding filter_from_def keys_from_def by (cases f; simp; blast)
  show "nat_from H n \<Longrightarrow> nat_from K n"
    unfolding nat_from_def using m f by blast
qed

lemma nat_from_init: "nat_from {} (snd (Nat_init cfg))"
  unfolding nat_from_def
  by (intro conjI, rule nat_ok_init)
    (cases "natType cfg"; simp add: Nat_init_def Let_def mapper_setDnatRules_def filter_setDnatRules_def
      mapper_from_def filter_from_def keys_from_def setDnatRules_def NatMapper_new_def SymNatMapper_new_def
      empty_store_def nf_setDnatRules_def restricted_filter_new_def)+

section \<open>The timers\<close>

lemma mapper_from_tick: "mapper_tick m m' \<Longrightarrow> mapper_from H m \<Longrightarrow> mapper_from H m'"
proof (induction rule: mapper_tick.induct)
  case (plain_expire now i m st)
  then show ?case by (auto simp: mapper_from_def dest!: store_expireD split: if_splits)
next
  case (plain_delete k m i e st)
  then show ?case by (auto simp: mapper_from_def NatMapper_removeFromMaps_def dest!: store_reapD)
next
  case (sym_expire now i s st)
  then show ?case by (auto simp: mapper_from_def dest!: store_expireD split: if_splits)
next
  case (sym_delete k s i e st)
  then show ?case by (auto simp: mapper_from_def SymNatMapper_removeFromMaps_def dest!: store_reapD)
qed

context tuple_order
begin

lemma keys_erase: "keys_from ipE lt H f \<Longrightarrow> keys_from ipE lt H (restricted_removeFromMaps lt t (f\<lparr>connEntries := st\<rparr>))"
  by (auto simp: keys_from_def restricted_removeFromMaps_def find_erase split: if_splits)

lemma keys_handled:
  assumes "keys_from ipE lt H f" and "restricted_filterPacket lt now pkt f = (b, f')"
    and "\<not> isIngoing pkt \<Longrightarrow> \<exists>q \<in> H. \<exists>s. \<not> isIngoing q \<and> extTup_of pkt = extTup_of (q\<lparr>srcIp := ipE, sport := s\<rparr>)"
  shows "keys_from ipE lt H f'"
proof (cases "isIngoing pkt")
  case True
  then show ?thesis using assms(1,2) by (auto simp: rf_in)
next
  case out: False
  show ?thesis
  proof (cases "find_entry lt (connMap f) (connEntries f) (extTup_of pkt)")
    case None
    have m: "connMap f' = smap_insert lt (extTup_of pkt) (next_entry (connEntries f)) (connMap f)"
      using assms(2) rf_out_new [OF out None, of now] by auto
    from assms(3) [OF out] obtain q s where q: "q \<in> H" "\<not> isIngoing q"
      "extTup_of pkt = extTup_of (q\<lparr>srcIp := ipE, sport := s\<rparr>)" by blast
    show ?thesis unfolding keys_from_def m find_insert
    proof (intro allI impI)
      fix t
      assume "(if equiv_key lt t (extTup_of pkt) then Some (next_entry (connEntries f)) else smap_find lt (connMap f) t) \<noteq> None"
      then show "\<exists>q \<in> H. \<exists>s. \<not> isIngoing q \<and> equiv_key lt t (extTup_of (q\<lparr>srcIp := ipE, sport := s\<rparr>))"
        using q assms(1) by (cases "equiv_key lt t (extTup_of pkt)") (auto simp: keys_from_def)
    qed
  next
    case (Some ie)
    then obtain i e where "find_entry lt (connMap f) (connEntries f) (extTup_of pkt) = Some (i, e)"
      by (cases ie) simp
    from assms(2) rf_out_known [OF out this, of now] have "connMap f' = connMap f" by auto
    then show ?thesis using assms(1) by (simp add: keys_from_def)
  qed
qed

end

lemma filter_from_tick: "filter_timer f f' \<Longrightarrow> filter_from ipE H f \<Longrightarrow> filter_from ipE H f'"
proof (induction rule: filter_timer.induct)
  case (portr_timer f f')
  then show ?case by (auto simp: filter_from_def portr.keys_erase elim!: rf_timer.cases) (simp add: keys_from_def)
next
  case (addrr_timer f f')
  then show ?case by (auto simp: filter_from_def addrr.keys_erase elim!: rf_timer.cases) (simp add: keys_from_def)
qed

section \<open>A packet out\<close>

lemma entry_from_tuples [simp]:
  "entry_from H (rearm now e) = entry_from H e" "entry_from H (start now e) = entry_from H e"
  by (simp_all add: entry_from_def)

lemma entry_from_new: "bare pkt \<in> H \<Longrightarrow> \<not> isIngoing pkt \<Longrightarrow> entry_from H (ConnectionEntry_new to x (tuple_of pkt))"
  unfolding entry_from_def by (rule bexI [of _ "bare pkt"]) simp_all

lemma from_rearm:
  "\<forall>i e. live st i = Some e \<longrightarrow> entry_from H e \<Longrightarrow> live (store_rearm now j st) i = Some e \<Longrightarrow> entry_from H e"
  by (auto simp: live_rearm split: if_splits)

lemma from_add:
  "\<forall>i e. live st i = Some e \<longrightarrow> entry_from H e \<Longrightarrow> entry_from H f \<Longrightarrow>
     live (snd (store_add f st)) i = Some e \<Longrightarrow> entry_from H e"
  by (auto simp: live_add split: if_splits)

lemma new_entries:
  "entries (NatMapper_makeNewConn now x t m) =
     snd (store_add (start now (ConnectionEntry_new (connectionTimeout m) x t)) (entries m))"
  "sym_entries (SymNatMapper_makeNewConn now x t s) =
     snd (store_add (start now (ConnectionEntry_new (connectionTimeout s) x t)) (sym_entries s))"
  by (simp_all add: NatMapper_makeNewConn_def SymNatMapper_makeNewConn_def split_def)

lemma mapper_out:
  assumes "mapPacket now pkt (Some m) = Inr (b, r, m')" and "\<not> isIngoing pkt" and "mapper_ok n m"
    and "mapper_from H m" and "bare pkt \<in> H"
  shows "mapper_from H m'" and "b \<Longrightarrow> \<exists>s. r = pkt\<lparr>srcIp := natIpExt n, sport := s\<rparr>"
proof -
  have "mapper_from H m' \<and> (b \<longrightarrow> (\<exists>s. r = pkt\<lparr>srcIp := natIpExt n, sport := s\<rparr>))"
  proof (cases m)
    case (PlainMapper p)
    then obtain p' where p': "NatMapper_mapPacket now pkt p = (b, r, p')" "m' = PlainMapper p'"
      using assms(1) by (auto simp: mapPacket_def split: prod.splits)
    have I: "nm_inv p" "ipExt p = natIpExt n" using assms(3) PlainMapper by (simp_all add: mapper_ok_def)
    have F: "\<forall>i e. live (entries p) i = Some e \<longrightarrow> entry_from H e" using assms(4) PlainMapper by (simp add: mapper_from_def)
    show ?thesis
    proof (cases "fst (checkDnat p pkt)")
      case True
      from mapPacket_forwarded [OF this, of now] p' have e: "p' = p" "r = snd (checkDnat p pkt)" by simp_all
      have "r = pkt\<lparr>srcIp := natIpExt n, sport := sport pkt\<rparr>"
        using True assms(2) I(2) by (auto simp: e checkDnat_def split: option.splits)
      then show ?thesis using assms(4) PlainMapper p'(2) e by blast
    next
      case nf: False
      show ?thesis
      proof (cases "find_entry (<) (intPortMap p) (entries p) (sport pkt)")
        case None
        from mapPacket_out_new [OF nf assms(2) None, of now] p'(1)
        have e: "r = pkt\<lparr>srcIp := natIpExt n, sport := sport pkt\<rparr>"
          "p' = NatMapper_makeNewConn now
            (ConnectionTuple (dstIp pkt) (ipExt p) (dport pkt) (sport pkt) (transProt pkt)) (tuple_of pkt) p"
          using I(2) by simp_all
        have "mapper_from H m'" unfolding mapper_from_def p'(2) e(2) mapper_obj.case new_entries
          by (intro allI impI, rule from_add [OF F]) (simp_all add: entry_from_new [OF assms(5,2)])
        then show ?thesis using e(1) by blast
      next
        case (Some ie)
        then obtain i e where f: "find_entry (<) (intPortMap p) (entries p) (sport pkt) = Some (i, e)"
          by (cases ie) simp
        have "getDstIP (extTuple e) = natIpExt n"
          using nm_invD(6) [OF I(1) live_present] f I(2) by (auto simp: find_entry_Some)
        with mapPacket_out_known [OF nf assms(2) f, of now] p' show ?thesis
          using from_rearm [OF F] by (auto simp: mapper_from_def)
      qed
    qed
  next
    case (SymMapper s)
    then obtain s' where s': "SymNatMapper_mapPacket now pkt s = Some (b, r, s')" "m' = SymMapper s'"
      using assms(1) by (auto simp: mapPacket_def split: prod.splits option.splits)
    have I: "sn_inv s" "ipExt s = natIpExt n" using assms(3) SymMapper by (simp_all add: mapper_ok_def)
    have F: "\<forall>i e. live (sym_entries s) i = Some e \<longrightarrow> entry_from H e" using assms(4) SymMapper by (simp add: mapper_from_def)
    show ?thesis
    proof (cases "fst (checkDnat s pkt)")
      case True
      from sym_mapPacket_forwarded [OF this, of now] s' have e: "s' = s" "r = snd (checkDnat s pkt)" by simp_all
      have "r = pkt\<lparr>srcIp := natIpExt n, sport := sport pkt\<rparr>"
        using True assms(2) I(2) by (auto simp: e checkDnat_def split: option.splits)
      then show ?thesis using assms(4) SymMapper s'(2) e by blast
    next
      case nf: False
      show ?thesis
      proof (cases "find_entry ct_less (sym_intPortMap s) (sym_entries s) (tuple_of pkt)")
        case None
        from sym_mapPacket_out_new [OF nf assms(2) None, of now] s'(1) obtain port where
          e: "r = pkt\<lparr>srcIp := natIpExt n, sport := port\<rparr>"
          "s' = SymNatMapper_makeNewConn now
            (ConnectionTuple (dstIp pkt) (ipExt s) (dport pkt) port (transProt pkt)) (tuple_of pkt) s"
          using I(2) by (auto split: option.splits)
        have "mapper_from H m'" unfolding mapper_from_def s'(2) e(2) mapper_obj.case new_entries
          by (intro allI impI, rule from_add [OF F]) (simp_all add: entry_from_new [OF assms(5,2)])
        then show ?thesis using e(1) by blast
      next
        case (Some ie)
        then obtain i e where f: "find_entry ct_less (sym_intPortMap s) (sym_entries s) (tuple_of pkt) = Some (i, e)"
          by (cases ie) simp
        have "getDstIP (extTuple e) = natIpExt n"
          using sn_invD(5) [OF I(1) live_present] f I(2) by (auto simp: find_entry_Some)
        with sym_mapPacket_out_known [OF nf assms(2) f, of now] s' show ?thesis
          using from_rearm [OF F] by (auto simp: mapper_from_def)
      qed
    qed
  qed
  then show "mapper_from H m'" "b \<Longrightarrow> \<exists>s. r = pkt\<lparr>srcIp := natIpExt n, sport := s\<rparr>" by blast+
qed

section \<open>A packet in\<close>

lemma checkDnat_in:
  assumes "isIngoing pkt"
  shows "checkDnat m pkt = (case smap_find (<) (dnatRules m) (dport pkt) of
    None \<Rightarrow> (False, pkt) | Some rule \<Rightarrow> (True, pkt\<lparr>dstIp := getDstIP rule, dport := getDport rule\<rparr>))"
  using assms by (auto simp: checkDnat_def split: option.split)

lemma mapper_in:
  assumes "mapPacket now pkt (Some m) = Inr (b, r, m')" and "isIngoing pkt" and "mapper_ok n m"
    and "mapper_from H m"
  shows "m' = m" and "b \<Longrightarrow> (case smap_find (<) (natRules n) (dport pkt) of
      Some rule \<Rightarrow> r = pkt\<lparr>dstIp := getDstIP rule, dport := getDport rule\<rparr>
    | None \<Rightarrow> via_connection n H pkt r)"
proof -
  have "m' = m \<and> (b \<longrightarrow> (case smap_find (<) (natRules n) (dport pkt) of
      Some rule \<Rightarrow> r = pkt\<lparr>dstIp := getDstIP rule, dport := getDport rule\<rparr> | None \<Rightarrow> via_connection n H pkt r))"
  proof (cases m)
    case (PlainMapper p)
    then obtain p' where p': "NatMapper_mapPacket now pkt p = (b, r, p')" "m' = PlainMapper p'"
      using assms(1) by (auto simp: mapPacket_def split: prod.splits)
    have I: "nm_inv p" "dnatRules p = natRules n" using assms(3) PlainMapper by (simp_all add: mapper_ok_def)
    have F: "live (entries p) i = Some e \<Longrightarrow> entry_from H e" for i e
      using assms(4) PlainMapper by (simp add: mapper_from_def)
    show ?thesis
    proof (cases "smap_find (<) (natRules n) (dport pkt)")
      case (Some rule)
      then have "checkDnat p pkt = (True, pkt\<lparr>dstIp := getDstIP rule, dport := getDport rule\<rparr>)"
        by (simp add: checkDnat_in [OF assms(2)] I(2))
      with mapPacket_forwarded [of p pkt now] p' PlainMapper Some show ?thesis by simp
    next
      case None
      then have nf: "\<not> fst (checkDnat p pkt)" by (simp add: checkDnat_in [OF assms(2)] I(2))
      show ?thesis
      proof (cases "find_entry (<) (extPortMap p) (entries p) (dport pkt)")
        case n: None
        then show ?thesis using mapPacket_in [OF nf assms(2), of now] p' PlainMapper by simp
      next
        case (Some ie)
        moreover obtain i e where ie: "ie = (i, e)" by (cases ie)
        ultimately have f: "smap_find (<) (extPortMap p) (dport pkt) = Some i" "live (entries p) i = Some e" "ie = (i, e)"
          by (simp_all add: find_entry_Some)
        from F [OF f(2)] obtain q where q: "q \<in> H" "\<not> isIngoing q" "intTuple e = tuple_of q"
          by (auto simp: entry_from_def)
        have "getSport (intTuple e) = dport pkt"
          using nm_invD(2) [OF I(1)] nm_invD(4) [OF I(1) _ live_present [OF f(2)]] f(1) by simp
        then have "via_connection n H pkt (pkt\<lparr>dstIp := getSrcIP (intTuple e), dport := getSport (intTuple e)\<rparr>)"
          unfolding via_connection_def using q by (intro bexI [of _ q]) (simp_all add: tuple_of_def)
        then show ?thesis using mapPacket_in [OF nf assms(2), of now] p' PlainMapper Some f(3) None by simp
      qed
    qed
  next
    case (SymMapper s)
    then obtain s' where s': "SymNatMapper_mapPacket now pkt s = Some (b, r, s')" "m' = SymMapper s'"
      using assms(1) by (auto simp: mapPacket_def split: prod.splits option.splits)
    have I: "natType n = SYM_NAT" "dnatRules s = natRules n" using assms(3) SymMapper by (simp_all add: mapper_ok_def)
    have F: "live (sym_entries s) i = Some e \<Longrightarrow> entry_from H e" for i e
      using assms(4) SymMapper by (simp add: mapper_from_def)
    show ?thesis
    proof (cases "smap_find (<) (natRules n) (dport pkt)")
      case (Some rule)
      then have "checkDnat s pkt = (True, pkt\<lparr>dstIp := getDstIP rule, dport := getDport rule\<rparr>)"
        by (simp add: checkDnat_in [OF assms(2)] I(2))
      with sym_mapPacket_forwarded [of s pkt now] s' SymMapper Some show ?thesis by simp
    next
      case None
      then have nf: "\<not> fst (checkDnat s pkt)" by (simp add: checkDnat_in [OF assms(2)] I(2))
      show ?thesis
      proof (cases "find_entry (<) (sym_extPortMap s) (sym_entries s) (dport pkt)")
        case n: None
        then show ?thesis using sym_mapPacket_in [OF nf assms(2), of now] s' SymMapper by simp
      next
        case (Some ie)
        moreover obtain i e where ie: "ie = (i, e)" by (cases ie)
        ultimately have f: "live (sym_entries s) i = Some e" "ie = (i, e)" by (simp_all add: find_entry_Some)
        from F [OF f(1)] obtain q where q: "q \<in> H" "\<not> isIngoing q" "intTuple e = tuple_of q"
          by (auto simp: entry_from_def)
        have "via_connection n H pkt (pkt\<lparr>dstIp := getSrcIP (intTuple e), dport := getSport (intTuple e)\<rparr>)"
          unfolding via_connection_def using q I(1) by (intro bexI [of _ q]) (simp_all add: tuple_of_def)
        then show ?thesis using sym_mapPacket_in [OF nf assms(2), of now] s' SymMapper Some f(2) None by simp
      qed
    qed
  qed
  then show "m' = m" "b \<Longrightarrow> (case smap_find (<) (natRules n) (dport pkt) of
      Some rule \<Rightarrow> r = pkt\<lparr>dstIp := getDstIP rule, dport := getDport rule\<rparr>
    | None \<Rightarrow> via_connection n H pkt r)" by blast+
qed

lemma filter_in:
  assumes "filterPacket now pkt (Some f) = Inr (b, f')" and "isIngoing pkt" and "filter_ok n f"
    and "filter_from (natIpExt n) H f"
  shows "f' = f" and "b \<Longrightarrow> smap_find (<) (natRules n) (dport pkt) = None \<Longrightarrow> known_remote n H pkt"
proof -
  have rest: "f' = f \<and> (b \<longrightarrow> smap_find (<) (natRules n) (dport pkt) = None \<longrightarrow> known_remote n H pkt)"
  proof (cases f)
    case (PortrSymFilter g)
    have R: "nf_dnatRules g = natRules n" "natType n = PORT_R_NAT \<or> natType n = SYM_NAT"
      and K: "keys_from (natIpExt n) ct_less H g"
      using assms(3,4) PortrSymFilter by (auto simp: filter_ok_def filter_from_def)
    have "known_remote n H pkt" if "smap_find ct_less (connMap g) (tuple_of pkt) \<noteq> None"
    proof -
      from K that obtain q s where "q \<in> H" "\<not> isIngoing q"
        "tuple_of pkt = extTup_of (q\<lparr>srcIp := natIpExt n, sport := s\<rparr>)" by (auto simp: keys_from_def)
      then show ?thesis using R(2)
        by (auto simp: known_remote_def answers_def tuple_of_def extTup_of_def intro!: bexI [of _ q])
    qed
    then show ?thesis using assms(1,2) R(1) PortrSymFilter
      by (auto simp: filterPacket_def PortrSymNatFilter_filterPacket_def rf_in split: if_splits)
  next
    case (AddrrFilter g)
    have R: "nf_dnatRules g = natRules n" "natType n = ADDR_R_NAT"
      and K: "keys_from (natIpExt n) addrr_less H g"
      using assms(3,4) AddrrFilter by (auto simp: filter_ok_def filter_from_def)
    have "known_remote n H pkt" if "smap_find addrr_less (connMap g) (tuple_of pkt) \<noteq> None"
    proof -
      from K that obtain q s where "q \<in> H" "\<not> isIngoing q"
        "addrr_eq (tuple_of pkt) (extTup_of (q\<lparr>srcIp := natIpExt n, sport := s\<rparr>))"
        by (auto simp: keys_from_def equiv_addrr_less)
      then show ?thesis using R(2)
        by (auto simp: known_remote_def answers_def tuple_of_def extTup_of_def addrr_eq_def tie_addrr_def
            intro!: bexI [of _ q])
    qed
    then show ?thesis using assms(1,2) R(1) AddrrFilter
      by (auto simp: filterPacket_def AddrrNatFilter_filterPacket_def rf_in split: if_splits)
  next
    case (FullconeFilter c)
    then show ?thesis using assms(1,3)
      by (auto simp: filterPacket_def FullconeNatFilter_filterPacket_def filter_ok_def known_remote_def split: prod.splits)
  qed
  then show "f' = f" "b \<Longrightarrow> smap_find (<) (natRules n) (dport pkt) = None \<Longrightarrow> known_remote n H pkt" by blast+
qed

lemma filter_out:
  assumes "filterPacket now pkt (Some f) = Inr (b, f')" and "filter_from ipE H f"
    and "\<exists>q \<in> H. \<exists>s. \<not> isIngoing q \<and> extTup_of pkt = extTup_of (q\<lparr>srcIp := ipE, sport := s\<rparr>)"
  shows "filter_from ipE H f'"
  using assms(1,2) portr.keys_handled [OF _ _ assms(3)] addrr.keys_handled [OF _ _ assms(3)]
  by (cases f) (auto simp: filterPacket_def filter_from_def PortrSymNatFilter_filterPacket_def
      AddrrNatFilter_filterPacket_def FullconeNatFilter_filterPacket_def split: prod.splits)

section \<open>The whole translation\<close>

lemma via_connection_bare: "via_connection n H p r \<Longrightarrow> via_connection n H (bare p) (bare r)"
  unfolding via_connection_def by (metis bare_fields(3) bare_packet(6))

lemma known_remote_bare [simp]: "known_remote n H (bare p) = known_remote n H p"
  by (simp add: known_remote_def answers_def cong: nat_type.case_cong)

lemma nat_handle_origin:
  assumes "Nat_handlePacket now pkt n = Inr (res, n')" and "nat_from H n" and "bare pkt \<in> H"
  shows "nat_from H n'" and "res = Some r \<Longrightarrow> bare r \<in> nat_sends n H"
proof -
  obtain m f where m: "natMapper n = Some m" "mapper_ok n m" "mapper_from H m"
    and f: "natFilter n = Some f" "filter_ok n f" "filter_from (natIpExt n) H f"
    using assms(2) by (auto simp: nat_from_def nat_ok_def)
  have ok: "nat_ok n'" using nat_step_ok [OF nat_step.handle [OF assms(1)]] assms(2) by (simp add: nat_from_def)
  have "nat_from H n' \<and> (\<forall>r. res = Some r \<longrightarrow> bare r \<in> nat_sends n H)"
  proof (cases "isIngoing pkt")
    case inc: True
    obtain c f' where f': "filterPacket now pkt (Some f) = Inr (c, f')" using filterPacket_total by blast
    note FI = filter_in [OF f' inc f(2,3)]
    show ?thesis
    proof (cases c)
      case False
      then have "res = None" "n' = n\<lparr>natFilter := Some f\<rparr>"
        using assms(1) inc f' f(1) FI(1) by (simp_all add: Nat_handlePacket_def)
      then show ?thesis using ok m f by (simp add: nat_from_def)
    next
      case c: True
      then obtain b q m' where m': "mapPacket now pkt (Some m) = Inr (b, q, m')"
        and res: "res = (if b then Some q else None)" "n' = n\<lparr>natFilter := Some f', natMapper := Some m'\<rparr>"
        using assms(1) inc f' f(1) m(1) by (auto simp: Nat_handlePacket_def try_bind_Inr_iff)
      note MI = mapper_in [OF m' inc m(2,3)]
      have "bare q \<in> nat_sends n H" if b
      proof -
        have "let_in n H (bare pkt) (bare q)"
          using MI(2) [OF that] FI(2) [OF c] via_connection_bare unfolding let_in_def by (auto split: option.splits)
        moreover have "isIngoing q = isIngoing pkt"
          using MI(2) [OF that] by (auto simp: via_connection_def split: option.splits)
        ultimately show ?thesis using assms(3) inc
          unfolding nat_sends_def by (auto intro!: bexI [of _ "bare pkt"])
      qed
      then show ?thesis using ok m f FI(1) MI(1) res by (auto simp: nat_from_def)
    qed
  next
    case out: False
    obtain b q m' where m': "mapPacket now pkt (Some m) = Inr (b, q, m')"
      using assms(1) out m(1) by (auto simp: Nat_handlePacket_def try_bind_Inr_iff)
    note MO = mapper_out [OF m' out m(2,3) assms(3)]
    show ?thesis
    proof (cases b)
      case False
      then have "res = None" "n' = n\<lparr>natMapper := Some m'\<rparr>"
        using assms(1) out m' m(1) by (simp_all add: Nat_handlePacket_def)
      then show ?thesis using ok MO(1) f by (simp add: nat_from_def)
    next
      case b: True
      then obtain c f' where f': "filterPacket now q (Some f) = Inr (c, f')"
        and res: "res = (if c then Some q else None)" "n' = n\<lparr>natFilter := Some f', natMapper := Some m'\<rparr>"
        using assms(1) out m' m(1) f(1) by (auto simp: Nat_handlePacket_def try_bind_Inr_iff)
      obtain s where q: "q = pkt\<lparr>srcIp := natIpExt n, sport := s\<rparr>" using MO(2) [OF b] by blast
      have "\<exists>p \<in> H. \<exists>s. \<not> isIngoing p \<and> extTup_of q = extTup_of (p\<lparr>srcIp := natIpExt n, sport := s\<rparr>)"
        using assms(3) out by (intro bexI [of _ "bare pkt"] exI [of _ s]) (simp_all add: q extTup_of_def)
      from filter_out [OF f' f(3) this] have "filter_from (natIpExt n) H f'" .
      moreover have "bare q \<in> nat_sends n H"
        unfolding nat_sends_def using assms(3) out by (auto simp: q intro!: bexI [of _ "bare pkt"])
      ultimately show ?thesis using ok MO(1) res by (auto simp: nat_from_def)
    qed
  qed
  then show "nat_from H n'" "res = Some r \<Longrightarrow> bare r \<in> nat_sends n H" by blast+
qed

end
