(* ===== verification/Float32.thy ===== *)
theory Float32
  imports Prelude Complex_Main
begin

text \<open>
  The C++ type \<open>float\<close> (IEEE binary32) as far as the router uses it: finite values are
  rational numbers, and every conversion and operation rounds its exact result to nearest,
  ties to even, with a 24 bit significand and the least exponent of the format. The values
  of the program stay below \<open>2 ^ 64\<close>, so infinities do not arise; NaN and signed zeros are
  not modelled. The lemmas give what the filters rely on: integers of at most 24 bits are
  exact, rounding stays within powers of two, and \<open>rand() / RAND_MAX\<close> lies in \<open>[0, 1]\<close>.
\<close>

section \<open>Rounding to nearest even\<close>

definition round_even :: "real \<Rightarrow> int" where
  "round_even q =
     (let f = \<lfloor>q\<rfloor>; r = q - of_int f
      in if r < 1 / 2 then f else if 1 / 2 < r then f + 1 else if even f then f else f + 1)"

lemma round_even_of_int [simp]: "round_even (of_int n) = n"
  by (simp add: round_even_def)

lemma round_even_range: "round_even q = \<lfloor>q\<rfloor> \<or> round_even q = \<lfloor>q\<rfloor> + 1"
  by (simp add: round_even_def Let_def)

lemma round_even_le:
  assumes "q \<le> of_int n"
  shows "round_even q \<le> n"
proof (cases "q = of_int n")
  case True
  then show ?thesis by simp
next
  case False
  with assms have "q < of_int n" by simp
  then have "\<lfloor>q\<rfloor> < n" by (simp add: floor_less_iff)
  then show ?thesis using round_even_range [of q] by linarith
qed

lemma round_even_ge: "of_int n \<le> q \<Longrightarrow> n \<le> round_even q"
  using round_even_range [of q] le_floor_iff [of n q] by linarith

section \<open>The binary exponent\<close>

function bits :: "int \<Rightarrow> nat" where
  "bits n = (if n \<le> 0 then 0 else Suc (bits (n div 2)))"
  by pat_completeness auto
termination
  by (relation "measure nat") auto

declare bits.simps [simp del]

lemma bits_bounds: "0 < n \<Longrightarrow> 2 ^ bits n \<le> 2 * n \<and> n < 2 ^ bits n"
proof (induction n rule: bits.induct)
  case (1 n)
  show ?case
  proof (cases "n = 1")
    case True
    then show ?thesis by (simp add: bits.simps)
  next
    case False
    with "1.prems" have "0 < n div 2" by auto
    with "1.IH" "1.prems" have "2 ^ bits (n div 2) \<le> 2 * (n div 2)" "n div 2 < 2 ^ bits (n div 2)"
      by auto
    with "1.prems" show ?thesis by (auto simp: bits.simps [of n])
  qed
qed

lemma bits_numeral [simp]:
  "bits 0 = 0" "bits 1 = 1" "bits (numeral (Num.Bit0 k)) = Suc (bits (numeral k))"
  "bits (numeral (Num.Bit1 k)) = Suc (bits (numeral k))" "bits (numeral Num.One) = 1"
  by (simp_all add: bits.simps [of 0] bits.simps [of 1] bits.simps [of "numeral (Num.Bit0 k)"]
      bits.simps [of "numeral (Num.Bit1 k)"])

definition floor_log2 :: "real \<Rightarrow> int" where
  "floor_log2 x =
     (if 1 \<le> x then int (bits \<lfloor>x\<rfloor>) - 1 else - int (bits (\<lceil>1 / x\<rceil> - 1)))"

lemma powi_le_iff: "(2::real) powi i \<le> 2 powi j \<longleftrightarrow> i \<le> j"
  using power_int_increasing [of i j "2 :: real"] power_int_strict_increasing [of j i "2 :: real"]
  by (cases "i \<le> j") (auto simp: not_le)

lemma floor_log2_bounds:
  assumes "0 < x"
  shows "2 powi floor_log2 x \<le> x" and "x < 2 powi (floor_log2 x + 1)"
proof -
  have "2 powi floor_log2 x \<le> x \<and> x < 2 powi (floor_log2 x + 1)"
  proof (cases "1 \<le> x")
    case True
    define n where "n = \<lfloor>x\<rfloor>"
    from True have "0 < n" by (simp add: n_def)
    from bits_bounds [OF this] have b: "2 ^ bits n \<le> 2 * n" "n + 1 \<le> 2 ^ bits n" by auto
    have "(of_int (2 ^ bits n) :: real) \<le> of_int (2 * n)" using b(1) by (simp only: of_int_le_iff)
    then have lo: "2 ^ bits n \<le> 2 * x" using of_int_floor_le [of x] unfolding n_def by simp linarith
    have "(of_int (n + 1) :: real) \<le> of_int (2 ^ bits n)" using b(2) by (simp only: of_int_le_iff)
    then have hi: "x < 2 ^ bits n" using floor_correct [of x] unfolding n_def by simp linarith
    show ?thesis using True lo hi
      by (simp add: floor_log2_def n_def [symmetric] power_int_diff)
  next
    case False
    define y m where "y = 1 / x" and "m = \<lceil>y\<rceil> - 1"
    have y: "1 < y" using False assms by (simp add: y_def)
    then have "0 < m" by (simp add: m_def less_ceiling_iff)
    from bits_bounds [OF this] have b: "2 ^ bits m \<le> 2 * m" "m + 1 \<le> 2 ^ bits m" by auto
    have "(of_int (2 ^ bits m) :: real) \<le> of_int (2 * m)" using b(1) by (simp only: of_int_le_iff)
    moreover have "of_int m < y" using ceiling_correct [of y] by (simp add: m_def)
    ultimately have lo: "2 ^ bits m < 2 * y" by simp
    have "\<lceil>y\<rceil> \<le> 2 ^ bits m" using b(2) by (simp add: m_def)
    then have "(of_int \<lceil>y\<rceil> :: real) \<le> of_int (2 ^ bits m)" by (simp only: of_int_le_iff)
    then have hi: "y \<le> 2 ^ bits m" using le_of_int_ceiling [of y] by (simp only: of_int_power of_int_numeral)
    have e: "floor_log2 x = - int (bits m)" using False by (simp add: floor_log2_def m_def y_def)
    show ?thesis using lo hi assms
      by (simp add: e y_def power_int_diff power_int_add power_int_minus field_simps)
  qed
  then show "2 powi floor_log2 x \<le> x" and "x < 2 powi (floor_log2 x + 1)" by simp_all
qed

section \<open>Rounding to binary32\<close>

definition f32 :: "real \<Rightarrow> real" where
  "f32 x =
     (if x = 0 then 0
      else let u = 2 powi (max (floor_log2 \<bar>x\<bar>) (-126) - 23)
           in of_int (round_even (x / u)) * u)"

lemma f32_0 [simp]: "f32 0 = 0"
  by (simp add: f32_def)

lemma powi_nat: "0 \<le> i \<Longrightarrow> (2::real) powi i = of_int (2 ^ nat i)"
  by (simp add: power_int_def)

text \<open>A value that is a multiple of its unit in the last place is not changed.\<close>

lemma f32_exact:
  assumes "\<bar>m\<bar> \<le> 2 ^ 24" and "-149 \<le> j"
  shows "f32 (of_int m * 2 powi j) = of_int m * 2 powi j"
proof (cases "m = 0")
  case m0: False
  define x :: real where "x = of_int m * 2 powi j"
  define e where "e = floor_log2 \<bar>x\<bar>"
  define k where "k = max e (-126) - 23"
  have x0: "x \<noteq> 0" using m0 by (simp add: x_def)
  have lo: "2 powi e \<le> \<bar>x\<bar>" unfolding e_def
    by (rule floor_log2_bounds) (use x0 in simp)
  have "(of_int \<bar>m\<bar> :: real) \<le> of_int (2 ^ 24)" using assms(1) by (simp only: of_int_le_iff)
  then have "\<bar>x\<bar> \<le> 2 ^ 24 * 2 powi j" by (simp add: x_def abs_mult)
  then have "(2::real) powi e \<le> 2 powi (24 + j)" using lo by (simp add: power_int_add)
  then have ej: "e \<le> 24 + j" by (simp only: powi_le_iff)
  have "\<exists>n. x / 2 powi k = of_int n"
  proof (cases "k \<le> j")
    case True
    have "x / 2 powi k = of_int m * 2 powi (j - k)" by (simp add: x_def power_int_diff)
    also have "\<dots> = of_int (m * 2 ^ nat (j - k))" using True by (simp add: powi_nat)
    finally show ?thesis by blast
  next
    case False
    with ej assms(2) have "e = 24 + j" "k = j + 1" by (auto simp: k_def max_def split: if_splits)
    have "2 ^ 24 * (2::real) powi j = 2 powi e"
      unfolding \<open>e = 24 + j\<close> by (simp add: power_int_add)
    also have "\<dots> \<le> \<bar>of_int m\<bar> * 2 powi j" using lo by (simp add: x_def abs_mult)
    finally have "(2 ^ 24 :: real) \<le> \<bar>of_int m\<bar>" by simp
    then have "(of_int (2 ^ 24) :: real) \<le> of_int \<bar>m\<bar>" by simp
    then have "2 ^ 24 \<le> \<bar>m\<bar>" by (simp only: of_int_le_iff)
    with assms(1) have "\<bar>m\<bar> = 2 ^ 24" by simp
    then have "m = 2 * (sgn m * 2 ^ 23)" using m0 by (simp add: sgn_if abs_if split: if_splits)
    then have "x / 2 powi k = of_int (sgn m * 2 ^ 23)"
      using \<open>k = j + 1\<close> by (simp add: x_def power_int_add field_simps)
    then show ?thesis by blast
  qed
  then obtain n where n: "x / 2 powi k = of_int n" ..
  then have "of_int (round_even (x / 2 powi k)) * 2 powi k = x"
    by (simp add: field_simps)
  with x0 show ?thesis unfolding f32_def x_def [symmetric] k_def e_def by (simp add: Let_def)
qed simp

lemma f32_of_int: "\<bar>m\<bar> \<le> 2 ^ 24 \<Longrightarrow> f32 (of_int m) = of_int m"
  using f32_exact [of m 0] by simp

text \<open>Rounding does not leave an interval \<open>[0, 2 ^ k]\<close>.\<close>

lemma f32_nonneg:
  assumes "0 \<le> x"
  shows "0 \<le> f32 x"
proof (cases "x = 0")
  case False
  define u :: real where "u = 2 powi (max (floor_log2 \<bar>x\<bar>) (-126) - 23)"
  have "0 < u" by (simp add: u_def)
  then have "0 \<le> round_even (x / u)" using assms by (intro round_even_ge) simp
  with \<open>0 < u\<close> False show ?thesis by (simp add: f32_def u_def [symmetric] Let_def)
qed simp

lemma f32_le_powi:
  assumes "0 \<le> x" and "x \<le> 2 powi k" and "-126 \<le> k"
  shows "f32 x \<le> 2 powi k"
proof (cases "x = 0")
  case False
  define E where "E = max (floor_log2 \<bar>x\<bar>) (-126)"
  define u :: real where "u = 2 powi (E - 23)"
  have u: "0 < u" by (simp add: u_def)
  have x: "0 < x" using assms(1) False by simp
  have "(2::real) powi floor_log2 x \<le> 2 powi k"
    using floor_log2_bounds(1) [OF x] assms(2) by linarith
  then have "floor_log2 x \<le> k"
    by (simp only: powi_le_iff)
  then have Ek: "E \<le> k" using assms(3) x by (simp add: E_def)
  have "x < 2 powi (floor_log2 x + 1)" by (rule floor_log2_bounds(2) [OF x])
  also have "\<dots> \<le> 2 powi (E + 1)" using x by (intro power_int_increasing) (auto simp: E_def)
  finally have xE: "x < 2 powi (E + 1)" .
  have f: "f32 x = of_int (round_even (x / u)) * u"
    using False by (simp add: f32_def E_def u_def Let_def)
  show ?thesis
  proof (cases "E = k")
    case True
    then have "x / u \<le> of_int (2 ^ 23)" using assms(2) u by (simp add: u_def power_int_diff field_simps)
    then have "round_even (x / u) \<le> 2 ^ 23" by (rule round_even_le)
    then have "(of_int (round_even (x / u)) :: real) \<le> of_int (2 ^ 23)" by (simp only: of_int_le_iff)
    then have "of_int (round_even (x / u)) * u \<le> of_int (2 ^ 23) * u"
      by (rule mult_right_mono) (use u in simp)
    then show ?thesis unfolding f using True by (simp add: u_def power_int_diff)
  next
    case False
    have "x / u \<le> of_int (2 ^ 24)" using xE u by (simp add: u_def power_int_diff power_int_add field_simps)
    then have "round_even (x / u) \<le> 2 ^ 24" by (rule round_even_le)
    then have "(of_int (round_even (x / u)) :: real) \<le> of_int (2 ^ 24)" by (simp only: of_int_le_iff)
    then have "of_int (round_even (x / u)) * u \<le> of_int (2 ^ 24) * u"
      by (rule mult_right_mono) (use u in simp)
    also have "\<dots> = 2 powi (E + 1)" by (simp add: u_def power_int_diff power_int_add)
    also have "\<dots> \<le> 2 powi k" using Ek False by (intro power_int_increasing) auto
    finally show ?thesis unfolding f .
  qed
qed simp

lemma f32_ge_powi:
  assumes "2 powi k \<le> x" and "-126 \<le> k"
  shows "2 powi k \<le> f32 x"
proof -
  define E where "E = floor_log2 x"
  define u :: real where "u = 2 powi (E - 23)"
  have u: "0 < u" by (simp add: u_def)
  have "(0::real) < 2 powi k" by simp
  then have x: "0 < x" using assms(1) by linarith
  have "(2::real) powi k < 2 powi (E + 1)"
    using assms(1) floor_log2_bounds(2) [OF x] by (simp add: E_def)
  then have Ek: "k \<le> E" using powi_le_iff [of "E + 1" k] by linarith
  have f: "f32 x = of_int (round_even (x / u)) * u"
    using x Ek assms(2) max.absorb1 [of "-126" E] by (simp add: f32_def E_def u_def Let_def)
  have "of_int (2 ^ 23) \<le> x / u"
    using floor_log2_bounds(1) [OF x] u by (simp add: E_def u_def power_int_diff field_simps)
  then have "2 ^ 23 \<le> round_even (x / u)" by (rule round_even_ge)
  then have "(of_int (2 ^ 23) :: real) \<le> of_int (round_even (x / u))" by (simp only: of_int_le_iff)
  then have "of_int (2 ^ 23) * u \<le> f32 x" unfolding f by (rule mult_right_mono) (use u in simp)
  moreover have "of_int (2 ^ 23) * u = 2 powi E" by (simp add: u_def power_int_diff)
  moreover have "(2::real) powi k \<le> 2 powi E" using Ek by (simp add: powi_le_iff)
  ultimately show ?thesis by linarith
qed

text \<open>The rounding error of a value in \<open>[0, 2 ^ k]\<close>.\<close>

lemma round_even_error: "\<bar>of_int (round_even q) - q\<bar> \<le> 1 / 2"
proof -
  have "of_int \<lfloor>q\<rfloor> \<le> q" "q < of_int \<lfloor>q\<rfloor> + 1" by linarith+
  then show ?thesis unfolding round_even_def Let_def by (simp add: abs_le_iff field_simps)
qed

lemma f32_error:
  assumes "0 \<le> x" and "x \<le> 2 powi k" and "-126 \<le> k"
  shows "\<bar>f32 x - x\<bar> \<le> 2 powi (k - 24)"
proof (cases "x = 0")
  case False
  define E where "E = max (floor_log2 \<bar>x\<bar>) (-126)"
  define u :: real where "u = 2 powi (E - 23)"
  have u: "0 < u" by (simp add: u_def)
  have x: "0 < x" using assms(1) False by simp
  have "(2::real) powi floor_log2 x \<le> 2 powi k"
    using floor_log2_bounds(1) [OF x] assms(2) by linarith
  then have "floor_log2 x \<le> k" by (simp only: powi_le_iff)
  then have Ek: "E \<le> k" using assms(3) x by (simp add: E_def)
  have f: "f32 x = of_int (round_even (x / u)) * u"
    using False by (simp add: f32_def E_def u_def Let_def)
  have "f32 x - x = (of_int (round_even (x / u)) - x / u) * u"
    using u by (simp add: f left_diff_distrib)
  then have "\<bar>f32 x - x\<bar> \<le> 1 / 2 * u"
    using mult_right_mono [OF round_even_error [of "x / u"], of u] u by (simp add: abs_mult)
  also have "\<dots> = 2 powi (E - 24)" by (simp add: u_def power_int_diff)
  also have "\<dots> \<le> 2 powi (k - 24)" using Ek by (intro power_int_increasing) auto
  finally show ?thesis .
qed simp

section \<open>Operations\<close>

text \<open>Conversion of an integer, and the rounded arithmetic operations of two floats.\<close>

definition f32_int :: "int \<Rightarrow> real" where
  "f32_int n = f32 (of_int n)"

definition f32_sub :: "real \<Rightarrow> real \<Rightarrow> real" where
  "f32_sub x y = f32 (x - y)"

definition f32_add :: "real \<Rightarrow> real \<Rightarrow> real" where
  "f32_add x y = f32 (x + y)"

definition f32_mul :: "real \<Rightarrow> real \<Rightarrow> real" where
  "f32_mul x y = f32 (x * y)"

definition f32_div :: "real \<Rightarrow> real \<Rightarrow> real" where
  "f32_div x y = f32 (x / y)"

text \<open>Conversion to an integer type truncates towards zero.\<close>

definition f32_trunc :: "real \<Rightarrow> int" where
  "f32_trunc x = (if 0 \<le> x then \<lfloor>x\<rfloor> else \<lceil>x\<rceil>)"

lemma f32_trunc_of_int [simp]: "f32_trunc (of_int n) = n"
  by (simp add: f32_trunc_def)

text \<open>Equations that evaluate closed float terms.\<close>

lemmas f32_eval = f32_def f32_int_def f32_sub_def f32_add_def f32_mul_def f32_div_def f32_trunc_def
  floor_log2_def round_even_def power_int_def Let_def power_one_over power_divide

text \<open>\<open>rand()\<close> returns a number in \<open>[0, RAND_MAX]\<close>; \<open>RAND_MAX\<close> is \<open>2 ^ 31 - 1\<close>.\<close>

definition RAND_MAX :: nat where
  "RAND_MAX = 2147483647"

text \<open>\<open>static_cast<float>(rand()) / static_cast<float>(RAND_MAX)\<close>\<close>

definition rand_float :: "nat \<Rightarrow> real" where
  "rand_float n = f32_div (f32_int (int n)) (f32_int (int RAND_MAX))"

lemma f32_RAND_MAX: "f32_int (int RAND_MAX) = 2 ^ 31"
  by (simp add: RAND_MAX_def f32_eval)

lemma rand_float_0 [simp]: "rand_float 0 = 0"
  by (simp add: rand_float_def f32_div_def f32_int_def)

lemma rand_float_nonneg: "0 \<le> rand_float n"
  unfolding rand_float_def f32_div_def f32_RAND_MAX
  by (intro f32_nonneg divide_nonneg_pos) (simp_all add: f32_int_def f32_nonneg)

lemma rand_float_pos:
  assumes "0 < n"
  shows "0 < rand_float n"
proof -
  have "1 \<le> f32_int (int n)" using f32_ge_powi [of 0 "of_int (int n)"] assms by (simp add: f32_int_def)
  then have "2 powi (-31) \<le> f32_int (int n) / 2 ^ 31" by (simp add: power_int_minus field_simps)
  from f32_ge_powi [OF this] have "2 powi (-31) \<le> rand_float n"
    unfolding rand_float_def f32_div_def f32_RAND_MAX by simp
  moreover have "(0::real) < 2 powi (-31)" by simp
  ultimately show ?thesis by linarith
qed

lemma rand_float_le_1:
  assumes "n \<le> RAND_MAX"
  shows "rand_float n \<le> 1"
proof -
  have "f32_int (int n) \<le> 2 powi 31"
    unfolding f32_int_def using assms by (intro f32_le_powi) (simp_all add: RAND_MAX_def)
  then have "f32_int (int n) / 2 ^ 31 \<le> 2 powi 0" by simp
  then show ?thesis
    unfolding rand_float_def f32_div_def f32_RAND_MAX
    using f32_le_powi [of "f32_int (int n) / 2 ^ 31" 0] by (simp add: f32_int_def f32_nonneg)
qed


text \<open>The distance of \<open>rand_float n\<close> from \<open>n / 2 ^ 31\<close>.\<close>

lemma rand_float_error:
  assumes "n \<le> RAND_MAX"
  shows "\<bar>rand_float n - real n / 2 ^ 31\<bar> \<le> 1 / 2 ^ 23"
proof -
  have n: "real n \<le> 2 powi 31" using assms by (simp add: RAND_MAX_def)
  have "\<bar>f32 (real n) - real n\<bar> \<le> 2 powi (31 - 24)"
    by (rule f32_error) (use n in simp_all)
  then have a: "\<bar>f32 (real n) / 2 ^ 31 - real n / 2 ^ 31\<bar> \<le> 1 / 2 ^ 24"
    by (simp add: abs_le_iff field_simps)
  have "f32 (real n) \<le> 2 powi 31" by (rule f32_le_powi) (use n in simp_all)
  then have "f32 (real n) / 2 ^ 31 \<le> 2 powi 0" by simp
  moreover have "0 \<le> f32 (real n) / 2 ^ 31" by (simp add: f32_nonneg)
  ultimately have "\<bar>f32 (f32 (real n) / 2 ^ 31) - f32 (real n) / 2 ^ 31\<bar> \<le> 2 powi (0 - 24)"
    by (intro f32_error) simp_all
  then have b: "\<bar>f32 (f32 (real n) / 2 ^ 31) - f32 (real n) / 2 ^ 31\<bar> \<le> 1 / 2 ^ 24"
    by (simp add: power_int_minus field_simps)
  have "rand_float n = f32 (f32 (real n) / 2 ^ 31)"
    unfolding rand_float_def f32_div_def f32_RAND_MAX by (simp add: f32_int_def)
  then have "\<bar>rand_float n - real n / 2 ^ 31\<bar> \<le> 1 / 2 ^ 24 + 1 / 2 ^ 24"
    using a b by linarith
  then show ?thesis by simp
qed

text \<open>How many values of \<open>rand()\<close> give a float below a bound.\<close>

lemma near_less:
  "\<bar>x - y\<bar> \<le> e \<Longrightarrow> y + e < p \<Longrightarrow> x < p" "\<bar>x - y\<bar> \<le> e \<Longrightarrow> x < p \<Longrightarrow> y < p + e" for x y e p :: real
  by linarith+

lemma count_bounds:
  fixes c q :: real
  assumes "\<And>n. real n < q - 256 \<Longrightarrow> n \<in> D" and "\<And>n. n \<in> D \<Longrightarrow> real n < q + 256"
    and "0 \<le> q" and "finite D"
  shows "\<bar>real (card D) - q\<bar> \<le> 257"
proof -
  have "{..<nat \<lceil>q - 256\<rceil>} \<subseteq> D"
  proof
    fix n assume "n \<in> {..<nat \<lceil>q - 256\<rceil>}"
    then have "real n < q - 256" by (simp, linarith)
    then show "n \<in> D" by (rule assms(1))
  qed
  from card_mono [OF assms(4) this] have "nat \<lceil>q - 256\<rceil> \<le> card D" by simp
  then have lo: "q - 256 \<le> real (card D)" by linarith
  have "D \<subseteq> {..<nat \<lceil>q + 256\<rceil>}"
  proof
    fix n assume "n \<in> D"
    then have "real n < q + 256" by (rule assms(2))
    then show "n \<in> {..<nat \<lceil>q + 256\<rceil>}" by (simp, linarith)
  qed
  from card_mono [OF finite_lessThan this] have "card D \<le> nat \<lceil>q + 256\<rceil>" by simp
  then have "real (card D) \<le> q + 257" using assms(3) by linarith
  with lo show ?thesis by linarith
qed

lemma rand_float_count:
  assumes "0 \<le> p" and "p \<le> 1"
  shows "\<bar>real (card {n. n \<le> RAND_MAX \<and> rand_float n < p}) - p * 2 ^ 31\<bar> \<le> 257"
proof (rule count_bounds)
  fix n assume n: "real n < p * 2 ^ 31 - 256"
  have "p * 2 ^ 31 \<le> 1 * 2 ^ 31" using assms(2) by (rule mult_right_mono) simp
  with n have r: "n \<le> RAND_MAX" by (simp add: RAND_MAX_def)
  have "real n / 2 ^ 31 + 1 / 2 ^ 23 < p" using n by (simp add: field_simps)
  then have "rand_float n < p" by (rule near_less(1) [OF rand_float_error [OF r]])
  with r show "n \<in> {n. n \<le> RAND_MAX \<and> rand_float n < p}" by simp
next
  fix n assume "n \<in> {n. n \<le> RAND_MAX \<and> rand_float n < p}"
  then have r: "n \<le> RAND_MAX" and l: "rand_float n < p" by auto
  have "real n / 2 ^ 31 < p + 1 / 2 ^ 23" by (rule near_less(2) [OF rand_float_error [OF r] l])
  then show "real n < p * 2 ^ 31 + 256" by (simp add: field_simps)
qed (use assms in simp_all)

end
