(* ===== verification/Shaper.thy ===== *)
theory Shaper
  imports Stage Async_Queue Float32
begin

text \<open>
  \<open>StaticDelay\<close> and \<open>Loss\<close> (shaper.hpp, shaper.cpp). The delay filter is a transition
  system: packets arrive in its \<open>AsyncQueue\<close>, the queue posts invocations of \<open>popHandler\<close>,
  which arm timers, whose handlers pass the packet on and pop again. Times are in
  microseconds. The operations are written for a record scheme, because \<open>DynamicDelay\<close> has
  the same code over more fields.
\<close>

section \<open>StaticDelay\<close>

text \<open>
  \<open>posted\<close> has the invocations of \<open>popHandler\<close> that the queue posted to the io service and
  that have not run, \<open>timers\<close> the armed timers with their expiry and captured packet.
\<close>

record 'p delay_core =
  delay :: int
  pktQueue :: "('p, unit) async_queue"
  posted :: "('p, unit) posted"
  timers :: "(int \<times> 'p) list"

type_synonym 'a pkt = "'a parent_packet_scheme"

definition StaticDelay_new :: "'p delay_core" where
  "StaticDelay_new = \<lparr>delay = 0, pktQueue = AsyncQueue, posted = [], timers = []\<rparr>"

definition setDelay :: "int \<Rightarrow> ('p, 'z) delay_core_scheme \<Rightarrow> ('p, 'z) delay_core_scheme" where
  "setDelay d s = s\<lparr>delay := d * 1000\<rparr>"

text \<open>\<open>queue_.asyncPop(popHandler)\<close>, as \<open>init\<close> and the timer handler call it.\<close>

definition delay_asyncPop :: "('p, 'z) delay_core_scheme \<Rightarrow> ('p, 'z) delay_core_scheme" where
  "delay_asyncPop s =
     (let (q, ts) = asyncPop () (pktQueue s) in s\<lparr>pktQueue := q, posted := posted s @ ts\<rparr>)"

definition StaticDelay_init :: "('p, 'z) delay_core_scheme \<Rightarrow> bool \<times> ('p, 'z) delay_core_scheme" where
  "StaticDelay_init s = (True, delay_asyncPop s)"

definition delay_handlePacket :: "'p \<Rightarrow> ('p, 'z) delay_core_scheme \<Rightarrow> ('p, 'z) delay_core_scheme" where
  "delay_handlePacket pkt s =
     (let (q, ts) = push pkt (pktQueue s) in s\<lparr>pktQueue := q, posted := posted s @ ts\<rparr>)"

text \<open>A stopped queue hands out no packet; then the handler only returns.\<close>

definition delay_popHandler ::
  "int \<Rightarrow> queue_error_code \<Rightarrow> 'a pkt option \<Rightarrow> ('a pkt, 'z) delay_core_scheme \<Rightarrow> ('a pkt, 'z) delay_core_scheme" where
  "delay_popHandler now ec d s =
     (case (ec, d) of
        (Ok, Some pkt) \<Rightarrow>
          (let wait = delay s - (now - stamp pkt); wait' = (if wait < 0 then 0 else wait)
           in s\<lparr>timers := timers s @ [(now + wait', pkt)]\<rparr>)
      | _ \<Rightarrow> s)"

text \<open>The handler of a timer: the packet it passes on, and the state after popping again.\<close>

definition delay_timerHandler ::
  "int \<Rightarrow> 'a pkt \<Rightarrow> ('a pkt, 'z) delay_core_scheme \<Rightarrow> 'a pkt \<times> ('a pkt, 'z) delay_core_scheme" where
  "delay_timerHandler now pkt s = (resetTimeStamp now pkt, delay_asyncPop s)"

definition StaticDelay_handlePacket :: "'p \<Rightarrow> 'p delay_core \<Rightarrow> 'p delay_core" where
  "StaticDelay_handlePacket pkt s = delay_handlePacket pkt s"

definition StaticDelay_popHandler ::
  "int \<Rightarrow> queue_error_code \<Rightarrow> 'a pkt option \<Rightarrow> 'a pkt delay_core \<Rightarrow> 'a pkt delay_core" where
  "StaticDelay_popHandler now ec d s = delay_popHandler now ec d s"

section \<open>Steps\<close>

text \<open>The io service may run any posted invocation and any due timer.\<close>

inductive delay_step ::
  "('a pkt, 'z) delay_core_scheme \<Rightarrow> 'a pkt list \<Rightarrow> 'a pkt list \<Rightarrow> ('a pkt, 'z) delay_core_scheme \<Rightarrow> bool" where
  arrive: "delay_step s [pkt] [] (delay_handlePacket pkt s)"
| pop: "k < length (posted s) \<Longrightarrow> posted s ! k = ((), ec, d) \<Longrightarrow>
    delay_step s [] [] (delay_popHandler now ec d (s\<lparr>posted := drop_nth k (posted s)\<rparr>))"
| fire: "k < length (timers s) \<Longrightarrow> timers s ! k = (expiry, pkt) \<Longrightarrow> expiry \<le> now \<Longrightarrow>
    delay_timerHandler now pkt (s\<lparr>timers := drop_nth k (timers s)\<rparr>) = (pkt', s') \<Longrightarrow>
    delay_step s [] [pkt'] s'"

inductive_cases delay_stepE: "delay_step s i out s'"

section \<open>One packet at a time\<close>

text \<open>
  After \<open>init\<close> there is exactly one token: the callback waits in the queue, or one invocation
  is posted, or one timer is armed.
\<close>

definition delay_ok :: "('p, 'z) delay_core_scheme \<Rightarrow> bool" where
  "delay_ok s \<longleftrightarrow> aq_ok (pktQueue s)
     \<and> (callback (pktQueue s) \<noteq> None \<and> posted s = [] \<and> timers s = []
        \<or> callback (pktQueue s) = None \<and> (\<exists>p. posted s = [((), Ok, Some p)]) \<and> timers s = []
        \<or> callback (pktQueue s) = None \<and> posted s = [] \<and> (\<exists>e p. timers s = [(e, p)]))"

definition delay_held :: "('p, 'z) delay_core_scheme \<Rightarrow> 'p list" where
  "delay_held s = map snd (timers s) @ handed (posted s) @ theQueue (pktQueue s)"

lemma delay_ok_cases:
  assumes "delay_ok s"
  obtains (waiting) "aq_ok (pktQueue s)" "callback (pktQueue s) = Some ()" "theQueue (pktQueue s) = []"
      "posted s = []" "timers s = []"
  | (called) p where "aq_ok (pktQueue s)" "callback (pktQueue s) = None" "posted s = [((), Ok, Some p)]"
      "timers s = []"
  | (armed) e p where "aq_ok (pktQueue s)" "callback (pktQueue s) = None" "posted s = []" "timers s = [(e, p)]"
  using assms by (auto simp: delay_ok_def aq_ok_def)

lemma delay_asyncPop_ok:
  assumes "aq_ok (pktQueue s)" and "callback (pktQueue s) = None" and "posted s = []" and "timers s = []"
  shows "delay_ok (delay_asyncPop s)" and "delay_held (delay_asyncPop s) = delay_held s"
proof -
  obtain q ts where q: "asyncPop () (pktQueue s) = (q, ts)" by (cases "asyncPop () (pktQueue s)")
  note get = aq.get_ok [OF assms(1), of "()", unfolded q] aq.get_conserves [OF assms(1), of "()", unfolded q]
  show "delay_held (delay_asyncPop s) = delay_held s"
    using get(2) by (simp add: delay_asyncPop_def q delay_held_def assms(3,4))
  show "delay_ok (delay_asyncPop s)"
  proof (cases "theQueue (pktQueue s)")
    case Nil
    then show ?thesis using get(1) aq.get_empty [OF assms(1) Nil, of "()"]
      by (simp add: delay_asyncPop_def q delay_ok_def assms(3,4))
  next
    case (Cons d ds)
    then show ?thesis using get(1) aq.get_front [OF assms(1) Cons, of "()"]
      by (simp add: delay_asyncPop_def q delay_ok_def assms(3,4))
  qed
qed

lemma delay_arrive_ok:
  assumes "delay_ok s"
  shows "delay_ok (delay_handlePacket pkt s)" and "delay_held (delay_handlePacket pkt s) = delay_held s @ [pkt]"
proof -
  from assms have aq: "aq_ok (pktQueue s)" by (simp add: delay_ok_def)
  obtain q ts where q: "push pkt (pktQueue s) = (q, ts)" by (cases "push pkt (pktQueue s)")
  note P = aq.put_ok [OF aq, of pkt, unfolded q] aq.put_conserves [OF aq, of pkt, unfolded q]
  show "delay_held (delay_handlePacket pkt s) = delay_held s @ [pkt]"
    using assms P(2) aq.put_waiting [OF aq, of "()" pkt] aq.put_queued [OF aq, of pkt]
    by (cases rule: delay_ok_cases) (simp_all add: delay_handlePacket_def q delay_held_def)
  show "delay_ok (delay_handlePacket pkt s)"
    using assms
  proof (cases rule: delay_ok_cases)
    case waiting
    then show ?thesis using P(1) aq.put_waiting [OF aq waiting(2), of pkt]
      by (simp add: delay_handlePacket_def q delay_ok_def)
  next
    case (called p)
    then show ?thesis using P(1) aq.put_queued [OF aq called(2), of pkt]
      by (simp add: delay_handlePacket_def q delay_ok_def)
  next
    case (armed e p)
    then show ?thesis using P(1) aq.put_queued [OF aq armed(2), of pkt]
      by (simp add: delay_handlePacket_def q delay_ok_def)
  qed
qed

lemma delay_pop_ok:
  fixes now :: int
  assumes "delay_ok s" and "k < length (posted s)" and "posted s ! k = ((), ec, d)"
  defines "s' \<equiv> delay_popHandler now ec d (s\<lparr>posted := drop_nth k (posted s)\<rparr>)"
  shows "delay_ok s'" and "delay_held s' = delay_held s"
    and "\<exists>p. posted s = [((), Ok, Some p)] \<and> timers s = [] \<and>
      timers s' = [(now + max 0 (delay s - (now - stamp p)), p)]"
proof -
  from assms(1) obtain p where p: "aq_ok (pktQueue s)" "callback (pktQueue s) = None"
    "posted s = [((), Ok, Some p)]" "timers s = []"
    by (cases rule: delay_ok_cases) (use assms(2) in simp_all)
  with assms(2,3) have e: "k = 0" "ec = Ok" "d = Some p" by auto
  have s': "s' = s\<lparr>posted := [], timers := [(now + max 0 (delay s - (now - stamp p)), p)]\<rparr>"
    by (simp add: s'_def e p delay_popHandler_def drop_nth_def Let_def)
  show "delay_ok s'" "delay_held s' = delay_held s"
    using p by (simp_all add: s' delay_ok_def delay_held_def)
  show "\<exists>p. posted s = [((), Ok, Some p)] \<and> timers s = [] \<and>
      timers s' = [(now + max 0 (delay s - (now - stamp p)), p)]"
    using p by (simp add: s')
qed

lemma delay_fire_ok:
  assumes "delay_ok s" and "k < length (timers s)" and "timers s ! k = (expiry, pkt)"
    and "delay_timerHandler now pkt (s\<lparr>timers := drop_nth k (timers s)\<rparr>) = (pkt', s')"
  shows "delay_ok s'" and "delay_held s = pkt # delay_held s'" and "pkt' = resetTimeStamp now pkt"
    and "timers s = [(expiry, pkt)]"
proof -
  from assms(1) have p: "aq_ok (pktQueue s)" "callback (pktQueue s) = None"
    "posted s = []" "timers s = [(expiry, pkt)]" "k = 0"
    by (cases rule: delay_ok_cases; use assms(2,3) in auto)+
  then have s': "s' = delay_asyncPop (s\<lparr>timers := []\<rparr>)" "pkt' = resetTimeStamp now pkt"
    using assms(4) by (simp_all add: delay_timerHandler_def drop_nth_def)
  note A = delay_asyncPop_ok [of "s\<lparr>timers := []\<rparr>"]
  show "delay_ok s'" using A(1) p by (simp add: s')
  show "delay_held s = pkt # delay_held s'" using A(2) p by (simp add: s' delay_held_def)
  show "pkt' = resetTimeStamp now pkt" "timers s = [(expiry, pkt)]" using s' p by simp_all
qed

lemma delay_step_ok:
  "delay_step s i out s' \<Longrightarrow> delay_ok s \<Longrightarrow> delay_ok s'"
proof (induction rule: delay_step.induct)
  case (arrive s pkt)
  then show ?case by (simp add: delay_arrive_ok)
next
  case (pop k s ec d now)
  then show ?case by (intro delay_pop_ok)
next
  case (fire k s expiry pkt now pkt' s')
  then show ?case using delay_fire_ok [OF fire(5,1,2,4)] by simp
qed


lemma delay_step_held:
  "delay_step s i out s' \<Longrightarrow> delay_ok s \<Longrightarrow> map ident out @ map ident (delay_held s') = map ident (delay_held s) @ map ident i"
proof (induction rule: delay_step.induct)
  case (arrive s pkt)
  then show ?case by (simp add: delay_arrive_ok)
next
  case (pop k s ec d now)
  then show ?case using delay_pop_ok(2) [OF pop(3,1,2)] by simp
next
  case (fire k s expiry pkt now pkt' s')
  then show ?case using delay_fire_ok(2,3) [OF fire(5,1,2,4)] by simp
qed

interpretation delay: lossless_stage "ident_step delay_step"
  "\<lambda>d s. of_dir d (map ident (delay_held s))" delay_ok
  by (rule lossless_stageI, erule (1) delay_step_ok, erule (1) delay_step_held)

section \<open>What the delay filter does to its packets\<close>

text \<open>The packet \<open>q\<close> is the packet \<open>p\<close> at least \<open>d\<close> after \<open>p\<close>'s time stamp, with a new stamp.\<close>

definition delayed_by :: "int \<Rightarrow> 'a pkt \<Rightarrow> 'a pkt \<Rightarrow> bool" where
  "delayed_by d p q \<longleftrightarrow> q = resetTimeStamp (stamp q) p \<and> stamp p + d \<le> stamp q"

definition delay_armed :: "int \<Rightarrow> ('a pkt, 'z) delay_core_scheme \<Rightarrow> bool" where
  "delay_armed d s \<longleftrightarrow> delay s = d \<and> (\<forall>(e, p) \<in> set (timers s). stamp p + d \<le> e)"

lemma delay_ops_frame [simp]:
  "delay (delay_asyncPop s) = delay s" "timers (delay_asyncPop s) = timers s"
  "delay (delay_handlePacket pkt s) = delay s" "timers (delay_handlePacket pkt s) = timers s"
  by (simp_all add: delay_asyncPop_def delay_handlePacket_def split: prod.splits)

lemma delay_step_armed:
  "delay_step s i out s' \<Longrightarrow> delay_armed d s \<Longrightarrow> delay_armed d s'"
proof (induction rule: delay_step.induct)
  case (arrive s pkt)
  then show ?case by (simp add: delay_armed_def)
next
  case (pop k s ec opt now)
  then show ?case
    by (cases ec; cases opt) (auto simp: delay_armed_def delay_popHandler_def Let_def)
next
  case (fire k s expiry pkt now pkt' s')
  then show ?case
    by (auto simp: delay_armed_def delay_timerHandler_def drop_nth_def dest!: in_set_takeD in_set_dropD)
qed

lemma delay_run_delayed:
  assumes "stage_run delay_step s0 ins outs s" and "delay_ok s0" and "delay_held s0 = []"
    and "delay_armed d s0"
  shows "\<exists>sent. ins = sent @ delay_held s \<and> list_all2 (delayed_by d) sent outs
    \<and> delay_ok s \<and> delay_armed d s"
  using assms(1)
proof (induction rule: stage_run.induct)
  case empty
  then show ?case using assms(2-4) by simp
next
  case (more ins outs s1 i out s2)
  then obtain sent where I: "ins = sent @ delay_held s1" "list_all2 (delayed_by d) sent outs"
    and ok: "delay_ok s1" "delay_armed d s1" by blast
  note after = delay_step_ok [OF more(2) ok(1)] delay_step_armed [OF more(2) ok(2)]
  from more(2) show ?case
  proof (cases rule: delay_step.cases)
    case (arrive pkt)
    then show ?thesis using I after delay_arrive_ok(2) [OF ok(1), of pkt] by simp
  next
    case (pop k ec opt now)
    then show ?thesis using I after delay_pop_ok(2) [OF ok(1) pop(4,5)] by auto
  next
    case (fire k expiry pkt now pkt')
    note F = delay_fire_ok [OF ok(1) fire(3,4,6)]
    have "stamp pkt + d \<le> expiry" using ok(2) F(4) by (simp add: delay_armed_def)
    then have "delayed_by d pkt pkt'" using F(3) fire(5) by (simp add: delayed_by_def)
    then have "list_all2 (delayed_by d) (sent @ [pkt]) (outs @ out)"
      using I(2) fire(2) by (simp add: list_all2_appendI)
    moreover have "ins @ i = (sent @ [pkt]) @ delay_held s2" using I(1) F(2) fire(1) by simp
    ultimately show ?thesis using after by blast
  qed
qed

lemma delay_init_ok:
  fixes s0 :: "'a pkt delay_core"
  assumes "s0 = snd (StaticDelay_init (setDelay d StaticDelay_new))"
  shows "delay_ok s0" and "delay_held s0 = []" and "delay_armed (d * 1000) s0"
proof -
  let ?s = "setDelay d StaticDelay_new :: 'a pkt delay_core"
  have s: "aq_ok (pktQueue ?s)" "callback (pktQueue ?s) = None" "posted ?s = []" "timers ?s = []"
    "theQueue (pktQueue ?s) = []"
    by (simp_all add: setDelay_def StaticDelay_new_def aq_ok_new) (simp_all add: AsyncQueue_def)
  have s0: "s0 = delay_asyncPop ?s" by (simp add: assms StaticDelay_init_def)
  show "delay_ok s0" unfolding s0 by (rule delay_asyncPop_ok(1) [OF s(1-4)])
  show "delay_held s0 = []"
    unfolding s0 delay_asyncPop_ok(2) [OF s(1-4)] using s by (simp add: delay_held_def)
  show "delay_armed (d * 1000) s0"
    by (simp add: s0 delay_armed_def setDelay_def StaticDelay_new_def)
qed

text \<open>
  C13. The static delay filter, from its initialisation on and with any timing of its handlers:
  it passes the packets in the order in which they arrived, each one once and unchanged but
  for a new time stamp, none before its old time stamp plus the configured delay (in
  milliseconds); what it has not passed yet it still holds.
\<close>

theorem static_delay_fifo:
  assumes "stage_run delay_step (snd (StaticDelay_init (setDelay d StaticDelay_new))) ins outs s"
  shows "\<exists>sent. ins = sent @ delay_held s \<and> list_all2 (delayed_by (d * 1000)) sent outs"
  using delay_run_delayed [OF assms delay_init_ok [OF refl]] by blast

text \<open>
  The static delay filter never stalls: whatever has happened, if it holds a packet, then
  its own handlers, run at suitable times, pass the first one on and keep the others.
\<close>

lemma static_delay_progress:
  assumes "stage_run delay_step (snd (StaticDelay_init (setDelay d StaticDelay_new))) ins outs s"
    and "delay_held s = p # ps"
  shows "\<exists>now s'. stage_run delay_step s [] [resetTimeStamp now p] s' \<and> delay_held s' = ps"
proof -
  from delay_run_delayed [OF assms(1) delay_init_ok [OF refl]] have ok: "delay_ok s" by blast
  have fire: "\<exists>now s'. delay_step s1 [] [resetTimeStamp now p] s' \<and> delay_held s' = ps"
    if ok1: "delay_ok s1" and t: "timers s1 = [(e, p)]" and h: "delay_held s1 = p # ps"
    for s1 :: "'a pkt delay_core" and e
  proof -
    obtain q s' where f: "delay_timerHandler e p (s1\<lparr>timers := drop_nth 0 (timers s1)\<rparr>) = (q, s')"
      by (cases "delay_timerHandler e p (s1\<lparr>timers := drop_nth 0 (timers s1)\<rparr>)")
    note F = delay_fire_ok [OF ok1 _ _ f, of e, unfolded t, simplified]
    have "delay_step s1 [] [q] s'" by (rule delay_step.fire [OF _ _ _ f, of e]) (simp_all add: t)
    with F h show ?thesis by auto
  qed
  from ok show ?thesis
  proof (cases rule: delay_ok_cases)
    case waiting
    then show ?thesis using assms(2) by (simp add: delay_held_def)
  next
    case (called q)
    then have q: "q = p" using assms(2) by (simp add: delay_held_def)
    define s1 where "s1 = delay_popHandler 0 Ok (Some p) (s\<lparr>posted := drop_nth 0 (posted s)\<rparr>)"
    have len: "0 < length (posted s)" "posted s ! 0 = ((), Ok, Some p)" using called q by simp_all
    have st: "delay_step s [] [] s1" unfolding s1_def by (rule delay_step.pop [OF len])
    note P = delay_pop_ok [OF ok len, of 0, folded s1_def]
    from P(3) called q obtain e where "timers s1 = [(e, p)]" by auto
    from fire [OF P(1) this] P(2) assms(2) obtain now s'
      where f: "delay_step s1 [] [resetTimeStamp now p] s'" "delay_held s' = ps" by (simp, elim exE conjE)
    from stage_run.more [OF stage_run_one [where step = delay_step, OF st] f(1)]
    have "stage_run delay_step s [] [resetTimeStamp now p] s'" by simp
    with f(2) show ?thesis by (intro exI conjI)
  next
    case (armed e q)
    then have "timers s = [(e, p)]" using assms(2) by (simp add: delay_held_def)
    from fire [OF ok this assms(2)] obtain now s'
      where f: "delay_step s [] [resetTimeStamp now p] s'" "delay_held s' = ps" by (elim exE conjE)
    from stage_run_one [where step = delay_step, OF f(1)] f(2) show ?thesis by (intro exI conjI)
  qed
qed


section \<open>A run of the delay filter\<close>

definition example_parent :: "int \<Rightarrow> int \<Rightarrow> parent_packet" where
  "example_parent i t =
     \<lparr>stamp = t, isIngoing = False, verdictSet = False, nfqID = i, packetDataLen = 100,
      packetData = [], strInboundInterface = [], strOutboundInterface = [],
      sport = 0, dport = 0, icmpId = 0\<rparr>"

lemma static_delay_example:
  "\<exists>s. stage_run delay_step (snd (StaticDelay_init (setDelay 5 StaticDelay_new)))
     [example_parent 1 100, example_parent 2 200] [example_parent 1 5100] s
     \<and> delay_held s = [example_parent 2 200]"
proof -
  let ?q = "\<lambda>ds cb. \<lparr>theQueue = ds, callback = cb, stopped = False, niceStopped = False\<rparr>"
  let ?p1 = "example_parent 1 100" and ?p2 = "example_parent 2 200"
  define s0 where "s0 = snd (StaticDelay_init (setDelay 5 (StaticDelay_new :: parent_packet delay_core)))"
  define s1 where "s1 = s0\<lparr>pktQueue := ?q [] None, posted := [((), Ok, Some ?p1)]\<rparr>"
  define s2 where "s2 = s1\<lparr>pktQueue := ?q [?p2] None\<rparr>"
  define s3 where "s3 = s2\<lparr>posted := [], timers := [(5100, ?p1)]\<rparr>"
  define s4 where "s4 = s3\<lparr>pktQueue := ?q [] None, posted := [((), Ok, Some ?p2)], timers := []\<rparr>"
  note defs = s0_def s1_def s2_def s3_def s4_def StaticDelay_init_def setDelay_def StaticDelay_new_def
    delay_asyncPop_def delay_handlePacket_def AsyncQueue_def aq_defs example_parent_def Let_def
  have a1: "delay_step s0 [?p1] [] s1" using delay_step.arrive [of s0 ?p1] by (simp add: defs)
  have a2: "delay_step s1 [?p2] [] s2" using delay_step.arrive [of s1 ?p2] by (simp add: defs)
  have a3: "delay_step s2 [] [] s3"
    using delay_step.pop [of 0 s2 Ok "Some ?p1" 150] by (simp add: defs drop_nth_def delay_popHandler_def)
  have a4: "delay_step s3 [] [example_parent 1 5100] s4"
    using delay_step.fire [of 0 s3 5100 ?p1 5100 "example_parent 1 5100" s4]
    by (simp add: defs drop_nth_def delay_timerHandler_def resetTimeStamp_def)
  note more = stage_run.more [where step = delay_step]
  have "stage_run delay_step s0 (((([] @ [?p1]) @ [?p2]) @ []) @ []) (((([] @ []) @ []) @ []) @ [example_parent 1 5100]) s4"
    using more [OF more [OF more [OF more [OF stage_run.empty a1] a2] a3] a4] .
  moreover have "delay_held s4 = [?p2]" by (simp add: delay_held_def defs)
  ultimately show ?thesis unfolding s0_def by auto
qed

lemma static_delay_fifo_witness:
  "\<exists>outs. list_all2 (delayed_by 5000) [example_parent 1 100] outs"
proof -
  obtain s where r: "stage_run delay_step (snd (StaticDelay_init (setDelay 5 StaticDelay_new)))
     [example_parent 1 100, example_parent 2 200] [example_parent 1 5100] s"
     and h: "delay_held s = [example_parent 2 200]" using static_delay_example by blast
  from static_delay_fifo [OF r] h show ?thesis by auto
qed

lemma static_delay_progress_witness:
  "\<exists>(s :: parent_packet delay_core) now s'. delay_held s = [example_parent 2 200]
     \<and> stage_run delay_step s [] [resetTimeStamp now (example_parent 2 200)] s'"
proof -
  obtain s where r: "stage_run delay_step (snd (StaticDelay_init (setDelay 5 StaticDelay_new)))
     [example_parent 1 100, example_parent 2 200] [example_parent 1 5100] s"
     and h: "delay_held s = [example_parent 2 200]" using static_delay_example by blast
  from static_delay_progress [OF r h] h show ?thesis by blast
qed

section \<open>Loss\<close>

record loss_filter =
  loss :: real

definition Loss_new :: loss_filter where
  "Loss_new = \<lparr>loss = 0\<rparr>"

definition setLoss :: "real \<Rightarrow> loss_filter \<Rightarrow> loss_filter" where
  "setLoss l f = f\<lparr>loss := l\<rparr>"

text \<open>\<open>rnd\<close> is what \<open>rand()\<close> returns. The results are the packets passed on and the verdicts set.\<close>

definition Loss_handlePacket :: "nat \<Rightarrow> 'a pkt \<Rightarrow> loss_filter \<Rightarrow> 'a pkt list \<times> verdict list" where
  "Loss_handlePacket rnd pkt f =
     (let r = rand_float rnd
      in if r < loss f then ([], snd (setVerdict False pkt)) else ([pkt], []))"

inductive loss_step :: "loss_filter \<Rightarrow> 'a pkt list \<Rightarrow> 'a pkt list \<Rightarrow> loss_filter \<Rightarrow> bool" where
  handle: "rnd \<le> RAND_MAX \<Longrightarrow> Loss_handlePacket rnd pkt f = (out, vs) \<Longrightarrow> loss_step f [pkt] out f"

interpretation loss: fifo_stage "ident_step loss_step" "\<lambda>d s. []" "\<lambda>s. True"
  by unfold_locales
    (auto simp: ident_step_def Loss_handlePacket_def Let_def elim!: loss_step.cases split: if_splits)

text \<open>
  C29. Of the \<open>RAND_MAX + 1\<close> values that \<open>rand()\<close> can return, the loss filter set to a
  probability drops that fraction, up to the 257 values that the rounding of the float
  division can move; a packet it drops gets a drop verdict, and it passes every packet when
  the probability is 0.
\<close>

theorem loss_rate:
  assumes "0 \<le> p" and "p \<le> 1"
  defines "f \<equiv> setLoss p Loss_new"
  shows "\<bar>real (card {n. n \<le> RAND_MAX \<and> fst (Loss_handlePacket n pkt f) = []}) - p * 2 ^ 31\<bar> \<le> 257
    \<and> (\<forall>n. Loss_handlePacket n pkt f = ([], snd (setVerdict False pkt)) \<or> Loss_handlePacket n pkt f = ([pkt], []))
    \<and> (p = 0 \<longrightarrow> (\<forall>n. Loss_handlePacket n pkt f = ([pkt], [])))"
proof (intro conjI)
  have "fst (Loss_handlePacket n pkt f) = [] \<longleftrightarrow> rand_float n < p" for n
    by (simp add: Loss_handlePacket_def f_def setLoss_def Let_def)
  with rand_float_count [OF assms(1,2)]
  show "\<bar>real (card {n. n \<le> RAND_MAX \<and> fst (Loss_handlePacket n pkt f) = []}) - p * 2 ^ 31\<bar> \<le> 257"
    by (simp only:)
  show "\<forall>n. Loss_handlePacket n pkt f = ([], snd (setVerdict False pkt)) \<or> Loss_handlePacket n pkt f = ([pkt], [])"
    by (simp add: Loss_handlePacket_def Let_def)
  show "p = 0 \<longrightarrow> (\<forall>n. Loss_handlePacket n pkt f = ([pkt], []))"
    using rand_float_nonneg by (auto simp: Loss_handlePacket_def Let_def f_def setLoss_def not_less)
qed

lemma loss_rate_witness:
  "\<bar>real (card {n. n \<le> RAND_MAX \<and> fst (Loss_handlePacket n (example_parent 1 0) (setLoss (1 / 2) Loss_new)) = []})
     - 1 / 2 * 2 ^ 31\<bar> \<le> 257"
  using loss_rate [of "1 / 2" "example_parent 1 0"] by simp

text \<open>A probability of 1 does not drop everything: \<open>rand()\<close> near \<open>RAND_MAX\<close> gives exactly 1.\<close>

lemma loss_one_passes: "Loss_handlePacket 2147483620 pkt (setLoss 1 Loss_new) = ([pkt], [])"
proof -
  have "rand_float 2147483620 = 1"
    unfolding rand_float_def f32_div_def f32_RAND_MAX by (simp add: f32_eval)
  then show ?thesis by (simp add: Loss_handlePacket_def setLoss_def)
qed

end
