(* ===== verification/Dynamic_Delay.thy ===== *)
theory Dynamic_Delay
  imports Shaper
begin

text \<open>
  \<open>DynamicDelay\<close> (dynamic\_delay.hpp, dynamic\_delay.cpp): a delay filter whose delay follows
  a curve. \<open>setDelays\<close> computes the curve, one value a second, in \<open>float\<close> arithmetic and puts
  it into \<open>delayQ_\<close>, from which \<open>delayPopHandler\<close> takes one value a second and puts it back
  at the end. The packet path is that of the static delay filter, at the delay of the moment.
\<close>

section \<open>State and operations\<close>

text \<open>\<open>delayPosted\<close> and \<open>delayTimers\<close> are the pending handlers of the curve; a timer of the
  curve captures the value, which its handler does not use.\<close>

record 'p dynamic_delay = "'p delay_core" +
  tick :: int
  delayQ :: "(int, unit) async_queue"
  delayPosted :: "(int, unit) posted"
  delayTimers :: "(int \<times> int) list"

definition DynamicDelay_new :: "'p dynamic_delay" where
  "DynamicDelay_new =
     \<lparr>delay = 0, pktQueue = AsyncQueue, posted = [], timers = [],
      tick = 1000 * 1000, delayQ = AsyncQueue, delayPosted = [], delayTimers = []\<rparr>"

definition delayQ_push :: "int \<Rightarrow> 'p dynamic_delay \<Rightarrow> 'p dynamic_delay" where
  "delayQ_push d s =
     (let (q, ts) = push d (delayQ s) in s\<lparr>delayQ := q, delayPosted := delayPosted s @ ts\<rparr>)"

definition delayQ_asyncPop :: "'p dynamic_delay \<Rightarrow> 'p dynamic_delay" where
  "delayQ_asyncPop s =
     (let (q, ts) = asyncPop () (delayQ s) in s\<lparr>delayQ := q, delayPosted := delayPosted s @ ts\<rparr>)"

text \<open>The \<open>a\<close>-th value after \<open>first\<close> on the way from \<open>prev\<close> to \<open>cur\<close>.\<close>

definition curve_point :: "int \<Rightarrow> int \<Rightarrow> int \<Rightarrow> int \<Rightarrow> int \<Rightarrow> int" where
  "curve_point first prev cur resolution a =
     f32_trunc (f32_add (f32_mul (f32_div (f32_sub (f32_int cur) (f32_int prev)) (f32_int resolution))
       (f32_int a)) (f32_int first))"

definition curve_segment :: "int \<Rightarrow> int \<Rightarrow> int \<Rightarrow> int \<Rightarrow> int list" where
  "curve_segment first prev cur resolution =
     map (curve_point first prev cur resolution) [1..resolution]"

fun curve_loop :: "int \<Rightarrow> int list \<Rightarrow> int \<Rightarrow> int list \<Rightarrow> int list" where
  "curve_loop resolution tmpQ prev [] = tmpQ"
| "curve_loop resolution tmpQ prev (d # ds) =
     curve_loop resolution (tmpQ @ curve_segment (last tmpQ) prev d resolution) d ds"

definition setDelays :: "int list \<Rightarrow> int \<Rightarrow> 'p dynamic_delay \<Rightarrow> fault + int list \<times> 'p dynamic_delay" where
  "setDelays delays resolution s =
     (case delays of
        [] \<Rightarrow> Inl OutOfBounds
      | d0 # ds \<Rightarrow>
          (let tmpQ = butlast (curve_loop resolution [d0] d0 (ds @ [d0]))
           in Inr (tmpQ, fold delayQ_push tmpQ s)))"

definition DynamicDelay_init :: "'p dynamic_delay \<Rightarrow> bool \<times> 'p dynamic_delay" where
  "DynamicDelay_init s = (True, delayQ_asyncPop (delay_asyncPop s))"

definition DynamicDelay_handlePacket :: "'p \<Rightarrow> 'p dynamic_delay \<Rightarrow> 'p dynamic_delay" where
  "DynamicDelay_handlePacket pkt s = delay_handlePacket pkt s"

definition DynamicDelay_popHandler ::
  "int \<Rightarrow> queue_error_code \<Rightarrow> 'a pkt option \<Rightarrow> 'a pkt dynamic_delay \<Rightarrow> 'a pkt dynamic_delay" where
  "DynamicDelay_popHandler now ec d s = delay_popHandler now ec d s"

text \<open>A stopped queue hands out a default \<open>int\<close>, which the handler uses like any other.\<close>

definition delayPopHandler :: "int \<Rightarrow> queue_error_code \<Rightarrow> int \<Rightarrow> 'p dynamic_delay \<Rightarrow> 'p dynamic_delay" where
  "delayPopHandler now ec d s =
     (let s1 = delayQ_push d s; s2 = s1\<lparr>delay := d * 1000\<rparr>
      in s2\<lparr>delayTimers := delayTimers s2 @ [(now + tick s2, d)]\<rparr>)"

section \<open>The shape of the curve\<close>

lemma length_curve_loop:
  "0 \<le> res \<Longrightarrow> length (curve_loop res tmpQ prev ds) = length tmpQ + nat res * length ds"
  by (induction res tmpQ prev ds rule: curve_loop.induct) (simp_all add: curve_segment_def algebra_simps)

lemma curve_loop_prefix: "\<exists>rest. curve_loop res tmpQ prev ds = tmpQ @ rest"
  by (induction res tmpQ prev ds rule: curve_loop.induct) auto

text \<open>On whole steps within 24 bits the float arithmetic is exact.\<close>

lemma curve_point_exact:
  assumes "cur = prev + k * res" and "0 < res" and "res \<le> 2 ^ 24" and "1 \<le> a" and "a \<le> res"
    and "\<bar>prev\<bar> \<le> 2 ^ 23" and "\<bar>cur\<bar> \<le> 2 ^ 23"
  shows "curve_point prev prev cur res a = prev + k * a"
proof -
  have n: "(2::int) ^ 24 = 2 * 2 ^ 23" by simp
  have "k * res = cur - prev" using assms(1) by simp
  then have kr: "\<bar>k * res\<bar> \<le> 2 ^ 24" using assms(6,7) unfolding n by linarith
  have "\<bar>k\<bar> * 1 \<le> \<bar>k\<bar> * res" using assms(2) by (intro mult_left_mono) auto
  then have k: "\<bar>k\<bar> \<le> 2 ^ 24" using kr assms(2) by (simp add: abs_mult)
  have "\<bar>k\<bar> * a \<le> \<bar>k\<bar> * res" using assms(5) by (intro mult_left_mono) auto
  then have ka: "\<bar>k * a\<bar> \<le> 2 ^ 24" using kr assms(2,4) by (simp add: abs_mult)
  have "prev + k * a \<le> max prev cur \<and> min prev cur \<le> prev + k * a"
  proof (cases "0 \<le> k")
    case True
    then have "0 \<le> k * a" "k * a \<le> k * res"
      using assms(2,4,5) by (simp_all add: mult_left_mono)
    then show ?thesis using assms(1) by simp
  next
    case False
    then have "k * a \<le> 0" "k * res \<le> k * a"
      using assms(2,4,5) by (simp_all add: mult_nonpos_nonneg mult_left_mono_neg)
    then show ?thesis using assms(1) by simp
  qed
  then have pa: "\<bar>prev + k * a\<bar> \<le> 2 ^ 24" using assms(6,7) unfolding n by linarith
  have "f32_sub (f32_int cur) (f32_int prev) = of_int (k * res)"
  proof -
    have "f32_sub (f32_int cur) (f32_int prev) = f32 (of_int (cur - prev))"
      using assms(6,7) by (simp add: f32_sub_def f32_int_def f32_of_int)
    also have "\<dots> = of_int (k * res)" using kr assms(1) by (simp only: f32_of_int add_diff_cancel_left')
    finally show ?thesis .
  qed
  then have "f32_div (f32_sub (f32_int cur) (f32_int prev)) (f32_int res) = of_int k"
    using assms(2,3) k by (simp add: f32_div_def f32_int_def f32_of_int)
  then have "f32_mul (f32_div (f32_sub (f32_int cur) (f32_int prev)) (f32_int res)) (f32_int a) = of_int (k * a)"
    using ka assms(3-5) f32_of_int [of "k * a"] by (simp add: f32_mul_def f32_int_def f32_of_int)
  then show ?thesis
    using pa assms(6) f32_of_int [of "prev + k * a"] f32_trunc_of_int [of "prev + k * a"]
    by (simp add: curve_point_def f32_add_def f32_int_def f32_of_int add.commute)
qed

text \<open>A curve through the points of \<open>ds\<close> in whole steps.\<close>

fun whole_steps :: "int \<Rightarrow> int \<Rightarrow> int list \<Rightarrow> bool" where
  "whole_steps res prev [] \<longleftrightarrow> \<bar>prev\<bar> \<le> 2 ^ 23"
| "whole_steps res prev (d # ds) \<longleftrightarrow> \<bar>prev\<bar> \<le> 2 ^ 23 \<and> (\<exists>k. d = prev + k * res) \<and> whole_steps res d ds"

text \<open>The exact linear interpolation: one value a second between consecutive points.\<close>

fun interpolation :: "int \<Rightarrow> int \<Rightarrow> int list \<Rightarrow> int list" where
  "interpolation res prev [] = []"
| "interpolation res prev (d # ds) =
     map (\<lambda>a. prev + (d - prev) * a div res) [1..res] @ interpolation res d ds"

lemma whole_stepsD: "whole_steps res p ds \<Longrightarrow> \<bar>p\<bar> \<le> 2 ^ 23"
  by (cases ds) auto

lemma curve_loop_exact:
  assumes "0 < res" and "res \<le> 2 ^ 24" and "tmpQ \<noteq> []" and "last tmpQ = prev" and "whole_steps res prev ds"
  shows "curve_loop res tmpQ prev ds = tmpQ @ interpolation res prev ds"
  using assms(3-5)
proof (induction ds arbitrary: tmpQ prev)
  case (Cons d ds)
  then have "\<exists>k. d = prev + k * res" and b: "\<bar>prev\<bar> \<le> 2 ^ 23" "\<bar>d\<bar> \<le> 2 ^ 23"
    using whole_stepsD [of res d ds] by simp_all
  then obtain k where k: "d = prev + k * res" by blast
  have "k * res * a div res = k * a" for a
    using assms(1) by (simp add: mult.assoc mult.left_commute)
  then have seg: "curve_segment prev prev d res = map (\<lambda>a. prev + (d - prev) * a div res) [1..res]"
    unfolding curve_segment_def using curve_point_exact [OF k assms(1,2) _ _ b] by (simp add: k)
  have r: "[1..res] = [1..res - 1] @ [res]" using assms(1) upto_rec2 [of 1 res] by simp
  have l: "last (tmpQ @ curve_segment prev prev d res) = d"
    unfolding seg using assms(1) by (simp add: r)
  show ?case
    using Cons.IH [of "tmpQ @ curve_segment prev prev d res" d] Cons.prems l seg by simp
qed simp

text \<open>
  C27. \<open>setDelays\<close> returns one value a second for a whole round of the curve, starting with the
  first point. When the points differ by whole steps of the resolution and stay within 23
  bits, so that the float arithmetic is exact, the curve is the linear interpolation of the
  points and back to the first one.
\<close>

theorem setDelays_curve:
  assumes "setDelays (d0 # ds) res s = Inr (curve, s')" and "0 < res"
  shows "length curve = nat res * Suc (length ds) \<and> hd curve = d0
    \<and> (res \<le> 2 ^ 24 \<and> whole_steps res d0 (ds @ [d0]) \<longrightarrow>
        curve = butlast (d0 # interpolation res d0 (ds @ [d0])))"
proof -
  have c: "curve = butlast (curve_loop res [d0] d0 (ds @ [d0]))"
    using assms(1) by (simp add: setDelays_def Let_def)
  have len: "length curve = nat res * Suc (length ds)"
    unfolding c using assms(2) by (simp add: length_curve_loop)
  obtain rest where rest: "curve_loop res [d0] d0 (ds @ [d0]) = [d0] @ rest"
    using curve_loop_prefix by blast
  then have "rest \<noteq> []" using len assms(2) by (cases rest) (auto simp: c)
  then have "hd curve = d0" by (simp add: c rest)
  moreover have "curve = butlast (d0 # interpolation res d0 (ds @ [d0]))"
    if "res \<le> 2 ^ 24" "whole_steps res d0 (ds @ [d0])"
    using curve_loop_exact [OF assms(2) that(1) _ _ that(2), of "[d0]"] by (simp add: c)
  ultimately show ?thesis using len by blast
qed


lemma upto_example [simp]:
  "[1..2 :: int] = [1, 2]" "[1..3 :: int] = [1, 2, 3]" "[1..4 :: int] = [1, 2, 3, 4]"
  "[1..7 :: int] = [1, 2, 3, 4, 5, 6, 7]"
  by (simp_all add: upto.simps)

lemma setDelays_readme: "\<exists>s'. setDelays [20, 40, 30] 2 s = Inr ([20, 30, 40, 35, 30, 25], s')"
proof -
  have "curve_segment 20 20 40 2 = [30, 40]" "curve_segment 40 40 30 2 = [35, 30]"
    "curve_segment 30 30 20 2 = [25, 20]"
    by (simp_all add: curve_segment_def curve_point_def f32_eval)
  then show ?thesis by (simp add: setDelays_def)
qed

text \<open>
  The documented examples: the curve of \<open>[0, 8, 5]\<close> at resolution 4 is the one in the
  comment of the class, and that of \<open>[20, 40, 30]\<close> at resolution 2 the one in the README. But
  for \<open>[0, 31]\<close> at resolution 7 the curve never has the value 31: the rounded seventh part of
  31, seven times, is below 31 and is truncated to 30, from where the way back starts.
\<close>

lemma setDelays_examples:
  "(\<exists>s'. setDelays [0, 8, 5] 4 s = Inr ([0, 2, 4, 6, 8, 7, 6, 5, 5, 3, 2, 1], s'))
   \<and> (\<exists>s'. setDelays [20, 40, 30] 2 s = Inr ([20, 30, 40, 35, 30, 25], s'))
   \<and> (\<exists>s' rest. setDelays [0, 31] 7 s = Inr ([0, 4, 8, 13, 17, 22, 26, 30] @ rest, s'))"
proof (intro conjI)
  have c1: "curve_segment 0 0 8 4 = [2, 4, 6, 8]" "curve_segment 8 8 5 4 = [7, 6, 5, 5]"
    "curve_segment 5 5 0 4 = [3, 2, 1, 0]"
    by (simp_all add: curve_segment_def curve_point_def f32_eval)
  show "\<exists>s'. setDelays [0, 8, 5] 4 s = Inr ([0, 2, 4, 6, 8, 7, 6, 5, 5, 3, 2, 1], s')"
    by (simp add: setDelays_def c1)
  show "\<exists>s'. setDelays [20, 40, 30] 2 s = Inr ([20, 30, 40, 35, 30, 25], s')"
    by (rule setDelays_readme)
  have c3: "curve_segment 0 0 31 7 = [4, 8, 13, 17, 22, 26, 30]"
    by (simp add: curve_segment_def curve_point_def f32_eval)
  obtain x xs where "curve_segment 30 31 0 7 = x # xs" by (simp add: curve_segment_def)
  then show "\<exists>s' rest. setDelays [0, 31] 7 s = Inr ([0, 4, 8, 13, 17, 22, 26, 30] @ rest, s')"
    by (simp add: setDelays_def c3)
qed

lemma setDelays_empty: "setDelays [] res s = Inl OutOfBounds"
  by (simp add: setDelays_def)

lemma setDelays_curve_witness:
  "\<exists>curve s'. setDelays [0, 8, 4] 4 (DynamicDelay_new :: nat dynamic_delay) = Inr (curve, s') \<and> length curve = 12
     \<and> curve = [0, 2, 4, 6, 8, 7, 6, 5, 4, 3, 2, 1]"
proof -
  obtain curve s' where r: "setDelays [0, 8, 4] 4 (DynamicDelay_new :: nat dynamic_delay) = Inr (curve, s')"
    by (simp add: setDelays_def Let_def)
  from setDelays_curve [OF r] have "length curve = 12"
    "whole_steps 4 0 ([8, 4] @ [0]) \<Longrightarrow> curve = butlast (0 # interpolation 4 0 ([8, 4] @ [0]))" by simp_all
  moreover have "whole_steps 4 0 ([8, 4] @ [0 :: int])"
    by simp presburger
  ultimately show ?thesis using r by simp
qed

section \<open>Steps\<close>

text \<open>The second component counts the runs of \<open>delayPopHandler\<close>.\<close>

inductive dd_step :: "'a pkt dynamic_delay \<times> nat \<Rightarrow> 'a pkt list \<Rightarrow> 'a pkt list \<Rightarrow> 'a pkt dynamic_delay \<times> nat \<Rightarrow> bool" where
  packet: "delay_step s i out s' \<Longrightarrow> dd_step (s, n) i out (s', n)"
| curve: "k < length (delayPosted s) \<Longrightarrow> delayPosted s ! k = ((), ec, d) \<Longrightarrow>
    dd_step (s, n) [] []
      (delayPopHandler now ec (case d of None \<Rightarrow> 0 | Some x \<Rightarrow> x)
        (s\<lparr>delayPosted := drop_nth k (delayPosted s)\<rparr>), Suc n)"
| tick: "k < length (delayTimers s) \<Longrightarrow> delayTimers s ! k = (expiry, d) \<Longrightarrow> expiry \<le> now \<Longrightarrow>
    dd_step (s, n) [] [] (delayQ_asyncPop (s\<lparr>delayTimers := drop_nth k (delayTimers s)\<rparr>), n)"

text \<open>The packet path does not see the curve's queue, and the other way round.\<close>

lemma delayQ_frame [simp]:
  "pktQueue (delayQ_push d s) = pktQueue s" "posted (delayQ_push d s) = posted s"
  "timers (delayQ_push d s) = timers s" "delay (delayQ_push d s) = delay s" "tick (delayQ_push d s) = tick s"
  "delayTimers (delayQ_push d s) = delayTimers s"
  "pktQueue (delayQ_asyncPop s) = pktQueue s" "posted (delayQ_asyncPop s) = posted s"
  "timers (delayQ_asyncPop s) = timers s" "delay (delayQ_asyncPop s) = delay s"
  "delayTimers (delayQ_asyncPop s) = delayTimers s"
  by (simp_all add: delayQ_push_def delayQ_asyncPop_def split: prod.splits)

lemma delay_ok_frame:
  "delay_ok (s\<lparr>delayQ := q, delayPosted := ts\<rparr>) = delay_ok s"
  "delay_ok (s\<lparr>delayTimers := t\<rparr>) = delay_ok s" "delay_ok (s\<lparr>delayPosted := ts\<rparr>) = delay_ok s"
  "delay_ok (s\<lparr>delay := d\<rparr>) = delay_ok s"
  "delay_held (s\<lparr>delayQ := q, delayPosted := ts\<rparr>) = delay_held s"
  "delay_held (s\<lparr>delayTimers := t\<rparr>) = delay_held s" "delay_held (s\<lparr>delayPosted := ts\<rparr>) = delay_held s"
  "delay_held (s\<lparr>delay := d\<rparr>) = delay_held s"
  by (simp_all add: delay_ok_def delay_held_def)

lemma delayPopHandler_frame [simp]:
  "delay_ok (delayPopHandler now ec d s) = delay_ok s" "delay_held (delayPopHandler now ec d s) = delay_held s"
  "delay_ok (delayQ_asyncPop s) = delay_ok s" "delay_held (delayQ_asyncPop s) = delay_held s"
  by (simp_all add: delayPopHandler_def Let_def delay_ok_def delay_held_def)

lemma dd_step_ok: "dd_step sn i out sn' \<Longrightarrow> delay_ok (fst sn) \<Longrightarrow> delay_ok (fst sn')"
  by (induction rule: dd_step.induct) (auto intro: delay_step_ok simp: delay_ok_frame)

lemma dd_step_held:
  "dd_step sn i out sn' \<Longrightarrow> delay_ok (fst sn) \<Longrightarrow>
     map ident out @ map ident (delay_held (fst sn')) = map ident (delay_held (fst sn)) @ map ident i"
  by (induction rule: dd_step.induct) (auto dest: delay_step_held simp: delay_ok_frame)

interpretation dynamic_delay: lossless_stage "ident_step dd_step"
  "\<lambda>d sn. of_dir d (map ident (delay_held (fst sn)))" "\<lambda>sn. delay_ok (fst sn)"
  by (rule lossless_stageI, erule (1) dd_step_ok, erule (1) dd_step_held)

section \<open>The cycle of the curve\<close>

text \<open>
  One token circulates through \<open>delayQ_\<close> as well. After \<open>n\<close> runs of the handler the curve,
  rotated by \<open>n\<close>, is in the queue, or its head is posted and the rest is in the queue.
\<close>

definition curve_ok :: "int list \<Rightarrow> nat \<Rightarrow> 'p dynamic_delay \<Rightarrow> bool" where
  "curve_ok c n s \<longleftrightarrow> aq_ok (delayQ s) \<and> callback (delayQ s) = None
     \<and> (0 < n \<longrightarrow> delay s = 1000 * c ! ((n - 1) mod length c))
     \<and> ((\<exists>d. delayPosted s = [((), Ok, Some d)] \<and> delayTimers s = [] \<and> d # theQueue (delayQ s) = rotate n c)
        \<or> (\<exists>e. delayPosted s = [] \<and> delayTimers s = [e] \<and> theQueue (delayQ s) = rotate n c))"

lemma delay_step_frame:
  "delay_step s i out s' \<Longrightarrow> curve_ok c n s \<Longrightarrow> curve_ok c n s'"
  by (induction rule: delay_step.induct)
    (auto simp: curve_ok_def delay_handlePacket_def delay_popHandler_def delay_timerHandler_def
      delay_asyncPop_def Let_def split: prod.splits queue_error_code.splits option.splits)

lemma delayQ_asyncPop_full:
  assumes "aq_ok (delayQ s)" and "theQueue (delayQ s) = d # ds"
  shows "aq_ok (delayQ (delayQ_asyncPop s))" and "theQueue (delayQ (delayQ_asyncPop s)) = ds"
    and "callback (delayQ (delayQ_asyncPop s)) = None"
    and "delayPosted (delayQ_asyncPop s) = delayPosted s @ [((), Ok, Some d)]"
  using aq.get_front [OF assms, of "()"] aq.get_ok [OF assms(1), of "()"]
  by (auto simp: delayQ_asyncPop_def split: prod.splits)

lemma delayQ_push_idle:
  assumes "aq_ok (delayQ s)" and "callback (delayQ s) = None"
  shows "aq_ok (delayQ (delayQ_push d s))" and "theQueue (delayQ (delayQ_push d s)) = theQueue (delayQ s) @ [d]"
    and "callback (delayQ (delayQ_push d s)) = None" and "delayPosted (delayQ_push d s) = delayPosted s"
  using aq.put_queued [OF assms, of d] aq.put_ok [OF assms(1), of d]
  by (auto simp: delayQ_push_def split: prod.splits)

lemma curve_step_ok:
  assumes "curve_ok c n s" and "k < length (delayPosted s)" and "delayPosted s ! k = ((), ec, d)"
    and "c \<noteq> []"
  shows "curve_ok c (Suc n) (delayPopHandler now ec (case d of None \<Rightarrow> 0 | Some x \<Rightarrow> x)
    (s\<lparr>delayPosted := drop_nth k (delayPosted s)\<rparr>))"
proof -
  from assms obtain x where x: "delayPosted s = [((), Ok, Some x)]" "delayTimers s = []"
    "x # theQueue (delayQ s) = rotate n c" "aq_ok (delayQ s)" "callback (delayQ s) = None"
    by (auto simp: curve_ok_def)
  with assms have e: "k = 0" "ec = Ok" "d = Some x" by auto
  let ?s = "s\<lparr>delayPosted := []\<rparr>"
  note P = delayQ_push_idle [of ?s x]
  have "rotate (Suc n) c = theQueue (delayQ s) @ [x]"
    unfolding rotate_Suc x(3) [symmetric] by simp
  moreover have "c ! (n mod length c) = x"
    using x(3) assms(4) by (metis add.left_neutral hd_rotate_conv_nth list.sel(1))
  ultimately show ?thesis using P x
    by (simp add: e delayPopHandler_def curve_ok_def drop_nth_def Let_def)
qed

lemma tick_step_ok:
  assumes "curve_ok c n s" and "k < length (delayTimers s)" and "delayTimers s ! k = (expiry, d)"
    and "c \<noteq> []"
  shows "curve_ok c n (delayQ_asyncPop (s\<lparr>delayTimers := drop_nth k (delayTimers s)\<rparr>))"
proof -
  from assms have t: "delayPosted s = []" "k = 0" "delayTimers s = [(expiry, d)]"
    "theQueue (delayQ s) = rotate n c" "aq_ok (delayQ s)" by (auto simp: curve_ok_def)
  obtain x xs where q: "theQueue (delayQ s) = x # xs"
    unfolding t(4) using assms(4) by (cases "rotate n c") simp_all
  note P = delayQ_asyncPop_full [of "s\<lparr>delayTimers := []\<rparr>" x xs]
  show ?thesis using P t q assms(1) by (simp add: curve_ok_def drop_nth_def)
qed

lemma dd_step_curve: "dd_step sn i out sn' \<Longrightarrow> curve_ok c (snd sn) (fst sn) \<Longrightarrow> c \<noteq> [] \<Longrightarrow>
    curve_ok c (snd sn') (fst sn')"
  by (induction rule: dd_step.induct)
    (auto intro: delay_step_frame curve_step_ok tick_step_ok)


lemma fold_delayQ_push:
  fixes ds :: "int list"
  assumes "aq_ok (delayQ s)" and "callback (delayQ s) = None"
  defines "s' \<equiv> fold delayQ_push ds s"
  shows "aq_ok (delayQ s')" and "theQueue (delayQ s') = theQueue (delayQ s) @ ds"
    and "callback (delayQ s') = None" and "delayPosted s' = delayPosted s"
    and "delayTimers s' = delayTimers s"
    and "pktQueue s' = pktQueue s \<and> posted s' = posted s \<and> timers s' = timers s"
  using assms(1,2) unfolding s'_def
  by (induction ds arbitrary: s) (simp_all add: delayQ_push_idle)

lemma DynamicDelay_ready:
  assumes "setDelays ds res DynamicDelay_new = Inr (c, s)" and "c \<noteq> []"
  defines "s0 \<equiv> snd (DynamicDelay_init s)"
  shows "delay_ok s0" and "delay_held s0 = []" and "curve_ok c 0 s0"
proof -
  from assms(1) have s: "s = fold delayQ_push c DynamicDelay_new"
    by (auto simp: setDelays_def Let_def split: list.splits)
  have "aq_ok (delayQ (DynamicDelay_new :: 'a dynamic_delay))"
    "callback (delayQ (DynamicDelay_new :: 'a dynamic_delay)) = None"
    by (simp_all add: DynamicDelay_new_def AsyncQueue_def aq_ok_def)
  note F = fold_delayQ_push [OF this, of c, folded s]
  have n: "theQueue (delayQ (DynamicDelay_new :: 'a dynamic_delay)) = []"
    "delayPosted (DynamicDelay_new :: 'a dynamic_delay) = []" "delayTimers (DynamicDelay_new :: 'a dynamic_delay) = []"
    "pktQueue (DynamicDelay_new :: 'a dynamic_delay) = AsyncQueue" "posted (DynamicDelay_new :: 'a dynamic_delay) = []"
    "timers (DynamicDelay_new :: 'a dynamic_delay) = []"
    by (simp_all add: DynamicDelay_new_def AsyncQueue_def)
  have p: "aq_ok (pktQueue s)" "callback (pktQueue s) = None" "posted s = []" "timers s = []" "theQueue (pktQueue s) = []"
    using F(6) n by (simp_all add: AsyncQueue_def aq_ok_def)
  have h: "delay_held (delay_asyncPop s) = []"
    unfolding delay_asyncPop_ok(2) [OF p(1-4)] using p by (simp add: delay_held_def)
  show "delay_ok s0" using delay_asyncPop_ok(1) [OF p(1-4)] by (simp add: s0_def DynamicDelay_init_def)
  show "delay_held s0 = []" using h by (simp add: s0_def DynamicDelay_init_def)
  obtain x xs where c: "c = x # xs" using assms(2) by (cases c) auto
  have d: "delayQ (delay_asyncPop s) = delayQ s" "delayPosted (delay_asyncPop s) = delayPosted s"
    "delayTimers (delay_asyncPop s) = delayTimers s"
    by (simp_all add: delay_asyncPop_def split: prod.splits)
  note P = delayQ_asyncPop_full [of "delay_asyncPop s" x xs, unfolded d]
  show "curve_ok c 0 s0"
    using P F n c d by (simp add: s0_def DynamicDelay_init_def curve_ok_def)
qed

lemma dd_run:
  assumes "stage_run dd_step sn0 ins outs sn" and "delay_ok (fst sn0)" and "curve_ok c (snd sn0) (fst sn0)"
    and "c \<noteq> []"
  shows "curve_ok c (snd sn) (fst sn)"
  using assms by (induction rule: stage_run.induct) (auto intro: dd_step_curve)

text \<open>
  C28. The dynamic delay filter follows its curve for ever: after the \<open>n\<close>-th run of its curve
  handler, the delay in force is the value number \<open>n - 1\<close> of the curve, counted cyclically;
  meanwhile the packets of each direction pass in order and none is lost.
\<close>

theorem dynamic_delay_cycle:
  assumes "setDelays ds res DynamicDelay_new = Inr (c, s)" and "c \<noteq> []"
    and run: "stage_run dd_step (snd (DynamicDelay_init s), 0) ins outs (s', n)"
  shows "(0 < n \<longrightarrow> delay s' = 1000 * c ! ((n - 1) mod length c))
    \<and> of_dir d (map ident ins) = of_dir d (map ident outs) @ of_dir d (map ident (delay_held s'))"
proof
  note R = DynamicDelay_ready [OF assms(1,2)]
  have "curve_ok c n s'" using dd_run [OF run] R assms(2) by simp
  then show "0 < n \<longrightarrow> delay s' = 1000 * c ! ((n - 1) mod length c)" by (simp add: curve_ok_def)
  show "of_dir d (map ident ins) = of_dir d (map ident outs) @ of_dir d (map ident (delay_held s'))"
    using dynamic_delay.run_keeps [OF stage_run_ident [OF run], of d] R by simp
qed

lemma dynamic_delay_cycle_witness:
  "\<exists>s s'. setDelays [20, 40, 30] 2 DynamicDelay_new = Inr ([20, 30, 40, 35, 30, 25], s)
     \<and> dd_step (snd (DynamicDelay_init s) :: parent_packet dynamic_delay, 0) [] [] (s', 1)
     \<and> delay s' = 20000"
proof -
  obtain s :: "parent_packet dynamic_delay"
    where s: "setDelays [20, 40, 30] 2 DynamicDelay_new = Inr ([20, 30, 40, 35, 30, 25], s)"
    using setDelays_readme by blast
  let ?s0 = "snd (DynamicDelay_init s)"
  note R = DynamicDelay_ready [OF s]
  from R(3) have p: "0 < length (delayPosted ?s0) \<or> delayTimers ?s0 \<noteq> []"
    by (auto simp: curve_ok_def)
  obtain x where x: "delayPosted ?s0 = [((), Ok, Some x)]"
  proof -
    have "fold delayQ_push [20, 30, 40, 35, 30, 25] DynamicDelay_new = s"
      using s by (auto simp: setDelays_def Let_def)
    then show ?thesis using that
      by (auto simp: DynamicDelay_init_def DynamicDelay_new_def delayQ_push_def delayQ_asyncPop_def
          delay_asyncPop_def AsyncQueue_def aq_defs)
  qed
  define s' where "s' = delayPopHandler 0 Ok x (?s0\<lparr>delayPosted := drop_nth 0 (delayPosted ?s0)\<rparr>)"
  have st: "dd_step (?s0, 0) [] [] (s', 1)"
    using dd_step.curve [of 0 ?s0 Ok "Some x" 0 0] by (simp add: s'_def x)
  have "delay s' = 20000"
    using dynamic_delay_cycle [OF s _ stage_run_one [where step = dd_step, OF st], of True] by simp
  with s st show ?thesis by (intro exI conjI)
qed

end
