(* ===== verification/Dynamic_Loss.thy ===== *)
theory Dynamic_Loss
  imports Shaper
begin

text \<open>
  \<open>DynamicLoss\<close> (dynamic\_loss.hpp, dynamic\_loss.cpp): a loss filter whose probability
  follows a list of values, each in force for its own number of seconds. \<open>lossTimers\<close> has the
  expiries of the armed timers. Reading outside of a vector and overflow of the \<open>int\<close> product
  \<open>times_[i] * 1000\<close> are faults.
\<close>

record dynamic_loss =
  currentLoss :: real
  currentIndex :: nat
  times :: "int list"
  losses :: "real list"
  lossTimers :: "int list"

definition DynamicLoss_new :: "dynamic_loss \<Rightarrow> dynamic_loss" where
  "DynamicLoss_new raw = raw\<lparr>times := [1], losses := [0], lossTimers := []\<rparr>"

definition setLosses :: "int list \<Rightarrow> real list \<Rightarrow> dynamic_loss \<Rightarrow> bool \<times> dynamic_loss" where
  "setLosses ts ls s =
     (if length ts \<noteq> length ls then (False, s) else (True, s\<lparr>times := ts, losses := ls\<rparr>))"

definition at_index :: "'b list \<Rightarrow> nat \<Rightarrow> fault + 'b" where
  "at_index xs i = (if i < length xs then Inr (xs ! i) else Inl OutOfBounds)"

definition int_mul :: "int \<Rightarrow> int \<Rightarrow> fault + int" where
  "int_mul a b = (if - (2 ^ 31) \<le> a * b \<and> a * b < 2 ^ 31 then Inr (a * b) else Inl IntOverflow)"

text \<open>Arming the timer for \<open>milliseconds(times_[currentIndex_] * 1000)\<close>.\<close>

definition loss_arm :: "int \<Rightarrow> dynamic_loss \<Rightarrow> fault + dynamic_loss" where
  "loss_arm now s =
     try_bind (at_index (times s) (currentIndex s)) (\<lambda>t.
     try_bind (int_mul t 1000) (\<lambda>ms.
       Inr (s\<lparr>lossTimers := lossTimers s @ [now + ms * 1000]\<rparr>)))"

definition DynamicLoss_init :: "int \<Rightarrow> dynamic_loss \<Rightarrow> fault + bool \<times> dynamic_loss" where
  "DynamicLoss_init now s =
     try_bind (at_index (losses s) 0) (\<lambda>l.
     try_bind (loss_arm now (s\<lparr>currentLoss := l, currentIndex := 0\<rparr>)) (\<lambda>s'. Inr (True, s')))"

definition handleTimeout :: "int \<Rightarrow> dynamic_loss \<Rightarrow> fault + dynamic_loss" where
  "handleTimeout now s =
     (let i = currentIndex s + 1; i' = (if length (losses s) \<le> i then 0 else i)
      in try_bind (at_index (losses s) i') (\<lambda>l.
         loss_arm now (s\<lparr>currentIndex := i', currentLoss := l\<rparr>)))"

definition DynamicLoss_handlePacket :: "nat \<Rightarrow> 'a pkt \<Rightarrow> dynamic_loss \<Rightarrow> 'a pkt list \<times> verdict list" where
  "DynamicLoss_handlePacket rnd pkt s =
     (let r = rand_float rnd
      in if r < currentLoss s then ([], snd (setVerdict False pkt)) else ([pkt], []))"

lemmas dynamic_loss_defs = DynamicLoss_new_def setLosses_def at_index_def int_mul_def loss_arm_def
  DynamicLoss_init_def handleTimeout_def DynamicLoss_handlePacket_def

section \<open>Steps\<close>

text \<open>The second component counts the timeouts handled since \<open>init\<close>.\<close>

inductive dl_step :: "dynamic_loss \<times> nat \<Rightarrow> 'a pkt list \<Rightarrow> 'a pkt list \<Rightarrow> dynamic_loss \<times> nat \<Rightarrow> bool" where
  packet: "rnd \<le> RAND_MAX \<Longrightarrow> DynamicLoss_handlePacket rnd pkt s = (out, vs) \<Longrightarrow>
    dl_step (s, n) [pkt] out (s, n)"
| timeout: "k < length (lossTimers s) \<Longrightarrow> lossTimers s ! k \<le> now \<Longrightarrow>
    handleTimeout now (s\<lparr>lossTimers := drop_nth k (lossTimers s)\<rparr>) = Inr s' \<Longrightarrow>
    dl_step (s, n) [] [] (s', Suc n)"

interpretation dynamic_loss: fifo_stage "ident_step dl_step" "\<lambda>d sn. []" "\<lambda>sn. True"
  by unfold_locales
    (auto simp: ident_step_def DynamicLoss_handlePacket_def Let_def elim!: dl_step.cases split: if_splits)

definition dl_ok :: "int list \<Rightarrow> real list \<Rightarrow> nat \<Rightarrow> dynamic_loss \<Rightarrow> bool" where
  "dl_ok ts ls n s \<longleftrightarrow> times s = ts \<and> losses s = ls \<and> currentIndex s = n mod length ls
     \<and> currentLoss s = ls ! (n mod length ls) \<and> length (lossTimers s) = 1"

definition times_ok :: "int list \<Rightarrow> bool" where
  "times_ok ts \<longleftrightarrow> ts \<noteq> [] \<and> (\<forall>t \<in> set ts. - (2 ^ 31) \<le> t * 1000 \<and> t * 1000 < 2 ^ 31)"

lemma loss_arm_ok:
  assumes "times_ok (times s)" and "currentIndex s < length (times s)"
  shows "loss_arm now s = Inr (s\<lparr>lossTimers := lossTimers s @ [now + times s ! currentIndex s * 1000 * 1000]\<rparr>)"
  using assms nth_mem [OF assms(2)] by (simp add: loss_arm_def at_index_def int_mul_def times_ok_def)

lemma mod_Suc_index:
  "0 < l \<Longrightarrow> Suc n mod l = (if l \<le> n mod l + 1 then 0 else n mod l + (1 :: nat))"
  using mod_less_divisor [of l n] by (auto simp: mod_Suc not_le intro: Suc_lessI)

lemma handleTimeout_ok:
  assumes "times_ok ts" and "length ts = length ls" and "dl_ok ts ls n s" and "k < length (lossTimers s)"
  shows "\<exists>s'. handleTimeout now (s\<lparr>lossTimers := drop_nth k (lossTimers s)\<rparr>) = Inr s' \<and> dl_ok ts ls (Suc n) s'
    \<and> lossTimers s' = [now + ts ! (Suc n mod length ts) * 1000 * 1000]"
proof -
  have l: "0 < length ls" using assms(1,2) by (auto simp: times_ok_def)
  have d: "drop_nth k (lossTimers s) = []"
    using assms(3,4) by (cases "lossTimers s") (auto simp: dl_ok_def drop_nth_def)
  let ?i = "Suc n mod length ls"
  have i: "?i < length ls" using l by simp
  have ix: "(if length (losses (s\<lparr>lossTimers := []\<rparr>)) \<le> currentIndex (s\<lparr>lossTimers := []\<rparr>) + 1
      then 0 else currentIndex (s\<lparr>lossTimers := []\<rparr>) + 1) = ?i"
    using assms(3) mod_Suc_index [OF l, of n] by (simp add: dl_ok_def)
  have "handleTimeout now (s\<lparr>lossTimers := []\<rparr>) =
      loss_arm now (s\<lparr>lossTimers := [], currentIndex := ?i, currentLoss := ls ! ?i\<rparr>)"
    unfolding handleTimeout_def Let_def ix using assms(3) i by (simp add: at_index_def dl_ok_def)
  also have "\<dots> = Inr (s\<lparr>currentIndex := ?i, currentLoss := ls ! ?i,
      lossTimers := [now + ts ! ?i * 1000 * 1000]\<rparr>)"
    using assms(1-3) i by (subst loss_arm_ok) (simp_all add: dl_ok_def)
  finally show ?thesis using assms(2,3) by (simp add: d dl_ok_def)
qed

lemma dl_step_ok:
  assumes "dl_step sn i out sn'" and "times_ok ts" and "length ts = length ls" and "dl_ok ts ls (snd sn) (fst sn)"
  shows "dl_ok ts ls (snd sn') (fst sn')"
  using assms
proof (induction rule: dl_step.induct)
  case (timeout k s now s' n)
  then show ?case using handleTimeout_ok [of ts ls n s k now] by auto
qed simp

lemma DynamicLoss_init_ok:
  assumes "setLosses ts ls (DynamicLoss_new raw) = (True, s)" and "times_ok ts"
  shows "length ts = length ls \<and>
    (\<exists>s0. DynamicLoss_init now s = Inr (True, s0) \<and> dl_ok ts ls 0 s0)"
proof -
  from assms(1) have s: "s = (DynamicLoss_new raw)\<lparr>times := ts, losses := ls\<rparr>" "length ts = length ls"
    by (auto simp: setLosses_def split: if_splits)
  have "0 < length ls" using assms(2) s by (auto simp: times_ok_def)
  then have "loss_arm now (s\<lparr>currentLoss := ls ! 0, currentIndex := 0\<rparr>) =
      Inr (s\<lparr>currentLoss := ls ! 0, currentIndex := 0, lossTimers := [now + ts ! 0 * 1000 * 1000]\<rparr>)"
    using assms(2) s(2) by (subst loss_arm_ok) (simp_all add: s DynamicLoss_new_def)
  then show ?thesis using s(2) \<open>0 < length ls\<close>
    by (simp add: DynamicLoss_init_def at_index_def s dl_ok_def)
qed

text \<open>
  A dynamic loss filter with as many times as losses, at least one, and times whose
  product with 1000 is an \<open>int\<close>, initialises without a fault and then goes through its losses
  in order and in a cycle: after \<open>n\<close> timeouts the loss in force is number \<open>n\<close>, one timer is
  armed, and its timeout is handled without a fault and armed again with the time that
  belongs to the next loss.
\<close>

lemma dynamic_loss_cycle:
  assumes "setLosses ts ls (DynamicLoss_new raw) = (True, s)" and "times_ok ts"
  shows "\<exists>s0. DynamicLoss_init now s = Inr (True, s0) \<and>
    (\<forall>ins outs s' n. stage_run dl_step (s0, 0) (ins :: 'a pkt list) outs (s', n) \<longrightarrow>
       currentLoss s' = ls ! (n mod length ls) \<and> length (lossTimers s') = 1 \<and>
       (\<forall>t. \<exists>s''. handleTimeout t (s'\<lparr>lossTimers := []\<rparr>) = Inr s'' \<and>
          lossTimers s'' = [t + ts ! (Suc n mod length ts) * 1000 * 1000]))"
proof -
  obtain s0 where s0: "DynamicLoss_init now s = Inr (True, s0)" "dl_ok ts ls 0 s0" and l: "length ts = length ls"
    using DynamicLoss_init_ok [OF assms] by blast
  have run: "dl_ok ts ls (snd sn) (fst sn)"
    if "stage_run dl_step (s0, 0) (ins :: 'a pkt list) outs sn" for ins outs sn
    using that by (induction rule: stage_run.induct) (auto simp: s0(2) intro: dl_step_ok [OF _ assms(2) l])
  have "currentLoss s' = ls ! (n mod length ls) \<and> length (lossTimers s') = 1 \<and>
       (\<forall>t. \<exists>s''. handleTimeout t (s'\<lparr>lossTimers := []\<rparr>) = Inr s'' \<and>
          lossTimers s'' = [t + ts ! (Suc n mod length ts) * 1000 * 1000])"
    if "stage_run dl_step (s0, 0) (ins :: 'a pkt list) outs (s', n)" for ins outs s' n
  proof -
    from run [OF that] have ok: "dl_ok ts ls n s'" by simp
    then have one: "length (lossTimers s') = 1" by (simp add: dl_ok_def)
    then have "drop_nth 0 (lossTimers s') = []" by (cases "lossTimers s'") (simp_all add: drop_nth_def)
    with handleTimeout_ok [OF assms(2) l ok, of 0] one ok show ?thesis by (auto simp: dl_ok_def)
  qed
  with s0(1) show ?thesis by blast
qed

lemma dynamic_loss_cycle_witness:
  "\<exists>s0. DynamicLoss_init 0 (snd (setLosses [5, 10] [0, 1 / 2]
      (DynamicLoss_new \<lparr>currentLoss = 0, currentIndex = 9, times = [], losses = [], lossTimers = []\<rparr>)))
     = Inr (True, s0) \<and> currentLoss s0 = 0"
proof -
  let ?raw = "\<lparr>currentLoss = 0, currentIndex = 9, times = [], losses = [], lossTimers = []\<rparr> :: dynamic_loss"
  let ?s = "snd (setLosses [5, 10] [0, 1 / 2] (DynamicLoss_new ?raw))"
  have "setLosses [5, 10] [0, 1 / 2] (DynamicLoss_new ?raw) = (True, ?s)" "times_ok [5, 10]"
    by (simp_all add: setLosses_def times_ok_def)
  from dynamic_loss_cycle [OF this, of 0] obtain s0 where s0: "DynamicLoss_init 0 ?s = Inr (True, s0)"
    and r: "\<forall>ins outs s' n. stage_run dl_step (s0, 0) (ins :: parent_packet list) outs (s', n) \<longrightarrow>
       currentLoss s' = [0, 1 / 2] ! (n mod length [0, 1 / 2 :: real])" by blast
  from r stage_run.empty [of dl_step "(s0, 0)"] have "currentLoss s0 = [0, 1 / 2] ! (0 mod 2)" by fastforce
  with s0 show ?thesis by simp
qed

end
