(* ===== verification/Burst_Filter.thy ===== *)
theory Burst_Filter
  imports Shaper
begin

text \<open>
  \<open>Burst\<close> (burst\_filter.hpp): a filter that alternates between collecting packets and
  passing them on. \<open>init\<close> is also the handler of its timer: it ends the phase, which for the
  collecting phase (\<open>sleeping_\<close> false) means to pass on what was collected, and arms the timer
  for the next phase. \<open>handlePacket\<close> reads \<open>sleeping_\<close> without the mutex; the second
  transition system has the critical sections of both methods apart, and is the one that the
  filter has in a chain. Besides the members of the class the record has what the threads are
  about: the armed timers, the calls of \<open>handlePacket\<close> that have read \<open>sleeping_\<close> and not yet
  acted, with what they read, and, while the handler of the timer holds the mutex, the
  packets that it has still to pass on.
\<close>

record 'p burst =
  burstQueue :: "'p list"
  burstDur :: int
  sleepDur :: int
  sleeping :: bool
  burstTimers :: "int list"
  burstCalls :: "(bool \<times> 'p) list"
  burstDrain :: "'p list option"

definition Burst_new :: "'p burst" where
  "Burst_new = \<lparr>burstQueue = [], burstDur = 0, sleepDur = 10 * 1000, sleeping = False, burstTimers = [],
     burstCalls = [], burstDrain = None\<rparr>"

definition setBurstDuration :: "int \<Rightarrow> 'p burst \<Rightarrow> 'p burst" where
  "setBurstDuration dur s = s\<lparr>burstDur := dur * 1000\<rparr>"

definition setSleepDuration :: "int \<Rightarrow> 'p burst \<Rightarrow> 'p burst" where
  "setSleepDuration sleep s = s\<lparr>sleepDur := sleep * 1000\<rparr>"

definition startSleeping :: "'p burst \<Rightarrow> 'p burst" where
  "startSleeping s = s\<lparr>sleeping := True\<rparr>"

definition stopSleeping :: "'p burst \<Rightarrow> 'p burst" where
  "stopSleeping s = s\<lparr>sleeping := False\<rparr>"

text \<open>The results are the returned flag, the packets passed on and the new state.\<close>

definition Burst_init :: "int \<Rightarrow> 'p burst \<Rightarrow> bool \<times> 'p list \<times> 'p burst" where
  "Burst_init now s =
     (if sleeping s then
        (True, [], s\<lparr>sleeping := False, burstTimers := burstTimers s @ [now + burstDur s]\<rparr>)
      else
        (True, burstQueue s,
         s\<lparr>burstQueue := [], sleeping := True, burstTimers := burstTimers s @ [now + sleepDur s]\<rparr>))"

text \<open>What \<open>handlePacket\<close> does after it has read \<open>sleeping_\<close>, and the whole of it.\<close>

definition burst_act :: "bool \<Rightarrow> 'p \<Rightarrow> 'p burst \<Rightarrow> 'p list \<times> 'p burst" where
  "burst_act slp pkt s = (if slp then ([pkt], s) else ([], s\<lparr>burstQueue := burstQueue s @ [pkt]\<rparr>))"

definition Burst_handlePacket :: "'p \<Rightarrow> 'p burst \<Rightarrow> 'p list \<times> 'p burst" where
  "Burst_handlePacket pkt s = burst_act (sleeping s) pkt s"

section \<open>Calls one at a time\<close>

inductive burst_step :: "'p burst \<Rightarrow> 'p list \<Rightarrow> 'p list \<Rightarrow> 'p burst \<Rightarrow> bool" where
  handle: "Burst_handlePacket pkt s = (out, s') \<Longrightarrow> burst_step s [pkt] out s'"
| timeout: "k < length (burstTimers s) \<Longrightarrow> burstTimers s ! k \<le> now \<Longrightarrow>
    Burst_init now (s\<lparr>burstTimers := drop_nth k (burstTimers s)\<rparr>) = (b, out, s') \<Longrightarrow>
    burst_step s [] out s'"

text \<open>Nothing is collected in the passing phase; one timer is armed.\<close>

definition burst_ok :: "'p burst \<Rightarrow> bool" where
  "burst_ok s \<longleftrightarrow> (sleeping s \<longrightarrow> burstQueue s = []) \<and> length (burstTimers s) = 1"

lemma burst_step_ok:
  "burst_step s i out s' \<Longrightarrow> burst_ok s \<Longrightarrow>
     burst_ok s' \<and> out @ burstQueue s' = burstQueue s @ i
     \<and> sleepDur s' = sleepDur s \<and> burstDur s' = burstDur s"
proof (induction rule: burst_step.induct)
  case (handle pkt s out s')
  then show ?case
    by (auto simp: Burst_handlePacket_def burst_act_def burst_ok_def split: if_splits)
next
  case (timeout k s now b out s')
  then have d: "drop_nth k (burstTimers s) = []"
    by (cases "burstTimers s") (auto simp: burst_ok_def drop_nth_def)
  show ?case using timeout by (auto simp: Burst_init_def burst_ok_def d split: if_splits)
qed

lemma burst_run_ok:
  "stage_run burst_step s0 ins outs s \<Longrightarrow> burst_ok s0 \<Longrightarrow>
     burst_ok s \<and> outs @ burstQueue s = burstQueue s0 @ ins
     \<and> sleepDur s = sleepDur s0 \<and> burstDur s = burstDur s0"
proof (induction rule: stage_run.induct)
  case (more ins outs s i out s')
  then have "burst_ok s" by simp
  from burst_step_ok [OF more(2) this] more show ?case by auto
qed simp

interpretation burst: lossless_stage "ident_step burst_step"
  "\<lambda>d s. of_dir d (map ident (burstQueue s))" burst_ok
proof (rule lossless_stageI)
  fix s s' :: "'a parent_packet_scheme burst" and i out
  assume "burst_step s i out s'" and "burst_ok s"
  from burst_step_ok [OF this] show "burst_ok s'"
    and "map ident out @ map ident (burstQueue s') = map ident (burstQueue s) @ map ident i"
    by (simp_all flip: map_append)
qed

text \<open>
  C30. The burst filter, with its calls one at a time: it passes all packets, in order; a packet
  that comes in the passing phase is passed at once; the timer that ends the collecting phase
  passes everything collected, in one go, and starts the passing phase of the configured
  length; the timer that ends the passing phase passes nothing and starts collecting for the
  configured time.
\<close>

theorem burst_phases:
  assumes "Burst_init t0 (setSleepDuration sl (setBurstDuration bu Burst_new)) = (b, out0, s0)"
    and "stage_run burst_step s0 ins outs s"
  shows "out0 = [] \<and> ins = outs @ burstQueue s
    \<and> Burst_handlePacket pkt s =
        (if sleeping s then ([pkt], s) else ([], s\<lparr>burstQueue := burstQueue s @ [pkt]\<rparr>))
    \<and> Burst_init now (s\<lparr>burstTimers := []\<rparr>) =
        (if sleeping s then (True, [], s\<lparr>sleeping := False, burstTimers := [now + bu * 1000]\<rparr>)
         else (True, burstQueue s, s\<lparr>burstQueue := [], sleeping := True, burstTimers := [now + sl * 1000]\<rparr>))"
proof -
  from assms(1) have s0: "out0 = []" "burst_ok s0" "burstQueue s0 = []" "sleepDur s0 = sl * 1000" "burstDur s0 = bu * 1000"
    by (auto simp: Burst_init_def setSleepDuration_def setBurstDuration_def Burst_new_def burst_ok_def)
  from burst_run_ok [OF assms(2) s0(2)] s0 have r: "burst_ok s" "ins = outs @ burstQueue s" "sleepDur s = sl * 1000"
    "burstDur s = bu * 1000" by simp_all
  then have "sleeping s \<Longrightarrow> burstQueue s = []" by (simp add: burst_ok_def)
  with r s0(1) show ?thesis
    by (simp add: Burst_handlePacket_def burst_act_def Burst_init_def)
qed

lemma burst_phases_witness:
  "\<exists>s :: nat burst. burstQueue s = [7] \<and> Burst_init 30000 (s\<lparr>burstTimers := []\<rparr>) =
     (True, [7], s\<lparr>burstQueue := [], sleeping := True, burstTimers := [40000]\<rparr>)"
proof -
  note defs = Burst_init_def setSleepDuration_def setBurstDuration_def Burst_new_def drop_nth_def
    burst_act_def Burst_handlePacket_def
  let ?f = "\<lambda>q slp t. \<lparr>burstQueue = q, burstDur = 20000, sleepDur = 10000, sleeping = slp, burstTimers = [t],
    burstCalls = [], burstDrain = None\<rparr> :: nat burst"
  have i: "Burst_init 0 (setSleepDuration 10 (setBurstDuration 20 (Burst_new :: nat burst))) = (True, [], ?f [] True 10000)"
    by (simp add: defs)
  have a1: "burst_step (?f [] True 10000) [] [] (?f [] False 30000)"
    using burst_step.timeout [of 0 "?f [] True 10000" 10000] by (simp add: defs)
  have a2: "burst_step (?f [] False 30000) [7] [] (?f [7] False 30000)"
    using burst_step.handle [of 7 "?f [] False 30000"] by (simp add: defs)
  note more = stage_run.more [where step = burst_step]
  from more [OF more [OF stage_run.empty a1] a2]
  have r: "stage_run burst_step (?f [] True 10000) [7] [] (?f [7] False 30000)" by simp
  from burst_phases [OF i r, where now = 30000] show ?thesis
    by (intro exI [of _ "?f [7] False 30000"]) simp
qed

section \<open>The critical sections\<close>

text \<open>
  \<open>handlePacket\<close> reads \<open>sleeping_\<close>, and then passes the packet without the mutex or queues it with
  the mutex. The handler of the timer either wakes the filter up or, with the mutex, passes the
  queue packet by packet, clears it and starts the passing phase. Calls of several threads may
  be under way.
\<close>

inductive burst_race :: "'p burst \<Rightarrow> 'p list \<Rightarrow> 'p list \<Rightarrow> 'p burst \<Rightarrow> bool" where
  read: "burst_race s [pkt] [] (s\<lparr>burstCalls := burstCalls s @ [(sleeping s, pkt)]\<rparr>)"
| act: "k < length (burstCalls s) \<Longrightarrow> burstCalls s ! k = (slp, pkt) \<Longrightarrow> slp \<or> burstDrain s = None \<Longrightarrow>
    burst_act slp pkt (s\<lparr>burstCalls := drop_nth k (burstCalls s)\<rparr>) = (out, s') \<Longrightarrow> burst_race s [] out s'"
| wake: "k < length (burstTimers s) \<Longrightarrow> burstTimers s ! k \<le> now \<Longrightarrow> sleeping s \<Longrightarrow>
    Burst_init now (s\<lparr>burstTimers := drop_nth k (burstTimers s)\<rparr>) = (b, out, s') \<Longrightarrow> burst_race s [] out s'"
| lock: "k < length (burstTimers s) \<Longrightarrow> burstTimers s ! k \<le> now \<Longrightarrow> \<not> sleeping s \<Longrightarrow> burstDrain s = None \<Longrightarrow>
    burst_race s [] [] (s\<lparr>burstTimers := drop_nth k (burstTimers s), burstDrain := Some (burstQueue s)\<rparr>)"
| pass: "burstDrain s = Some (p # ps) \<Longrightarrow> burst_race s [] [p] (s\<lparr>burstDrain := Some ps\<rparr>)"
| unlock: "burstDrain s = Some [] \<Longrightarrow>
    burst_race s [] [] (s\<lparr>burstQueue := [], burstDrain := None, sleeping := True,
      burstTimers := burstTimers s @ [now + sleepDur s]\<rparr>)"

text \<open>Run in a row, the sections are the methods.\<close>

lemma drain_all:
  "burstDrain s = Some ps \<Longrightarrow> stage_run burst_race s0 ins outs s \<Longrightarrow>
     stage_run burst_race s0 ins (outs @ ps) (s\<lparr>burstDrain := Some []\<rparr>)"
proof (induction ps arbitrary: s outs)
  case Nil
  then have "s\<lparr>burstDrain := Some []\<rparr> = s" by (cases s) simp
  with Nil show ?case by (simp only: append_Nil2)
next
  case (Cons p ps)
  from stage_run.more [OF Cons.prems(2) burst_race.pass [OF Cons.prems(1)]]
  have "stage_run burst_race s0 ins (outs @ [p]) (s\<lparr>burstDrain := Some ps\<rparr>)" by simp
  from Cons.IH [OF _ this] show ?case by simp
qed

lemma burst_step_race:
  assumes "burst_step s i out s'" and "burstCalls s = []" and "burstDrain s = None"
  shows "stage_run burst_race s i out s'"
  using assms(1)
proof cases
  case (handle pkt)
  from stage_run_one [where step = burst_race, OF burst_race.read [of s pkt]]
  have r: "stage_run burst_race s [pkt] [] (s\<lparr>burstCalls := [(sleeping s, pkt)]\<rparr>)" by (simp add: assms(2))
  have "s\<lparr>burstCalls := []\<rparr> = s" by (simp flip: assms(2))
  then have "burst_race (s\<lparr>burstCalls := [(sleeping s, pkt)]\<rparr>) [] out s'"
    using handle by (intro burst_race.act [of 0]) (simp_all add: assms(3) drop_nth_def Burst_handlePacket_def)
  from stage_run.more [OF r this] handle(1) show ?thesis by simp
next
  case (timeout k now b)
  show ?thesis
  proof (cases "sleeping s")
    case True
    from stage_run_one [where step = burst_race, OF burst_race.wake [OF timeout(2,3) True timeout(4)]] timeout(1)
    show ?thesis by simp
  next
    case False
    let ?t = "burstTimers s"
    have l: "burst_race s [] [] (s\<lparr>burstTimers := drop_nth k ?t, burstDrain := Some (burstQueue s)\<rparr>)"
      by (rule burst_race.lock [OF timeout(2,3) False assms(3)])
    have "stage_run burst_race s [] ([] @ burstQueue s)
        (s\<lparr>burstTimers := drop_nth k ?t, burstDrain := Some (burstQueue s)\<rparr>\<lparr>burstDrain := Some []\<rparr>)"
      by (rule drain_all [OF _ stage_run_one [where step = burst_race, OF l]]) simp
    then have "stage_run burst_race s [] (burstQueue s) (s\<lparr>burstTimers := drop_nth k ?t, burstDrain := Some []\<rparr>)" by simp
    from stage_run.more [OF this burst_race.unlock [of _ now]]
    have "stage_run burst_race s [] (burstQueue s) (s\<lparr>burstQueue := [], burstDrain := None,
        sleeping := True, burstTimers := drop_nth k ?t @ [now + sleepDur s]\<rparr>)" by simp
    moreover have "out = burstQueue s" "s' = s\<lparr>burstQueue := [], burstDrain := None,
        sleeping := True, burstTimers := drop_nth k ?t @ [now + sleepDur s]\<rparr>"
      using timeout(4) False assms(3) by (cases s, simp add: Burst_init_def)+
    ultimately show ?thesis using timeout(1) by simp
  qed
qed

text \<open>Whatever the interleaving, no packet is lost or passed twice.\<close>

definition burst_packets :: "'p burst \<Rightarrow> 'p list" where
  "burst_packets s = map snd (burstCalls s) @ (case burstDrain s of None \<Rightarrow> burstQueue s | Some ps \<Rightarrow> ps)"

lemma mset_drop_nth: "k < length xs \<Longrightarrow> mset xs = add_mset (xs ! k) (mset (drop_nth k xs))"
  by (subst id_take_nth_drop [of k xs]) (simp_all add: drop_nth_def)

lemma burst_race_keeps: "burst_race s i out s' \<Longrightarrow> mset out + mset (burst_packets s') = mset (burst_packets s) + mset i"
proof (induction rule: burst_race.induct)
  case (act k s slp pkt out s')
  have "mset (map snd (burstCalls s)) = add_mset pkt (mset (map snd (drop_nth k (burstCalls s))))"
    using arg_cong [OF mset_drop_nth [OF act(1)], of "image_mset snd"] act(2) by simp
  then show ?case using act(3,4) by (auto simp: burst_packets_def burst_act_def split: if_splits option.splits)
next
  case (wake k s now b out s')
  then show ?case by (auto simp: burst_packets_def Burst_init_def split: option.split)
qed (simp_all add: burst_packets_def split: option.split)

text \<open>
  The order is not kept: a packet for which the producer read that the filter collects, queued
  after the timer has started the passing phase, stays in the queue while the packets after it
  pass.
\<close>

lemma burst_race_reorders:
  "\<exists>s0 s. Burst_init 0 (setSleepDuration 10 (setBurstDuration 20 (Burst_new :: nat burst))) = (True, [], s0)
     \<and> stage_run burst_race s0 [1, 2] [2, 1] s"
proof -
  note defs = Burst_init_def setSleepDuration_def setBurstDuration_def Burst_new_def drop_nth_def burst_act_def
  let ?s = "\<lambda>q slp ts cs dr. \<lparr>burstQueue = q, burstDur = 20000, sleepDur = 10000, sleeping = slp, burstTimers = ts,
    burstCalls = cs, burstDrain = dr\<rparr> :: nat burst"
  have a1: "burst_race (?s [] True [10000] [] None) [] [] (?s [] False [30000] [] None)"
    using burst_race.wake [of 0 "?s [] True [10000] [] None" 10000] by (simp add: defs)
  have a2: "burst_race (?s [] False [30000] [] None) [1] [] (?s [] False [30000] [(False, 1)] None)"
    using burst_race.read [of "?s [] False [30000] [] None" 1] by simp
  have a3: "burst_race (?s [] False [30000] [(False, 1)] None) [] [] (?s [] False [] [(False, 1)] (Some []))"
    using burst_race.lock [of 0 "?s [] False [30000] [(False, 1)] None" 30000] by (simp add: defs)
  have a4: "burst_race (?s [] False [] [(False, 1)] (Some [])) [] [] (?s [] True [40000] [(False, 1)] None)"
    using burst_race.unlock [of "?s [] False [] [(False, 1)] (Some [])" 30000] by simp
  have a5: "burst_race (?s [] True [40000] [(False, 1)] None) [] [] (?s [1] True [40000] [] None)"
    using burst_race.act [of 0 "?s [] True [40000] [(False, 1)] None" False 1] by (simp add: defs)
  have a6: "burst_race (?s [1] True [40000] [] None) [2] [] (?s [1] True [40000] [(True, 2)] None)"
    using burst_race.read [of "?s [1] True [40000] [] None" 2] by simp
  have a7: "burst_race (?s [1] True [40000] [(True, 2)] None) [] [2] (?s [1] True [40000] [] None)"
    using burst_race.act [of 0 "?s [1] True [40000] [(True, 2)] None" True 2] by (simp add: defs)
  have a8: "burst_race (?s [1] True [40000] [] None) [] [] (?s [1] False [60000] [] None)"
    using burst_race.wake [of 0 "?s [1] True [40000] [] None" 40000] by (simp add: defs)
  have a9: "burst_race (?s [1] False [60000] [] None) [] [] (?s [1] False [] [] (Some [1]))"
    using burst_race.lock [of 0 "?s [1] False [60000] [] None" 60000] by (simp add: defs)
  have a10: "burst_race (?s [1] False [] [] (Some [1])) [] [1] (?s [1] False [] [] (Some []))"
    using burst_race.pass [of "?s [1] False [] [] (Some [1])" 1 "[]"] by simp
  note more = stage_run.more [where step = burst_race]
  from more [OF more [OF more [OF more [OF more [OF more [OF more [OF more [OF more [OF more
      [OF stage_run.empty a1] a2] a3] a4] a5] a6] a7] a8] a9] a10]
  have "stage_run burst_race (?s [] True [10000] [] None) [1, 2] [2, 1] (?s [1] False [] [] (Some []))" by simp
  moreover have "Burst_init 0 (setSleepDuration 10 (setBurstDuration 20 (Burst_new :: nat burst))) =
      (True, [], ?s [] True [10000] [] None)"
    by (simp add: defs)
  ultimately show ?thesis by blast
qed

end
