(* ===== verification/Token_Bucket.thy ===== *)
theory Token_Bucket
  imports Shaper
begin

text \<open>
  \<open>TokenBucket\<close> and \<open>TokenBucketFilter\<close> (tbf\_filter.hpp): packets wait in a queue until the
  bucket has a token for each of their bytes; a timer adds tokens at the configured rate. The
  token arithmetic is that of \<open>uint32_t\<close> and \<open>uint64_t\<close>; times are microseconds.
\<close>

section \<open>TokenBucket\<close>

record 'p token_bucket =
  tbQueue :: "'p list"
  tokens :: u32
  maxTokens :: u32
  maxPackets :: u32
  dataRate :: u32
  redStart :: u32
  timerStart :: u64
  tbTimers :: "int list"

text \<open>\<open>getTimeStamp\<close> of the wall clock time \<open>now\<close>.\<close>

definition getTimeStamp :: "int \<Rightarrow> u64" where
  "getTimeStamp now = word_of_int now"

definition TokenBucket_new :: "int \<Rightarrow> 'p token_bucket" where
  "TokenBucket_new now =
     \<lparr>tbQueue = [], tokens = 0, maxTokens = 8000, maxPackets = 30, dataRate = 20480,
      redStart = 30, timerStart = getTimeStamp now, tbTimers = []\<rparr>"

definition setMaxTokens :: "u32 \<Rightarrow> 'p token_bucket \<Rightarrow> 'p token_bucket" where
  "setMaxTokens t s = s\<lparr>maxTokens := t\<rparr>"

definition setMaxPackets :: "u32 \<Rightarrow> 'p token_bucket \<Rightarrow> 'p token_bucket" where
  "setMaxPackets p s = s\<lparr>maxPackets := p\<rparr>"

definition setDataRate :: "u32 \<Rightarrow> 'p token_bucket \<Rightarrow> 'p token_bucket" where
  "setDataRate rate s = s\<lparr>dataRate := rate\<rparr>"

definition setRedStart :: "u32 \<Rightarrow> 'p token_bucket \<Rightarrow> 'p token_bucket" where
  "setRedStart st s = s\<lparr>redStart := st\<rparr>"

text \<open>The loop of \<open>trySend\<close>: the packets sent, the tokens and the queue left.\<close>

fun send_loop :: "u32 \<Rightarrow> 'a pkt list \<Rightarrow> 'a pkt list \<times> u32 \<times> 'a pkt list" where
  "send_loop t [] = ([], t, [])"
| "send_loop t (p # ps) =
     (if getPacketLen p \<le> t
      then let (sent, t', q) = send_loop (t - getPacketLen p) ps in (p # sent, t', q)
      else ([], t, p # ps))"

definition trySend :: "'a pkt token_bucket \<Rightarrow> 'a pkt list \<times> 'a pkt token_bucket" where
  "trySend s =
     (let (sent, t, q) = send_loop (tokens s) (tbQueue s) in (sent, s\<lparr>tokens := t, tbQueue := q\<rparr>))"

text \<open>\<open>tokens_ += dataRate_*diff/1000/8\<close>, computed in 64 bits and stored in 32, and the cap.\<close>

definition add_tokens :: "u64 \<Rightarrow> 'p token_bucket \<Rightarrow> u32" where
  "add_tokens diff s =
     (if tokens s < maxTokens s then
        (let t = ucast (ucast (tokens s) + ucast (dataRate s) * diff div 1000 div 8)
         in if maxTokens s < t then maxTokens s else t)
      else tokens s)"

text \<open>\<open>run\<close> reads the clock twice, at \<open>t1\<close> and \<open>t2\<close>, and arms the timer at \<open>t3\<close>.\<close>

definition TokenBucket_run :: "int \<Rightarrow> int \<Rightarrow> int \<Rightarrow> 'a pkt token_bucket \<Rightarrow> 'a pkt list \<times> 'a pkt token_bucket" where
  "TokenBucket_run t1 t2 t3 s =
     (let diff = getTimeStamp t1 - timerStart s;
          s1 = s\<lparr>timerStart := getTimeStamp t2\<rparr>;
          s2 = s1\<lparr>tokens := add_tokens diff s1\<rparr>;
          (sent, s3) = trySend s2
      in (sent, s3\<lparr>tbTimers := tbTimers s3 @ [t3 + 4 * 1000]\<rparr>))"

text \<open>The admission of a packet: the integer quotient is compared with the random float.\<close>

definition tb_admit :: "nat \<Rightarrow> 'p token_bucket \<Rightarrow> bool" where
  "tb_admit rnd s =
     (let size = length (tbQueue s) in
      if size < unat (maxPackets s) then
        (let r = rand_float rnd in
         if size < unat (redStart s) then True
         else f32_int (int ((size - unat (redStart s)) div unat (maxPackets s - redStart s))) < r)
      else False)"

definition TokenBucket_handlePacket :: "nat \<Rightarrow> 'a pkt \<Rightarrow> 'a pkt token_bucket \<Rightarrow> 'a pkt list \<times> 'a pkt token_bucket" where
  "TokenBucket_handlePacket rnd pkt s =
     trySend (if tb_admit rnd s then s\<lparr>tbQueue := tbQueue s @ [pkt]\<rparr> else s)"

section \<open>TokenBucketFilter\<close>

record 'p tbf =
  inTb :: "'p token_bucket"
  outTb :: "'p token_bucket"

definition TokenBucketFilter_new :: "int \<Rightarrow> int \<Rightarrow> 'p tbf" where
  "TokenBucketFilter_new t u = \<lparr>inTb = TokenBucket_new t, outTb = TokenBucket_new u\<rparr>"

definition TokenBucketFilter_init ::
  "int \<times> int \<times> int \<Rightarrow> int \<times> int \<times> int \<Rightarrow> 'a pkt tbf \<Rightarrow> bool \<times> 'a pkt list \<times> 'a pkt tbf" where
  "TokenBucketFilter_init it ot s =
     (let (t1, t2, t3) = it; (u1, u2, u3) = ot;
          (sent1, i) = TokenBucket_run t1 t2 t3 (inTb s);
          (sent2, ot) = TokenBucket_run u1 u2 u3 (outTb s)
      in (True, sent1 @ sent2, s\<lparr>inTb := i, outTb := ot\<rparr>))"

definition TokenBucketFilter_handlePacket :: "nat \<Rightarrow> 'a pkt \<Rightarrow> 'a pkt tbf \<Rightarrow> 'a pkt list \<times> 'a pkt tbf" where
  "TokenBucketFilter_handlePacket rnd pkt s =
     (if isIngoing pkt
      then let (sent, b) = TokenBucket_handlePacket rnd pkt (inTb s) in (sent, s\<lparr>inTb := b\<rparr>)
      else let (sent, b) = TokenBucket_handlePacket rnd pkt (outTb s) in (sent, s\<lparr>outTb := b\<rparr>))"

definition setInMaxTokens :: "u32 \<Rightarrow> 'p tbf \<Rightarrow> 'p tbf" where
  "setInMaxTokens t s = s\<lparr>inTb := setMaxTokens t (inTb s)\<rparr>"
definition setInMaxPackets :: "u32 \<Rightarrow> 'p tbf \<Rightarrow> 'p tbf" where
  "setInMaxPackets p s = s\<lparr>inTb := setMaxPackets p (inTb s)\<rparr>"
definition setInRateLimit :: "u32 \<Rightarrow> 'p tbf \<Rightarrow> 'p tbf" where
  "setInRateLimit r s = s\<lparr>inTb := setDataRate r (inTb s)\<rparr>"
definition setInRedStart :: "u32 \<Rightarrow> 'p tbf \<Rightarrow> 'p tbf" where
  "setInRedStart st s = s\<lparr>inTb := setRedStart st (inTb s)\<rparr>"
definition setOutMaxTokens :: "u32 \<Rightarrow> 'p tbf \<Rightarrow> 'p tbf" where
  "setOutMaxTokens t s = s\<lparr>outTb := setMaxTokens t (outTb s)\<rparr>"
definition setOutMaxPackets :: "u32 \<Rightarrow> 'p tbf \<Rightarrow> 'p tbf" where
  "setOutMaxPackets p s = s\<lparr>outTb := setMaxPackets p (outTb s)\<rparr>"
definition setOutRateLimit :: "u32 \<Rightarrow> 'p tbf \<Rightarrow> 'p tbf" where
  "setOutRateLimit r s = s\<lparr>outTb := setDataRate r (outTb s)\<rparr>"
definition setOutRedStart :: "u32 \<Rightarrow> 'p tbf \<Rightarrow> 'p tbf" where
  "setOutRedStart st s = s\<lparr>outTb := setRedStart st (outTb s)\<rparr>"

section \<open>Steps\<close>

text \<open>A packet arrives, or the timer runs; the clock does not go back between runs.\<close>

inductive tb_step :: "'a pkt token_bucket \<Rightarrow> 'a pkt list \<Rightarrow> 'a pkt list \<Rightarrow> 'a pkt token_bucket \<Rightarrow> bool" where
  handle: "rnd \<le> RAND_MAX \<Longrightarrow> TokenBucket_handlePacket rnd pkt s = (out, s') \<Longrightarrow> tb_step s [pkt] out s'"
| timer: "k < length (tbTimers s) \<Longrightarrow> tbTimers s ! k \<le> t1 \<Longrightarrow>
    timerStart s \<le> getTimeStamp t1 \<Longrightarrow> getTimeStamp t1 \<le> getTimeStamp t2 \<Longrightarrow>
    TokenBucket_run t1 t2 t3 (s\<lparr>tbTimers := drop_nth k (tbTimers s)\<rparr>) = (out, s') \<Longrightarrow> tb_step s [] out s'"

inductive tbf_step :: "'a pkt tbf \<Rightarrow> 'a pkt list \<Rightarrow> 'a pkt list \<Rightarrow> 'a pkt tbf \<Rightarrow> bool" where
  handle: "rnd \<le> RAND_MAX \<Longrightarrow> TokenBucketFilter_handlePacket rnd pkt s = (out, s') \<Longrightarrow> tbf_step s [pkt] out s'"
| in_timer: "tb_step (inTb s) [] out b \<Longrightarrow> tbf_step s [] out (s\<lparr>inTb := b\<rparr>)"
| out_timer: "tb_step (outTb s) [] out b \<Longrightarrow> tbf_step s [] out (s\<lparr>outTb := b\<rparr>)"

section \<open>Sending\<close>

definition bytes :: "'a pkt list \<Rightarrow> nat" where
  "bytes ps = sum_list (map (\<lambda>p. unat (getPacketLen p)) ps)"

lemma bytes_simps [simp]:
  "bytes [] = 0" "bytes (p # ps) = unat (getPacketLen p) + bytes ps" "bytes (ps @ qs) = bytes ps + bytes qs"
  by (simp_all add: bytes_def)

text \<open>The loop sends a prefix, pays for every byte, and stops for want of tokens.\<close>

lemma send_loop_spec:
  "send_loop t q = (sent, t', q') \<Longrightarrow>
     q = sent @ q' \<and> bytes sent + unat t' = unat t \<and> (q' \<noteq> [] \<longrightarrow> t' < getPacketLen (hd q'))"
proof (induction t q arbitrary: sent t' q' rule: send_loop.induct)
  case (2 t p ps)
  show ?case
  proof (cases "getPacketLen p \<le> t")
    case True
    with 2 obtain s2 where "send_loop (t - getPacketLen p) ps = (s2, t', q')" "sent = p # s2"
      by (auto split: prod.splits)
    with "2.IH" [OF True this(1)] True show ?thesis
      by (auto simp: unat_sub word_le_nat_alt)
  next
    case False
    with 2 show ?thesis by auto
  qed
qed simp

lemma trySend_spec:
  "trySend s = (sent, s') \<Longrightarrow> tbQueue s = sent @ tbQueue s' \<and> bytes sent + unat (tokens s') = unat (tokens s)
     \<and> maxTokens s' = maxTokens s \<and> maxPackets s' = maxPackets s \<and> dataRate s' = dataRate s
     \<and> redStart s' = redStart s \<and> timerStart s' = timerStart s \<and> tbTimers s' = tbTimers s
     \<and> (tbQueue s' \<noteq> [] \<longrightarrow> tokens s' < getPacketLen (hd (tbQueue s')))"
  using send_loop_spec [of "tokens s" "tbQueue s"] by (auto simp: trySend_def split: prod.splits)

lemma unat_add_le: "unat (a + b :: 'a::len word) \<le> unat a + unat b"
  by (simp add: unat_word_ariths)

lemma unat_mult_le: "unat (a * b :: 'a::len word) \<le> unat a * unat b"
  by (simp add: unat_word_ariths)

text \<open>The tokens added are at most those the rate gives for the time, rounded down.\<close>

lemma add_tokens_le:
  "unat (add_tokens diff s) \<le> unat (tokens s) + unat (dataRate s) * unat diff div 8000"
proof -
  let ?x = "ucast (dataRate s) * diff :: u64"
  have u: "unat (ucast w :: u64) = unat w" for w :: u32
    using unsigned_less [of w, where ?'a = nat] by (simp add: unsigned_ucast_eq take_bit_eq_mod)
  have "unat ?x \<le> unat (dataRate s) * unat diff"
    using unat_mult_le [of "ucast (dataRate s) :: u64" diff] by (simp add: u)
  then have "unat (?x div 1000 div 8) \<le> unat (dataRate s) * unat diff div 8000"
    by (simp add: unat_div div_mult2_eq [symmetric] div_le_mono)
  moreover have "unat (ucast (ucast (tokens s) + ?x div 1000 div 8 :: u64) :: u32)
      \<le> unat (ucast (tokens s) + ?x div 1000 div 8 :: u64)"
    by (simp add: unsigned_ucast_eq take_bit_eq_mod)
  moreover have "unat (ucast (tokens s) + ?x div 1000 div 8 :: u64) \<le> unat (tokens s) + unat (?x div 1000 div 8)"
    using unat_add_le [of "ucast (tokens s) :: u64" "?x div 1000 div 8"] by (simp add: u)
  ultimately have *: "unat (ucast (ucast (tokens s) + ?x div 1000 div 8 :: u64) :: u32)
      \<le> unat (tokens s) + unat (dataRate s) * unat diff div 8000" by linarith
  show ?thesis
    using * by (auto simp: add_tokens_def Let_def word_less_nat_alt not_less intro: order_trans less_imp_le)
qed

lemma add_tokens_cap: "tokens s \<le> maxTokens s \<Longrightarrow> add_tokens diff s \<le> maxTokens s"
  by (auto simp: add_tokens_def Let_def)

text \<open>Without overflow the tokens are exactly the rate's, rounded down and capped.\<close>

lemma add_tokens_exact:
  assumes "tokens s \<le> maxTokens s"
    and "unat (dataRate s) * unat diff \<le> 8000 * (2 ^ 32 - 1 - unat (maxTokens s))"
  shows "unat (add_tokens diff s) =
    min (unat (maxTokens s)) (unat (tokens s) + unat (dataRate s) * unat diff div 8000)"
proof (cases "tokens s < maxTokens s")
  case True
  let ?n = "unat (dataRate s) * unat diff"
  let ?x = "ucast (dataRate s) * diff :: u64"
  have u: "unat (ucast w :: u64) = unat w" for w :: u32
    using unsigned_less [of w, where ?'a = nat] by (simp add: unsigned_ucast_eq take_bit_eq_mod)
  have m: "unat (maxTokens s) < 2 ^ 32" "unat (tokens s) < unat (maxTokens s)"
    using unsigned_less [of "maxTokens s", where ?'a = nat] True by (simp_all add: word_less_nat_alt)
  have n: "?n div 8000 + unat (maxTokens s) \<le> 2 ^ 32 - 1"
    using assms(2) m(1) div_le_mono [OF assms(2), of 8000] by simp
  have "?n < 2 ^ 64" using assms(2) by simp
  then have "unat ?x = ?n" by (simp add: unat_word_ariths u)
  then have d: "unat (?x div 1000 div 8) = ?n div 8000"
    by (simp add: unat_div div_mult2_eq [symmetric])
  have s: "unat (ucast (tokens s) + ?x div 1000 div 8) = unat (tokens s) + ?n div 8000"
    using n m by (subst unat_word_ariths) (simp add: u d)
  have "unat (ucast (ucast (tokens s) + ?x div 1000 div 8 :: u64) :: u32) = unat (tokens s) + ?n div 8000"
    using n m by (simp add: unsigned_ucast_eq take_bit_eq_mod s)
  then show ?thesis using True
    by (simp add: add_tokens_def Let_def word_less_nat_alt min_def)
next
  case False
  then have "tokens s = maxTokens s" using assms(1) by simp
  then show ?thesis by (simp add: add_tokens_def)
qed

lemma add_tokens_frame [simp]:
  "add_tokens diff (s\<lparr>timerStart := t\<rparr>) = add_tokens diff s"
  "add_tokens diff (s\<lparr>tbTimers := ts\<rparr>) = add_tokens diff s"
  by (simp_all add: add_tokens_def Let_def)

section \<open>What a bucket keeps\<close>

text \<open>The part of the state that only the setters change.\<close>

definition tb_config :: "'p token_bucket \<Rightarrow> u32 \<times> u32 \<times> u32 \<times> u32" where
  "tb_config s = (maxTokens s, maxPackets s, dataRate s, redStart s)"

definition tb_ok :: "'p token_bucket \<Rightarrow> bool" where
  "tb_ok s \<longleftrightarrow> tokens s \<le> maxTokens s \<and> length (tbQueue s) \<le> unat (maxPackets s) \<and> length (tbTimers s) = 1"

text \<open>The budget: bytes sent and tokens left are paid by the tokens there were and the time.\<close>

definition tb_budget :: "'a pkt token_bucket \<Rightarrow> 'a pkt list \<Rightarrow> 'a pkt token_bucket \<Rightarrow> bool" where
  "tb_budget s out s' \<longleftrightarrow> unat (timerStart s) \<le> unat (timerStart s') \<and>
     8000 * (bytes out + unat (tokens s')) + unat (dataRate s) * unat (timerStart s)
       \<le> 8000 * unat (tokens s) + unat (dataRate s) * unat (timerStart s')"

lemma tb_handle_effect:
  assumes "TokenBucket_handlePacket rnd pkt s = (out, s')"
  shows "out @ tbQueue s' = tbQueue s @ (if tb_admit rnd s then [pkt] else [])"
    and "tb_config s' = tb_config s" and "tbTimers s' = tbTimers s" and "timerStart s' = timerStart s"
    and "bytes out + unat (tokens s') = unat (tokens s)"
  using trySend_spec [OF assms [unfolded TokenBucket_handlePacket_def]]
  by (auto simp: tb_config_def split: if_splits)

lemma tb_run_effect:
  assumes "TokenBucket_run t1 t2 t3 s = (out, s')"
  defines "t \<equiv> add_tokens (getTimeStamp t1 - timerStart s) s"
  shows "out @ tbQueue s' = tbQueue s" and "tb_config s' = tb_config s"
    and "tbTimers s' = tbTimers s @ [t3 + 4000]" and "timerStart s' = getTimeStamp t2"
    and "bytes out + unat (tokens s') = unat t"
    and "tbQueue s' = [] \<or> tokens s' < getPacketLen (hd (tbQueue s'))"
proof -
  define s2 where "s2 = s\<lparr>timerStart := getTimeStamp t2, tokens := t\<rparr>"
  obtain s3 where r: "trySend s2 = (out, s3)" "s' = s3\<lparr>tbTimers := tbTimers s3 @ [t3 + 4000]\<rparr>"
    using assms(1) by (auto simp: TokenBucket_run_def s2_def t_def Let_def split: prod.splits)
  note E = trySend_spec [OF r(1)]
  show "out @ tbQueue s' = tbQueue s" "tb_config s' = tb_config s" "tbTimers s' = tbTimers s @ [t3 + 4000]"
    "timerStart s' = getTimeStamp t2" "bytes out + unat (tokens s') = unat t"
    "tbQueue s' = [] \<or> tokens s' < getPacketLen (hd (tbQueue s'))"
    using E by (auto simp: r(2) s2_def tb_config_def)
qed

lemma tb_admit_room: "tb_admit rnd s \<Longrightarrow> length (tbQueue s) < unat (maxPackets s)"
  by (simp add: tb_admit_def Let_def split: if_splits)

lemma tb_step_effect:
  "tb_step s i out s' \<Longrightarrow> tb_ok s \<Longrightarrow>
     tb_ok s' \<and> tb_config s' = tb_config s \<and> tb_budget s out s' \<and> bytes out \<le> unat (maxTokens s)
     \<and> (\<exists>r. subseq r i \<and> out @ tbQueue s' = tbQueue s @ r)"
proof (induction rule: tb_step.induct)
  case (handle rnd pkt s out s')
  note E = tb_handle_effect [OF handle(2)]
  have "length (tbQueue s') \<le> unat (maxPackets s)"
    using arg_cong [OF E(1), of length] handle(3) tb_admit_room [of rnd s]
    by (cases "tb_admit rnd s") (auto simp: tb_ok_def)
  moreover have "unat (tokens s') \<le> unat (maxTokens s)"
    using E(5) handle(3) by (simp add: tb_ok_def word_le_nat_alt)
  moreover have "8000 * (bytes out + unat (tokens s')) = 8000 * unat (tokens s)" by (simp only: E(5))
  moreover have "subseq (if tb_admit rnd s then [pkt] else []) [pkt]" by simp
  ultimately show ?case
    using E handle(3) by (auto simp: tb_ok_def tb_config_def tb_budget_def word_le_nat_alt)
next
  case (timer k s t1 t2 t3 out s')
  define s1 where "s1 = s\<lparr>tbTimers := drop_nth k (tbTimers s)\<rparr>"
  define diff where "diff = getTimeStamp t1 - timerStart s"
  note E = tb_run_effect [OF timer(5), folded s1_def]
  have t: "add_tokens (getTimeStamp t1 - timerStart s1) s1 = add_tokens diff s"
    by (simp add: s1_def diff_def)
  have len: "length (tbTimers s) = 1" using timer(6) by (simp add: tb_ok_def)
  have cap: "add_tokens diff s \<le> maxTokens s"
    using timer(6) by (intro add_tokens_cap) (simp add: tb_ok_def)
  have "unat (tokens s') \<le> unat (maxTokens s)"
    using E(5) cap by (simp add: t word_le_nat_alt)
  moreover have "length (tbQueue s') \<le> length (tbQueue s)"
    using arg_cong [OF E(1), of length] by (simp add: s1_def)
  ultimately have ok: "tb_ok s'"
    using E(2,3) timer(6) drop_nth_one [OF len timer(1)]
    by (simp add: tb_ok_def tb_config_def s1_def word_le_nat_alt)
  have ts: "unat (timerStart s) \<le> unat (getTimeStamp t1)" "unat (getTimeStamp t1) \<le> unat (getTimeStamp t2)"
    using timer(3,4) by (simp_all add: word_le_nat_alt)
  have d: "unat diff = unat (getTimeStamp t1) - unat (timerStart s)"
    using timer(3) by (simp add: diff_def unat_sub)
  have "unat (dataRate s) * unat diff + unat (dataRate s) * unat (timerStart s)
      = unat (dataRate s) * unat (getTimeStamp t1)"
    using ts(1) by (simp add: d flip: distrib_left)
  also have "\<dots> \<le> unat (dataRate s) * unat (getTimeStamp t2)" using ts(2) by simp
  finally have rate: "unat (dataRate s) * unat diff + unat (dataRate s) * unat (timerStart s)
      \<le> unat (dataRate s) * unat (getTimeStamp t2)" .
  have "8000 * (bytes out + unat (tokens s')) \<le> 8000 * unat (tokens s) + unat (dataRate s) * unat diff"
    unfolding E(5) t using add_tokens_le [of diff s] by linarith
  then have "tb_budget s out s'"
    using rate ts E(4) by (simp add: tb_budget_def)
  moreover have "bytes out \<le> unat (maxTokens s)"
    using E(5) cap by (simp add: t word_le_nat_alt)
  ultimately show ?case using ok E(1,2) by (simp add: s1_def tb_config_def)
qed

lemma tb_step_order: "tb_step s i out s' \<Longrightarrow> tb_ok s \<Longrightarrow> subseq (out @ tbQueue s') (tbQueue s @ i)"
  using tb_step_effect [of s i out s'] list_emb_append_mono [OF subseq_order.refl] by fastforce

lemma tb_budget_trans:
  "tb_budget s out1 s1 \<Longrightarrow> tb_budget s1 out2 s2 \<Longrightarrow> dataRate s1 = dataRate s \<Longrightarrow> tb_budget s (out1 @ out2) s2"
  by (simp add: tb_budget_def)

lemma tb_run_ok:
  assumes "stage_run tb_step s0 ins outs s" and "tb_ok s0"
  shows "tb_ok s \<and> tb_config s = tb_config s0 \<and> tb_budget s0 outs s"
  using assms
proof (induction rule: stage_run.induct)
  case empty
  then show ?case by (simp add: tb_budget_def)
next
  case (more ins outs s i out s')
  then have IH: "tb_ok s" "tb_config s = tb_config s0" "tb_budget s0 outs s" by simp_all
  from tb_step_effect [OF more(2) IH(1)] IH show ?case
    by (auto simp: tb_config_def intro: tb_budget_trans)
qed

interpretation token_bucket: fifo_stage "ident_step tb_step" "\<lambda>d s. of_dir d (map ident (tbQueue s))" tb_ok
proof (rule fifo_stageI)
  fix s s' :: "'a pkt token_bucket" and i out
  assume "tb_step s i out s'" and "tb_ok s"
  from tb_step_effect [OF this] tb_step_order [OF this] show "tb_ok s'"
    and "subseq (map ident out @ map ident (tbQueue s')) (map ident (tbQueue s) @ map ident i)"
    by (simp_all add: subseq_map flip: map_append)
qed

end
