(* ===== verification/Token_Bucket_Filter.thy ===== *)
theory Token_Bucket_Filter
  imports Token_Bucket
begin

text \<open>
  What \<open>TokenBucketFilter\<close> promises, per direction: its runs project to runs of the bucket of
  that direction, so the rate, the order and the bounds of a bucket carry over. Then the
  admission rule, and the packets and rates at which a bucket stops for ever.
\<close>

section \<open>Both directions\<close>

definition tb_of :: "bool \<Rightarrow> 'p tbf \<Rightarrow> 'p token_bucket" where
  "tb_of d s = (if d then inTb s else outTb s)"

lemma tb_of_simps [simp]: "tb_of True s = inTb s" "tb_of False s = outTb s"
  by (simp_all add: tb_of_def)

definition tbf_ok :: "'a pkt tbf \<Rightarrow> bool" where
  "tbf_ok s \<longleftrightarrow> (\<forall>d. tb_ok (tb_of d s) \<and> (\<forall>p \<in> set (tbQueue (tb_of d s)). isIngoing p = d))"

abbreviation only :: "bool \<Rightarrow> 'a pkt list \<Rightarrow> 'a pkt list" where
  "only d ps \<equiv> filter (\<lambda>p. isIngoing p = d) ps"

lemma subseq_set: "subseq xs ys \<Longrightarrow> set xs \<subseteq> set ys"
  by (auto dest: list_emb_set)

lemma tb_step_dir:
  assumes "tb_step s i out s'" and "tb_ok s" and "\<forall>p \<in> set (tbQueue s). isIngoing p = d"
    and "\<forall>p \<in> set i. isIngoing p = d"
  shows "only d i = i" and "only (\<not> d) i = []" and "only d out = out" and "only (\<not> d) out = []"
    and "\<forall>p \<in> set (tbQueue s'). isIngoing p = d"
proof -
  have "set (out @ tbQueue s') \<subseteq> set (tbQueue s @ i)"
    by (rule subseq_set [OF tb_step_order [OF assms(1,2)]])
  then have "\<forall>p \<in> set out \<union> set (tbQueue s'). isIngoing p = d" using assms(3,4) by auto
  with assms(4) show "only d i = i" "only (\<not> d) i = []" "only d out = out" "only (\<not> d) out = []"
    "\<forall>p \<in> set (tbQueue s'). isIngoing p = d"
    by (auto simp: filter_id_conv filter_empty_conv)
qed

text \<open>Every step of the filter is a step of one of its buckets.\<close>

lemma tbf_step_bucket:
  assumes "tbf_step s i out s'"
  obtains d b where "tb_step (tb_of d s) i out b" and "\<forall>p \<in> set i. isIngoing p = d"
    and "tb_of d s' = b" and "tb_of (\<not> d) s' = tb_of (\<not> d) s"
  using assms
proof (cases rule: tbf_step.cases)
  case (handle rnd pkt)
  show ?thesis
  proof (cases "isIngoing pkt")
    case True
    with handle obtain b where b: "TokenBucket_handlePacket rnd pkt (inTb s) = (out, b)" "s' = s\<lparr>inTb := b\<rparr>"
      by (auto simp: TokenBucketFilter_handlePacket_def split: prod.splits)
    from tb_step.handle [OF handle(2) b(1)] show ?thesis
      using that [of True b] b(2) True handle(1) by simp
  next
    case False
    with handle obtain b where b: "TokenBucket_handlePacket rnd pkt (outTb s) = (out, b)" "s' = s\<lparr>outTb := b\<rparr>"
      by (auto simp: TokenBucketFilter_handlePacket_def split: prod.splits)
    from tb_step.handle [OF handle(2) b(1)] show ?thesis
      using that [of False b] b(2) False handle(1) by simp
  qed
next
  case (in_timer b)
  then show ?thesis using that [of True b] by simp
next
  case (out_timer b)
  then show ?thesis using that [of False b] by simp
qed

lemma tbf_step_projects:
  assumes "tbf_step s i out s'" and "tbf_ok s"
  shows "tbf_ok s' \<and> stage_run tb_step (tb_of d s) (only d i) (only d out) (tb_of d s')"
proof -
  obtain e b where st: "tb_step (tb_of e s) i out b" "\<forall>p \<in> set i. isIngoing p = e"
    "tb_of e s' = b" "tb_of (\<not> e) s' = tb_of (\<not> e) s"
    using tbf_step_bucket [OF assms(1)] .
  have ok: "tb_ok (tb_of e s)" "\<forall>p \<in> set (tbQueue (tb_of e s)). isIngoing p = e"
    using assms(2) by (simp_all add: tbf_ok_def)
  note D = tb_step_dir [OF st(1) ok st(2)]
  have "tb_ok b" using tb_step_effect [OF st(1) ok(1)] by simp
  then have "tbf_ok s'"
    unfolding tbf_ok_def
  proof (intro allI)
    fix c assume b: "tb_ok b"
    show "tb_ok (tb_of c s') \<and> (\<forall>p \<in> set (tbQueue (tb_of c s')). isIngoing p = c)"
    proof (cases "c = e")
      case True
      then show ?thesis using b D(5) st(3) by simp
    next
      case False
      then have "c = (\<not> e)" by simp
      then show ?thesis using assms(2) st(4) by (simp add: tbf_ok_def)
    qed
  qed
  moreover have "stage_run tb_step (tb_of d s) (only d i) (only d out) (tb_of d s')"
  proof (cases "d = e")
    case True
    then show ?thesis using stage_run_one [where step = tb_step, OF st(1)] D(1,3) st(3) by simp
  next
    case False
    then have "d = (\<not> e)" by simp
    then show ?thesis using D(2,4) st(4) by (simp add: stage_run.empty)
  qed
  ultimately show ?thesis ..
qed

lemma stage_run_append:
  assumes "stage_run step s0 ins outs s" and "stage_run step s i out s'"
  shows "stage_run step s0 (ins @ i) (outs @ out) s'"
  using assms(2)
proof (induction rule: stage_run.induct)
  case (more j out2 s1 i2 out3 s2)
  from stage_run.more [OF more.IH more(2)] show ?case by simp
qed (simp add: assms(1))

lemma tbf_run_projects:
  assumes "stage_run tbf_step s0 ins outs s" and "tbf_ok s0"
  shows "tbf_ok s \<and> stage_run tb_step (tb_of d s0) (only d ins) (only d outs) (tb_of d s)"
  using assms
proof (induction rule: stage_run.induct)
  case (more ins outs s i out s')
  then have IH: "tbf_ok s" "stage_run tb_step (tb_of d s0) (only d ins) (only d outs) (tb_of d s)" by simp_all
  from tbf_step_projects [OF more(2) IH(1), of d] stage_run_append [where step = tb_step, OF IH(2)]
  show ?case by simp
qed (simp add: stage_run.empty)

interpretation tbf: fifo_stage "ident_step tbf_step" "\<lambda>d s. map ident (tbQueue (tb_of d s))" tbf_ok
proof unfold_locales
  fix s s' :: "'a pkt tbf" and i out d
  assume st: "ident_step tbf_step s i out s'" and ok: "tbf_ok s"
  then obtain ps qs where p: "tbf_step s ps qs s'" "i = map ident ps" "out = map ident qs"
    by (auto simp: ident_step_def)
  have b: "tb_ok (tb_of d s)" "\<forall>p \<in> set (tbQueue (tb_of d s)). isIngoing p = d"
    using ok by (simp_all add: tbf_ok_def)
  note P = tbf_step_projects [OF p(1) ok, of d]
  from P show "tbf_ok s'" by simp
  then have "\<forall>p \<in> set (tbQueue (tb_of d s')). isIngoing p = d" by (simp add: tbf_ok_def)
  then have q: "of_dir d (map ident (tbQueue (tb_of d s'))) = map ident (tbQueue (tb_of d s'))"
    "of_dir d (map ident (tbQueue (tb_of d s))) = map ident (tbQueue (tb_of d s))"
    "of_dir d (map ident (only d ps)) = of_dir d i" "of_dir d (map ident (only d qs)) = of_dir d out"
    using b(2) by (simp_all add: of_dir_ident p filter_id_conv)
  have "stage_run (ident_step tb_step) (tb_of d s) (map ident (only d ps)) (map ident (only d qs)) (tb_of d s')"
    by (rule stage_run_ident [OF conjunct2 [OF P]])
  from token_bucket.run_order [OF this b(1), of d]
  show "subseq (of_dir d out @ map ident (tbQueue (tb_of d s'))) (map ident (tbQueue (tb_of d s)) @ of_dir d i)"
    by (simp only: q)
qed

section \<open>The rate\<close>

text \<open>A filter as constructed, whatever its setters were called with.\<close>

definition tbf_fresh :: "'p tbf \<Rightarrow> bool" where
  "tbf_fresh s \<longleftrightarrow> (\<forall>d. tbQueue (tb_of d s) = [] \<and> tokens (tb_of d s) = 0 \<and> tbTimers (tb_of d s) = [])"

lemma tbf_fresh_new: "tbf_fresh (TokenBucketFilter_new t u)"
  by (simp add: tbf_fresh_def tb_of_def TokenBucketFilter_new_def TokenBucket_new_def)

lemma tbf_fresh_setters:
  assumes "tbf_fresh s"
  shows "tbf_fresh (setInMaxTokens x s)" "tbf_fresh (setInMaxPackets x s)" "tbf_fresh (setInRateLimit x s)"
    "tbf_fresh (setInRedStart x s)" "tbf_fresh (setOutMaxTokens x s)" "tbf_fresh (setOutMaxPackets x s)"
    "tbf_fresh (setOutRateLimit x s)" "tbf_fresh (setOutRedStart x s)"
  using assms
  by (simp_all add: tbf_fresh_def all_bool_eq setInMaxTokens_def setInMaxPackets_def setInRateLimit_def
      setInRedStart_def setOutMaxTokens_def setOutMaxPackets_def setOutRateLimit_def setOutRedStart_def
      setMaxTokens_def setMaxPackets_def setDataRate_def setRedStart_def)

lemma tbf_init_ok:
  assumes "tbf_fresh cfg" and "TokenBucketFilter_init it ot cfg = (b, sent, s0)"
  shows "b" and "sent = []" and "tbf_ok s0" and "tb_config (tb_of d s0) = tb_config (tb_of d cfg)"
    and "tbQueue (tb_of d s0) = []"
proof -
  obtain t1 t2 t3 u1 u2 u3 where t: "it = (t1, t2, t3)" "ot = (u1, u2, u3)" by (cases it; cases ot)
  obtain sent1 b1 sent2 b2 where r: "TokenBucket_run t1 t2 t3 (inTb cfg) = (sent1, b1)"
    "TokenBucket_run u1 u2 u3 (outTb cfg) = (sent2, b2)"
    by (cases "TokenBucket_run t1 t2 t3 (inTb cfg)"; cases "TokenBucket_run u1 u2 u3 (outTb cfg)")
  have s: "b" "sent = sent1 @ sent2" "s0 = cfg\<lparr>inTb := b1, outTb := b2\<rparr>"
    using assms(2) by (simp_all add: TokenBucketFilter_init_def t r)
  have q: "tbQueue (inTb cfg) = []" "tbQueue (outTb cfg) = []" "tokens (inTb cfg) = 0" "tokens (outTb cfg) = 0"
    "tbTimers (inTb cfg) = []" "tbTimers (outTb cfg) = []"
    using assms(1) unfolding tbf_fresh_def by (metis tb_of_simps)+
  note E1 = tb_run_effect [OF r(1)] and E2 = tb_run_effect [OF r(2)]
  show "b" by (rule s(1))
  show "sent = []" using E1(1) E2(1) q by (simp add: s)
  have ok: "tb_ok c'" if "TokenBucket_run v1 v2 v3 c = (o', c')" "tbQueue c = []" "tokens c = 0" "tbTimers c = []"
    for v1 v2 v3 o' and c c' :: "'a pkt token_bucket"
  proof -
    note E = tb_run_effect [OF that(1)]
    have "unat (tokens c') \<le> unat (maxTokens c)"
      using E(5) add_tokens_cap [of c "getTimeStamp v1 - timerStart c"] that(3) by (simp add: word_le_nat_alt)
    then show ?thesis using E(1-3) that by (simp add: tb_ok_def tb_config_def word_le_nat_alt)
  qed
  show "tbf_ok s0"
    using ok [OF r(1)] ok [OF r(2)] q E1(1) E2(1) by (simp add: tbf_ok_def tb_of_def s)
  show "tb_config (tb_of d s0) = tb_config (tb_of d cfg)" "tbQueue (tb_of d s0) = []"
    using E1(1,2) E2(1,2) q by (simp_all add: tb_of_def s)
qed

text \<open>
  C9. The token bucket filter keeps its rate, in each direction and in every period of its
  operation: from any moment to any later one, the bytes it passes in a direction are at most
  the bucket's size plus what the configured rate (kbit/s, so \<open>rate / 8000\<close> bytes a
  microsecond) gives for the time between the last timer runs before the two moments. This
  holds with the 32 and 64 bit arithmetic of the code and whatever the timing of packets and
  timers, as long as the clock is not set back.
\<close>

theorem tbf_conforms:
  assumes "tbf_fresh cfg" and "TokenBucketFilter_init it ot cfg = (b, sent, s0)"
    and "stage_run tbf_step s0 ins0 outs0 s1" and "stage_run tbf_step s1 ins outs s2"
  shows "8000 * bytes (only d outs) \<le> 8000 * unat (maxTokens (tb_of d cfg))
    + unat (dataRate (tb_of d cfg)) * (unat (timerStart (tb_of d s2)) - unat (timerStart (tb_of d s1)))"
proof -
  note I = tbf_init_ok [OF assms(1,2)]
  note R1 = tbf_run_projects [OF assms(3) I(3), of d]
  from R1 have ok1: "tbf_ok s1" and r1: "stage_run tb_step (tb_of d s0) (only d ins0) (only d outs0) (tb_of d s1)"
    by simp_all
  have r2: "stage_run tb_step (tb_of d s1) (only d ins) (only d outs) (tb_of d s2)"
    using tbf_run_projects [OF assms(4) ok1, of d] by simp
  have t0: "tb_ok (tb_of d s0)" using I(3) by (simp add: tbf_ok_def)
  note P1 = tb_run_ok [OF r1 t0]
  then have t1: "tb_ok (tb_of d s1)" by simp
  note P2 = tb_run_ok [OF r2 t1]
  have c: "dataRate (tb_of d s1) = dataRate (tb_of d cfg)" "maxTokens (tb_of d s1) = maxTokens (tb_of d cfg)"
    using P1 I(4) by (simp_all add: tb_config_def)
  have "unat (tokens (tb_of d s1)) \<le> unat (maxTokens (tb_of d cfg))"
    using t1 c by (simp add: tb_ok_def word_le_nat_alt)
  moreover from P2 c have "8000 * bytes (only d outs) + 8000 * unat (tokens (tb_of d s2))
      + unat (dataRate (tb_of d cfg)) * unat (timerStart (tb_of d s1))
      \<le> 8000 * unat (tokens (tb_of d s1)) + unat (dataRate (tb_of d cfg)) * unat (timerStart (tb_of d s2))"
    by (simp add: tb_budget_def)
  ultimately show ?thesis by (simp only: right_diff_distrib')
qed

text \<open>
  The token bucket filter, with any timing of its packets and timers: in each direction the
  packets it passes are packets that arrived, in the order of their arrival and each at most
  once; those that wait follow them, and there are never more waiting than the configured
  number.
\<close>

lemma tbf_order:
  assumes "tbf_fresh cfg" and "TokenBucketFilter_init it ot cfg = (b, sent, s0)"
    and "stage_run tbf_step s0 ins outs s"
  shows "subseq (of_dir d (map ident outs) @ map ident (tbQueue (tb_of d s))) (of_dir d (map ident ins))
    \<and> length (tbQueue (tb_of d s)) \<le> unat (maxPackets (tb_of d cfg))"
proof
  note I = tbf_init_ok [OF assms(1,2)]
  from tbf.run_order [OF stage_run_ident [OF assms(3)] I(3), of d] I(5) [of d]
  show "subseq (of_dir d (map ident outs) @ map ident (tbQueue (tb_of d s))) (of_dir d (map ident ins))" by simp
  note R = tbf_run_projects [OF assms(3) I(3), of d]
  from tb_run_ok [OF conjunct2 [OF R]] I(3,4) have "tb_config (tb_of d s) = tb_config (tb_of d cfg)"
    "tb_ok (tb_of d s)" by (simp_all add: tbf_ok_def)
  then show "length (tbQueue (tb_of d s)) \<le> unat (maxPackets (tb_of d cfg))"
    by (simp add: tb_ok_def tb_config_def)
qed

section \<open>Admission\<close>

lemma tb_handle_admit:
  "TokenBucket_handlePacket rnd pkt s =
     trySend (if length (tbQueue s) < unat (maxPackets s) \<and> \<not> (unat (redStart s) \<le> length (tbQueue s) \<and> rnd = 0)
              then s\<lparr>tbQueue := tbQueue s @ [pkt]\<rparr> else s)"
proof -
  let ?n = "length (tbQueue s)"
  have "(?n - unat (redStart s)) div unat (maxPackets s - redStart s) = 0"
    if "?n < unat (maxPackets s)" "\<not> ?n < unat (redStart s)"
  proof -
    from that have "unat (maxPackets s - redStart s) = unat (maxPackets s) - unat (redStart s)"
      by (simp add: unat_sub word_le_nat_alt)
    then show ?thesis using that by simp
  qed
  then have "tb_admit rnd s \<longleftrightarrow> ?n < unat (maxPackets s) \<and> \<not> (unat (redStart s) \<le> ?n \<and> rnd = 0)"
    using rand_float_pos [of rnd] by (cases "rnd = 0") (auto simp: tb_admit_def Let_def f32_int_def)
  then show ?thesis by (simp add: TokenBucket_handlePacket_def)
qed

text \<open>
  C31. A bucket takes an arriving packet exactly if its queue is not full and either the RED
  region is not reached or \<open>rand()\<close> does not return 0: the RED quotient is an integer division
  with value 0, so that random early dropping hits only this one value of \<open>RAND_MAX + 1\<close>. In
  any case it then sends what its tokens allow.
\<close>

theorem tb_admission:
  "TokenBucket_handlePacket rnd pkt s =
     trySend (if length (tbQueue s) < unat (maxPackets s) \<and> \<not> (unat (redStart s) \<le> length (tbQueue s) \<and> rnd = 0)
              then s\<lparr>tbQueue := tbQueue s @ [pkt]\<rparr> else s)"
  by (rule tb_handle_admit)

section \<open>Progress\<close>

text \<open>
  A bucket whose timer runs is credited exactly: in every reachable state one timer is
  armed, and when its handler runs, the bytes sent and the tokens left together are the
  tokens before plus rate times elapsed time, rounded down to bytes and capped by the
  bucket's size (for times in which the credit fits in 32 bits). In particular nothing is
  credited, and the fraction is lost, when rate times elapsed microseconds stays below 8000.
\<close>

lemma tb_credit:
  assumes "tbf_fresh cfg" and "TokenBucketFilter_init it ot cfg = (b, sent, s0)"
    and "stage_run tbf_step s0 ins outs s"
    and "timerStart (tb_of d s) \<le> getTimeStamp t1"
    and "unat (dataRate (tb_of d s)) * (unat (getTimeStamp t1) - unat (timerStart (tb_of d s)))
      \<le> 8000 * (2 ^ 32 - 1 - unat (maxTokens (tb_of d s)))"
    and "TokenBucket_run t1 t2 t3 (tb_of d s) = (out, bk)"
  shows "bytes out + unat (tokens bk) =
      min (unat (maxTokens (tb_of d cfg)))
        (unat (tokens (tb_of d s)) + unat (dataRate (tb_of d cfg))
          * (unat (getTimeStamp t1) - unat (timerStart (tb_of d s))) div 8000)
    \<and> length (tbTimers (tb_of d s)) = 1"
proof -
  note I = tbf_init_ok [OF assms(1,2)]
  note R = tbf_run_projects [OF assms(3) I(3), of d]
  from tb_run_ok [OF conjunct2 [OF R]] I(3,4) have ok: "tb_ok (tb_of d s)"
    and c: "dataRate (tb_of d s) = dataRate (tb_of d cfg)" "maxTokens (tb_of d s) = maxTokens (tb_of d cfg)"
    by (simp_all add: tbf_ok_def tb_config_def)
  let ?diff = "getTimeStamp t1 - timerStart (tb_of d s)"
  have "unat ?diff = unat (getTimeStamp t1) - unat (timerStart (tb_of d s))"
    using assms(4) by (simp add: unat_sub)
  with add_tokens_exact [of "tb_of d s" ?diff] tb_run_effect(5) [OF assms(6)] ok assms(5)
  show ?thesis by (simp add: tb_ok_def c)
qed

text \<open>
  C32. A packet at the head of a queue that fits in the bucket is sent by the first run of the
  timer that comes late enough for the rate: in every reachable state, if rate times elapsed
  time covers the packet, the run passes it on, before anything else.
\<close>

theorem tb_timer_sends:
  assumes "tbf_fresh cfg" and "TokenBucketFilter_init it ot cfg = (b, sent, s0)"
    and "stage_run tbf_step s0 ins outs s"
    and "tbQueue (tb_of d s) = p # ps" and "getPacketLen p \<le> maxTokens (tb_of d cfg)"
    and "timerStart (tb_of d s) \<le> getTimeStamp t1"
    and "8000 * unat (getPacketLen p) \<le> unat (dataRate (tb_of d cfg)) * (unat (getTimeStamp t1) - unat (timerStart (tb_of d s)))"
    and "unat (dataRate (tb_of d cfg)) * (unat (getTimeStamp t1) - unat (timerStart (tb_of d s)))
      \<le> 8000 * (2 ^ 32 - 1 - unat (maxTokens (tb_of d cfg)))"
  shows "\<exists>rest bk. TokenBucket_run t1 t2 t3 (tb_of d s) = (p # rest, bk)"
proof -
  obtain out bk where r: "TokenBucket_run t1 t2 t3 (tb_of d s) = (out, bk)"
    by (cases "TokenBucket_run t1 t2 t3 (tb_of d s)")
  note I = tbf_init_ok [OF assms(1,2)]
  note R = tbf_run_projects [OF assms(3) I(3), of d]
  from tb_run_ok [OF conjunct2 [OF R]] I(3,4) have ok: "tb_ok (tb_of d s)"
    and c: "dataRate (tb_of d s) = dataRate (tb_of d cfg)" "maxTokens (tb_of d s) = maxTokens (tb_of d cfg)"
    by (simp_all add: tbf_ok_def tb_config_def)
  let ?diff = "getTimeStamp t1 - timerStart (tb_of d s)"
  let ?n = "unat (dataRate (tb_of d cfg)) * (unat (getTimeStamp t1) - unat (timerStart (tb_of d s)))"
  have "unat ?diff = unat (getTimeStamp t1) - unat (timerStart (tb_of d s))"
    using assms(6) by (simp add: unat_sub)
  with add_tokens_exact [of "tb_of d s" ?diff] ok assms(8)
  have "unat (add_tokens ?diff (tb_of d s)) = min (unat (maxTokens (tb_of d cfg))) (unat (tokens (tb_of d s)) + ?n div 8000)"
    by (simp add: tb_ok_def c)
  moreover have "unat (getPacketLen p) \<le> ?n div 8000" using div_le_mono [OF assms(7), of 8000] by simp
  ultimately have fits: "unat (getPacketLen p) \<le> unat (add_tokens ?diff (tb_of d s))"
    using assms(5) by (simp add: word_le_nat_alt)
  note E = tb_run_effect [OF r]
  show ?thesis
  proof (cases out)
    case Nil
    then show ?thesis using E(1,5,6) fits assms(4) by (simp add: word_less_nat_alt)
  next
    case (Cons q qs)
    then show ?thesis using E(1) assms(4) r by simp
  qed
qed

text \<open>A packet longer than the bucket.\<close>

lemma tb_step_blocked:
  assumes "tb_step s i out s'" and "tb_ok s" and "tbQueue s = p # ps" and "maxTokens s < getPacketLen p"
  shows "out = []" and "\<exists>qs. tbQueue s' = p # ps @ qs"
proof -
  from tb_step_effect [OF assms(1,2)] obtain r where r: "out @ tbQueue s' = (p # ps) @ r"
    and b: "bytes out \<le> unat (maxTokens s)" using assms(3) by auto
  show "out = []"
  proof (cases out)
    case (Cons q qs)
    then show ?thesis using r b assms(4) by (simp add: word_less_nat_alt)
  qed simp
  then show "\<exists>qs. tbQueue s' = p # ps @ qs" using r by simp
qed

lemma tb_run_blocked:
  assumes "stage_run tb_step s ins outs s'" and "tb_ok s" and "tbQueue s = p # ps" and "maxTokens s < getPacketLen p"
  shows "outs = [] \<and> (\<exists>qs. tbQueue s' = p # ps @ qs)"
  using assms
proof (induction rule: stage_run.induct)
  case (more ins outs s1 i out s2)
  then obtain qs where IH: "outs = []" "tbQueue s1 = p # (ps @ qs)" by auto
  from tb_run_ok [OF more(1,4)] more(6) have "tb_ok s1" "maxTokens s1 < getPacketLen p"
    by (simp_all add: tb_config_def)
  from tb_step_blocked [OF more(2) this(1) IH(2) this(2)] IH(1) show ?case by auto
qed simp

text \<open>
  C33. A packet longer than the bucket's size that gets to the head of its queue stays there:
  from then on the filter passes nothing in that direction, whatever arrives and however
  long it runs. (Nothing refuses such a packet at its arrival.)
\<close>

theorem tb_oversized_blocks:
  assumes "tbf_fresh cfg" and "TokenBucketFilter_init it ot cfg = (b, sent, s0)"
    and "stage_run tbf_step s0 ins0 outs0 s1"
    and "tbQueue (tb_of d s1) = p # ps" and "maxTokens (tb_of d cfg) < getPacketLen p"
    and "stage_run tbf_step s1 ins outs s2"
  shows "only d outs = [] \<and> (\<exists>qs. tbQueue (tb_of d s2) = p # ps @ qs)"
proof -
  note I = tbf_init_ok [OF assms(1,2)]
  note R = tbf_run_projects [OF assms(3) I(3), of d]
  from tb_run_ok [OF conjunct2 [OF R]] I(3,4) have ok: "tb_ok (tb_of d s1)"
    and c: "maxTokens (tb_of d s1) = maxTokens (tb_of d cfg)"
    by (simp_all add: tbf_ok_def tb_config_def)
  from tbf_run_projects [OF assms(6) conjunct1 [OF R], of d]
  show ?thesis using tb_run_blocked [OF _ ok assms(4)] assms(5) c by auto
qed

section \<open>A run\<close>

text \<open>
  With the default settings: a packet of 100 bytes arrives at a bucket without tokens and the
  first timer sends it. With a bucket of 50 bytes it stays.
\<close>

definition example_bucket :: "u32 \<Rightarrow> parent_packet list \<Rightarrow> u32 \<Rightarrow> u64 \<Rightarrow> int \<Rightarrow> parent_packet token_bucket" where
  "example_bucket m q t start timer =
     \<lparr>tbQueue = q, tokens = t, maxTokens = m, maxPackets = 30, dataRate = 20480, redStart = 30,
      timerStart = start, tbTimers = [timer]\<rparr>"

definition example_tbf :: "u32 \<Rightarrow> parent_packet token_bucket \<Rightarrow> parent_packet tbf" where
  "example_tbf m b = \<lparr>inTb = example_bucket 8000 [] 0 0 4000, outTb = b\<rparr>"

lemma example_tbf_run:
  fixes m :: u32 and p :: parent_packet
  defines "cfg \<equiv> setOutMaxTokens m (TokenBucketFilter_new 0 0)" and "p \<equiv> example_parent 1 0"
  shows "tbf_fresh cfg" and "maxTokens (outTb cfg) = m" and "dataRate (outTb cfg) = 20480"
    and "TokenBucketFilter_init (0, 0, 0) (0, 0, 0) cfg = (True, [], example_tbf m (example_bucket m [] 0 0 4000))"
    and "stage_run tbf_step (example_tbf m (example_bucket m [] 0 0 4000)) [p] []
      (example_tbf m (example_bucket m [p] 0 0 4000))"
proof -
  note defs = TokenBucketFilter_new_def TokenBucket_new_def setOutMaxTokens_def setMaxTokens_def
    TokenBucketFilter_init_def TokenBucket_run_def trySend_def add_tokens_def getTimeStamp_def
    example_bucket_def example_tbf_def p_def cfg_def example_parent_def getPacketLen_def Let_def
  show "tbf_fresh cfg" unfolding cfg_def by (intro tbf_fresh_setters tbf_fresh_new)
  show "maxTokens (outTb cfg) = m" "dataRate (outTb cfg) = 20480" by (simp_all add: defs)
  show "TokenBucketFilter_init (0, 0, 0) (0, 0, 0) cfg = (True, [], example_tbf m (example_bucket m [] 0 0 4000))"
    by (simp add: defs)
  have "TokenBucketFilter_handlePacket 0 p (example_tbf m (example_bucket m [] 0 0 4000)) =
      ([], example_tbf m (example_bucket m [p] 0 0 4000))"
    by (simp add: TokenBucketFilter_handlePacket_def tb_handle_admit defs)
  from stage_run_one [where step = tbf_step, OF tbf_step.handle [OF _ this]]
  show "stage_run tbf_step (example_tbf m (example_bucket m [] 0 0 4000)) [p] []
      (example_tbf m (example_bucket m [p] 0 0 4000))" by simp
qed

lemma example_tbf_timer:
  fixes p :: parent_packet
  defines "p \<equiv> example_parent 1 0"
  shows "tbf_step (example_tbf 8000 (example_bucket 8000 [p] 0 0 4000)) [] [p]
    (example_tbf 8000 (example_bucket 8000 [] 7900 4000 8000))"
proof -
  let ?b = "example_bucket 8000 [p] 0 0 4000" and ?c = "example_bucket 8000 [] 7900 4000 8000"
  have "TokenBucket_run 4000 4000 4000 (?b\<lparr>tbTimers := drop_nth 0 (tbTimers ?b)\<rparr>) = ([p], ?c)"
    by (simp add: example_bucket_def drop_nth_def TokenBucket_run_def trySend_def add_tokens_def
        getTimeStamp_def p_def example_parent_def getPacketLen_def Let_def)
  then have "tb_step ?b [] [p] ?c"
    by (rule tb_step.timer [rotated 4]) (simp_all add: example_bucket_def getTimeStamp_def)
  from tbf_step.out_timer [of "example_tbf 8000 ?b" "[p]" ?c]
  show ?thesis using \<open>tb_step ?b [] [p] ?c\<close> by (simp add: example_tbf_def)
qed

lemma tbf_conforms_witness:
  "\<exists>s1 s2. stage_run tbf_step s1 [] [example_parent 1 0] s2
     \<and> 8000 * bytes (only False [example_parent 1 0]) \<le> 8000 * 8000
       + 20480 * (unat (timerStart (tb_of False s2)) - unat (timerStart (tb_of False s1)))"
proof -
  note R = example_tbf_run [of 8000]
  have r: "stage_run tbf_step (example_tbf 8000 (example_bucket 8000 [example_parent 1 0] 0 0 4000)) []
      [example_parent 1 0] (example_tbf 8000 (example_bucket 8000 [] 7900 4000 8000))"
    by (rule stage_run_one [where step = tbf_step, OF example_tbf_timer])
  from tbf_conforms [OF R(1,4,5) r, of False] r R(2,3) show ?thesis by (intro exI conjI) simp_all
qed

lemma tbf_order_witness:
  "\<exists>s. stage_run tbf_step (example_tbf 8000 (example_bucket 8000 [] 0 0 4000)) [example_parent 1 0] [] s
     \<and> length (tbQueue (tb_of False s)) \<le> 30"
proof -
  note R = example_tbf_run [of 8000]
  let ?s = "example_tbf 8000 (example_bucket 8000 [example_parent 1 0] 0 0 4000)"
  have "maxPackets (tb_of False (setOutMaxTokens 8000 (TokenBucketFilter_new 0 0 :: parent_packet tbf))) = 30"
    by (simp add: setOutMaxTokens_def setMaxTokens_def TokenBucketFilter_new_def TokenBucket_new_def)
  then have "length (tbQueue (tb_of False ?s)) \<le> 30"
    using conjunct2 [OF tbf_order [OF R(1,4,5), of False]] by (simp del: tb_of_simps)
  with R(5) show ?thesis by blast
qed

lemma tb_credit_witness:
  "\<exists>out bk. TokenBucket_run 4000 4000 4000 (example_bucket 8000 [example_parent 1 0] 0 0 4000) = (out, bk)
     \<and> bytes out + unat (tokens bk) = 8000"
proof -
  note R = example_tbf_run [of 8000]
  let ?s = "example_tbf 8000 (example_bucket 8000 [example_parent 1 0] 0 0 4000)"
  obtain out bk where r: "TokenBucket_run 4000 4000 4000 (tb_of False ?s) = (out, bk)"
    by (cases "TokenBucket_run 4000 4000 4000 (tb_of False ?s)")
  have e: "timerStart (tb_of False ?s) = 0" "dataRate (tb_of False ?s) = 20480" "maxTokens (tb_of False ?s) = 8000"
    "tokens (tb_of False ?s) = 0" by (simp_all add: example_tbf_def example_bucket_def)
  from tb_credit [OF R(1,4,5) _ _ r] R(2,3) e have "bytes out + unat (tokens bk) = 8000"
    by (simp add: getTimeStamp_def)
  with r show ?thesis by (simp add: example_tbf_def)
qed

lemma tb_timer_sends_witness:
  "\<exists>rest bk. TokenBucket_run 4000 4000 4000 (example_bucket 8000 [example_parent 1 0] 0 0 4000)
     = (example_parent 1 0 # rest, bk)"
proof -
  note R = example_tbf_run [of 8000]
  let ?s = "example_tbf 8000 (example_bucket 8000 [example_parent 1 0] 0 0 4000)"
  have e: "tbQueue (tb_of False ?s) = [example_parent 1 0]" "timerStart (tb_of False ?s) = 0"
    "tb_of False ?s = example_bucket 8000 [example_parent 1 0] 0 0 4000"
    by (simp_all add: example_tbf_def example_bucket_def)
  have "getPacketLen (example_parent 1 0) = 100" by (simp add: example_parent_def getPacketLen_def)
  with tb_timer_sends [OF R(1,4,5) e(1), of 4000 4000 4000] R(2,3) e(2,3) show ?thesis
    by (simp add: getTimeStamp_def)
qed

lemma tb_oversized_blocks_witness:
  "\<exists>s qs. stage_run tbf_step (example_tbf 50 (example_bucket 50 [example_parent 1 0] 0 0 4000)) [example_parent 1 0] [] s
     \<and> tbQueue (tb_of False s) = example_parent 1 0 # qs"
proof -
  note R = example_tbf_run [of 50]
  let ?p = "example_parent 1 0" and ?b = "\<lambda>q. example_tbf 50 (example_bucket 50 q 0 0 4000)"
  have "TokenBucketFilter_handlePacket 0 ?p (?b [?p]) = ([], ?b [?p, ?p])"
    by (simp add: TokenBucketFilter_handlePacket_def tb_handle_admit trySend_def example_tbf_def
        example_bucket_def example_parent_def getPacketLen_def)
  from stage_run_one [where step = tbf_step, OF tbf_step.handle [OF _ this]]
  have r: "stage_run tbf_step (?b [?p]) [?p] [] (?b [?p, ?p])" by simp
  have "tbQueue (tb_of False (?b [?p])) = [?p]" "getPacketLen ?p = 100"
    by (simp_all add: example_tbf_def example_bucket_def example_parent_def getPacketLen_def)
  from tb_oversized_blocks [OF R(1,4,5) this(1) _ r] this(2) R(2) r show ?thesis by auto
qed

end
