(* ===== verification/Router.thy ===== *)
theory Router
  imports Nat_Handler Dynamic_Delay Dynamic_Loss Burst_Filter Token_Bucket_Filter Outputs
begin

text \<open>
  The class \<open>Router\<close> (router.hpp, router.cpp): it makes the filter objects of two chains, one
  for IPv4 and one for IPv6, links them, forwards the configuration calls, initialises the
  filters and makes a packet object of what the netfilter queue delivers. A filter object and
  its \<open>next_\<close> pointer are an entry of a list, a pointer is an index into it, and the members
  \<open>delay_\<close>, \<open>loss_\<close> and so on are the map \<open>slot\<close> from the class of filter to the object.
\<close>

section \<open>Filter objects\<close>

datatype filter_kind =
  KInput | KInputDrop | KStaticDelay | KLoss | KNat | KBurst | KTokenBucketFilter | KDynamicDelay
  | KDynamicLoss | KOutput | KOutputLibnet

datatype 'p stage_obj =
    FInput | FInputDrop | FStaticDelay "'p delay_core" | FLoss loss_filter | FNat nat_handler
  | FBurst "'p burst" | FTokenBucket "'p tbf" | FDynamicDelay "'p dynamic_delay"
  | FDynamicLoss dynamic_loss | FOutput | FOutputLibnet "'p libnet_out"

fun obj_kind :: "'p stage_obj \<Rightarrow> filter_kind" where
  "obj_kind FInput = KInput"
| "obj_kind FInputDrop = KInputDrop"
| "obj_kind (FStaticDelay s) = KStaticDelay"
| "obj_kind (FLoss f) = KLoss"
| "obj_kind (FNat n) = KNat"
| "obj_kind (FBurst b) = KBurst"
| "obj_kind (FTokenBucket t) = KTokenBucketFilter"
| "obj_kind (FDynamicDelay s) = KDynamicDelay"
| "obj_kind (FDynamicLoss s) = KDynamicLoss"
| "obj_kind FOutput = KOutput"
| "obj_kind (FOutputLibnet s) = KOutputLibnet"

text \<open>
  What the constructors get from outside: clock readings, the storage of the objects with
  members that they do not set, and whether \<open>libnet_init\<close> succeeds.
\<close>

record ctor_env =
  ctor_now :: int
  ctor_now2 :: int
  ctor_nat :: nat_handler
  ctor_loss :: dynamic_loss
  ctor_libnet :: bool

fun make_obj :: "ctor_env \<Rightarrow> filter_kind \<Rightarrow> 'p stage_obj" where
  "make_obj env KInput = FInput"
| "make_obj env KInputDrop = FInputDrop"
| "make_obj env KStaticDelay = FStaticDelay StaticDelay_new"
| "make_obj env KLoss = FLoss Loss_new"
| "make_obj env KNat = FNat (Nat_new (ctor_nat env))"
| "make_obj env KBurst = FBurst Burst_new"
| "make_obj env KTokenBucketFilter = FTokenBucket (TokenBucketFilter_new (ctor_now env) (ctor_now2 env))"
| "make_obj env KDynamicDelay = FDynamicDelay DynamicDelay_new"
| "make_obj env KDynamicLoss = FDynamicLoss (DynamicLoss_new (ctor_loss env))"
| "make_obj env KOutput = FOutput"
| "make_obj env KOutputLibnet = FOutputLibnet (libnet_out_new (ctor_libnet env))"

lemma obj_kind_make [simp]: "obj_kind (make_obj env k) = k"
  by (cases k) simp_all

section \<open>A chain\<close>

record 'p chain =
  objects :: "('p stage_obj \<times> nat option) list"
  start_filter :: "nat option"
  slot :: "filter_kind \<Rightarrow> nat option"

definition chain_new :: "'p chain" where
  "chain_new = \<lparr>objects = [], start_filter = None, slot = (\<lambda>k. None)\<rparr>"

text \<open>\<open>x_ = std::make_shared<X>()\<close> and \<open>setNext\<close>.\<close>

definition make_shared :: "filter_kind \<Rightarrow> 'p stage_obj \<Rightarrow> 'p chain \<Rightarrow> 'p chain" where
  "make_shared k x c =
     c\<lparr>objects := objects c @ [(x, None)], slot := (slot c)(k := Some (length (objects c)))\<rparr>"

definition setNext :: "nat \<Rightarrow> nat \<Rightarrow> 'p chain \<Rightarrow> 'p chain" where
  "setNext i j c = c\<lparr>objects := (objects c)[i := (fst (objects c ! i), Some j)]\<rparr>"

text \<open>\<open>a_->setNext(b_)\<close> for two members.\<close>

definition link :: "filter_kind \<times> filter_kind \<Rightarrow> 'p chain \<Rightarrow> fault + 'p chain" where
  "link ab c =
     (case slot c (fst ab) of
        None \<Rightarrow> Inl NullDeref
      | Some i \<Rightarrow>
          (case slot c (snd ab) of
             None \<Rightarrow> Inr (c\<lparr>objects := (objects c)[i := (fst (objects c ! i), None)]\<rparr>)
           | Some j \<Rightarrow> Inr (setNext i j c)))"

fun link_all :: "(filter_kind \<times> filter_kind) list \<Rightarrow> 'p chain \<Rightarrow> fault + 'p chain" where
  "link_all [] c = Inr c"
| "link_all (ab # ls) c = try_bind (link ab c) (link_all ls)"

section \<open>The router\<close>

record router =
  initialized :: bool
  extIf :: string
  chain4 :: "packet chain"
  chain6 :: "packet6 chain"

definition Router_new :: router where
  "Router_new = \<lparr>initialized = False, extIf = '''', chain4 = chain_new, chain6 = chain_new\<rparr>"

text \<open>\<open>init\<close> with all filters.\<close>

definition default_make4 :: "filter_kind list" where
  "default_make4 = [KInputDrop, KLoss, KNat, KBurst, KStaticDelay, KDynamicDelay, KDynamicLoss,
     KTokenBucketFilter, KOutputLibnet]"

definition default_links4 :: "(filter_kind \<times> filter_kind) list" where
  "default_links4 = [(KInputDrop, KLoss), (KLoss, KNat), (KNat, KBurst), (KBurst, KStaticDelay),
     (KStaticDelay, KDynamicLoss), (KDynamicLoss, KDynamicDelay), (KDynamicDelay, KTokenBucketFilter),
     (KTokenBucketFilter, KOutputLibnet)]"

definition default_make6 :: "filter_kind list" where
  "default_make6 = [KInput, KLoss, KBurst, KStaticDelay, KDynamicDelay, KDynamicLoss,
     KTokenBucketFilter, KOutput]"

definition default_links6 :: "(filter_kind \<times> filter_kind) list" where
  "default_links6 = [(KInput, KLoss), (KLoss, KBurst), (KBurst, KStaticDelay),
     (KStaticDelay, KDynamicLoss), (KDynamicLoss, KDynamicDelay), (KDynamicDelay, KTokenBucketFilter),
     (KTokenBucketFilter, KOutput)]"

definition Router_init :: "ctor_env \<Rightarrow> ctor_env \<Rightarrow> string \<Rightarrow> router \<Rightarrow> fault + bool \<times> router" where
  "Router_init env4 env6 ext r =
     try_bind (link_all default_links4 (fold (\<lambda>k. make_shared k (make_obj env4 k)) default_make4 (chain4 r))) (\<lambda>c4.
     try_bind (link_all default_links6 (fold (\<lambda>k. make_shared k (make_obj env6 k)) default_make6 (chain6 r))) (\<lambda>c6.
       Inr (True, r\<lparr>chain4 := c4\<lparr>start_filter := slot c4 KInputDrop\<rparr>,
                    chain6 := c6\<lparr>start_filter := slot c6 KInput\<rparr>,
                    extIf := ext, initialized := True\<rparr>)))"

text \<open>\<open>init\<close> with a list of filter names.\<close>

definition kind_of :: "string \<Rightarrow> filter_kind option" where
  "kind_of it =
     (if it = ''Input'' then Some KInput
      else if it = ''InputDrop'' then Some KInputDrop
      else if it = ''Burst'' then Some KBurst
      else if it = ''Loss'' then Some KLoss
      else if it = ''StaticDelay'' then Some KStaticDelay
      else if it = ''Nat'' then Some KNat
      else if it = ''TokenBucketFilter'' then Some KTokenBucketFilter
      else if it = ''DynamicDelay'' then Some KDynamicDelay
      else if it = ''DynamicLoss'' then Some KDynamicLoss
      else if it = ''Output'' then Some KOutput
      else if it = ''OutputLibnet'' then Some KOutputLibnet
      else None)"

definition is_input :: "filter_kind \<Rightarrow> bool" where
  "is_input k \<longleftrightarrow> k = KInput \<or> k = KInputDrop"

text \<open>One branch of the loop, for one of the chains; \<open>last\<close> is the local pointer.\<close>

definition chain_add :: "ctor_env \<Rightarrow> filter_kind \<Rightarrow> 'p chain \<times> nat option \<Rightarrow> fault + 'p chain \<times> nat option" where
  "chain_add env k cl =
     (let (c, last) = cl; n = length (objects c); c1 = make_shared k (make_obj env k) c
      in if is_input k then Inr (c1\<lparr>start_filter := Some n\<rparr>, Some n)
         else case last of None \<Rightarrow> Inl NullDeref | Some l \<Rightarrow> Inr (setNext l n c1, Some n))"

fun init_loop ::
  "ctor_env \<Rightarrow> ctor_env \<Rightarrow> string list \<Rightarrow> packet chain \<times> nat option \<Rightarrow> packet6 chain \<times> nat option
     \<Rightarrow> fault + packet chain \<times> packet6 chain" where
  "init_loop env4 env6 [] cl4 cl6 = Inr (fst cl4, fst cl6)"
| "init_loop env4 env6 (it # filters) cl4 cl6 =
     (case kind_of it of
        None \<Rightarrow> init_loop env4 env6 filters cl4 cl6
      | Some k \<Rightarrow>
          try_bind (chain_add env4 k cl4) (\<lambda>cl4'.
          try_bind (if k = KNat then Inr cl6 else chain_add env6 k cl6) (\<lambda>cl6'.
            init_loop env4 env6 filters cl4' cl6')))"

definition Router_init_filters ::
  "ctor_env \<Rightarrow> ctor_env \<Rightarrow> string \<Rightarrow> string list \<Rightarrow> router \<Rightarrow> fault + bool \<times> router" where
  "Router_init_filters env4 env6 ext filters r =
     try_bind (init_loop env4 env6 filters (chain4 r, None) (chain6 r, None)) (\<lambda>(c4, c6).
       Inr (True, r\<lparr>extIf := ext, chain4 := c4, chain6 := c6, initialized := True\<rparr>))"

text \<open>\<open>getInstance\<close>: its static variable is the argument; \<open>main\<close> starts with the first call.\<close>

definition Router_getInstance :: "router option \<Rightarrow> router" where
  "Router_getInstance inst = (case inst of None \<Rightarrow> Router_new | Some r \<Rightarrow> r)"

section \<open>Configuration\<close>

text \<open>\<open>if (x_) { x_->set... }\<close>\<close>

definition update_slot :: "filter_kind \<Rightarrow> ('p stage_obj \<Rightarrow> 'p stage_obj) \<Rightarrow> 'p chain \<Rightarrow> 'p chain" where
  "update_slot k f c =
     (case slot c k of
        None \<Rightarrow> c
      | Some i \<Rightarrow> c\<lparr>objects := (objects c)[i := (f (fst (objects c ! i)), snd (objects c ! i))]\<rparr>)"

fun on_delay :: "('p delay_core \<Rightarrow> 'p delay_core) \<Rightarrow> 'p stage_obj \<Rightarrow> 'p stage_obj" where
  "on_delay g (FStaticDelay s) = FStaticDelay (g s)"
| "on_delay g x = x"

fun on_loss :: "(loss_filter \<Rightarrow> loss_filter) \<Rightarrow> 'p stage_obj \<Rightarrow> 'p stage_obj" where
  "on_loss g (FLoss s) = FLoss (g s)"
| "on_loss g x = x"

fun on_nat :: "(nat_handler \<Rightarrow> nat_handler) \<Rightarrow> 'p stage_obj \<Rightarrow> 'p stage_obj" where
  "on_nat g (FNat s) = FNat (g s)"
| "on_nat g x = x"

fun on_burst :: "('p burst \<Rightarrow> 'p burst) \<Rightarrow> 'p stage_obj \<Rightarrow> 'p stage_obj" where
  "on_burst g (FBurst s) = FBurst (g s)"
| "on_burst g x = x"

fun on_tbf :: "('p tbf \<Rightarrow> 'p tbf) \<Rightarrow> 'p stage_obj \<Rightarrow> 'p stage_obj" where
  "on_tbf g (FTokenBucket s) = FTokenBucket (g s)"
| "on_tbf g x = x"

fun on_dynloss :: "(dynamic_loss \<Rightarrow> dynamic_loss) \<Rightarrow> 'p stage_obj \<Rightarrow> 'p stage_obj" where
  "on_dynloss g (FDynamicLoss s) = FDynamicLoss (g s)"
| "on_dynloss g x = x"

text \<open>The calls for both chains, and those for the IPv4 chain only.\<close>

definition both ::
  "filter_kind \<Rightarrow> (packet stage_obj \<Rightarrow> packet stage_obj) \<Rightarrow> (packet6 stage_obj \<Rightarrow> packet6 stage_obj) \<Rightarrow> router \<Rightarrow> router" where
  "both k f g r = r\<lparr>chain4 := update_slot k f (chain4 r), chain6 := update_slot k g (chain6 r)\<rparr>"

definition only4 :: "filter_kind \<Rightarrow> (packet stage_obj \<Rightarrow> packet stage_obj) \<Rightarrow> router \<Rightarrow> router" where
  "only4 k f r = r\<lparr>chain4 := update_slot k f (chain4 r)\<rparr>"

definition Router_setDelay :: "int \<Rightarrow> router \<Rightarrow> router" where
  "Router_setDelay del = both KStaticDelay (on_delay (setDelay del)) (on_delay (setDelay del))"
definition Router_setLoss :: "real \<Rightarrow> router \<Rightarrow> router" where
  "Router_setLoss l = both KLoss (on_loss (setLoss l)) (on_loss (setLoss l))"
definition Router_setIPs :: "(string \<Rightarrow> u32) \<Rightarrow> string \<Rightarrow> string \<Rightarrow> router \<Rightarrow> router" where
  "Router_setIPs inet_network ipE ipI = only4 KNat (on_nat (Nat_setIPs inet_network ipE ipI))"
definition Router_setDnatRule :: "(string \<Rightarrow> u32) \<Rightarrow> string \<Rightarrow> u16 \<Rightarrow> u16 \<Rightarrow> router \<Rightarrow> router" where
  "Router_setDnatRule inet_network ip extPort intPort = only4 KNat (on_nat (Nat_setDnatRule inet_network ip extPort intPort))"
definition Router_setNatType :: "string \<Rightarrow> router \<Rightarrow> router" where
  "Router_setNatType type = only4 KNat (on_nat (Nat_setNatType type))"
definition Router_setNatTimeout :: "u32 \<Rightarrow> router \<Rightarrow> router" where
  "Router_setNatTimeout to = only4 KNat (on_nat (Nat_setTimeout to))"
definition Router_setBurstDuration :: "int \<Rightarrow> router \<Rightarrow> router" where
  "Router_setBurstDuration dur = both KBurst (on_burst (setBurstDuration dur)) (on_burst (setBurstDuration dur))"
definition Router_setSleepDuration :: "int \<Rightarrow> router \<Rightarrow> router" where
  "Router_setSleepDuration dur = both KBurst (on_burst (setSleepDuration dur)) (on_burst (setSleepDuration dur))"
definition setTbfInRateLimit :: "u32 \<Rightarrow> router \<Rightarrow> router" where
  "setTbfInRateLimit x = both KTokenBucketFilter (on_tbf (setInRateLimit x)) (on_tbf (setInRateLimit x))"
definition setTbfInMaxTokens :: "u32 \<Rightarrow> router \<Rightarrow> router" where
  "setTbfInMaxTokens x = both KTokenBucketFilter (on_tbf (setInMaxTokens x)) (on_tbf (setInMaxTokens x))"
definition setTbfInMaxPackets :: "u32 \<Rightarrow> router \<Rightarrow> router" where
  "setTbfInMaxPackets x = both KTokenBucketFilter (on_tbf (setInMaxPackets x)) (on_tbf (setInMaxPackets x))"
definition setTbfInRedStart :: "u32 \<Rightarrow> router \<Rightarrow> router" where
  "setTbfInRedStart x = both KTokenBucketFilter (on_tbf (setInRedStart x)) (on_tbf (setInRedStart x))"
definition setTbfOutRateLimit :: "u32 \<Rightarrow> router \<Rightarrow> router" where
  "setTbfOutRateLimit x = both KTokenBucketFilter (on_tbf (setOutRateLimit x)) (on_tbf (setOutRateLimit x))"
definition setTbfOutMaxTokens :: "u32 \<Rightarrow> router \<Rightarrow> router" where
  "setTbfOutMaxTokens x = both KTokenBucketFilter (on_tbf (setOutMaxTokens x)) (on_tbf (setOutMaxTokens x))"
definition setTbfOutMaxPackets :: "u32 \<Rightarrow> router \<Rightarrow> router" where
  "setTbfOutMaxPackets x = both KTokenBucketFilter (on_tbf (setOutMaxPackets x)) (on_tbf (setOutMaxPackets x))"
definition setTbfOutRedStart :: "u32 \<Rightarrow> router \<Rightarrow> router" where
  "setTbfOutRedStart x = both KTokenBucketFilter (on_tbf (setOutRedStart x)) (on_tbf (setOutRedStart x))"
definition setDynamicLosses :: "int list \<Rightarrow> real list \<Rightarrow> router \<Rightarrow> router" where
  "setDynamicLosses t l = both KDynamicLoss (on_dynloss (\<lambda>s. snd (setLosses t l s))) (on_dynloss (\<lambda>s. snd (setLosses t l s)))"

text \<open>\<open>setDelays\<close> may read outside of an empty vector.\<close>

definition chain_setDelays :: "int list \<Rightarrow> int \<Rightarrow> 'p chain \<Rightarrow> fault + 'p chain" where
  "chain_setDelays d res c =
     (case slot c KDynamicDelay of
        None \<Rightarrow> Inr c
      | Some i \<Rightarrow>
          (case objects c ! i of
             (FDynamicDelay s, nx) \<Rightarrow>
               try_bind (setDelays d res s) (\<lambda>(curve, s').
                 Inr (c\<lparr>objects := (objects c)[i := (FDynamicDelay s', nx)]\<rparr>))
           | _ \<Rightarrow> Inr c))"

definition setDynamicDelays :: "int list \<Rightarrow> int \<Rightarrow> router \<Rightarrow> fault + router" where
  "setDynamicDelays d res r =
     try_bind (chain_setDelays d res (chain4 r)) (\<lambda>c4.
     try_bind (chain_setDelays d res (chain6 r)) (\<lambda>c6. Inr (r\<lparr>chain4 := c4, chain6 := c6\<rparr>)))"

section \<open>Initialisation of the filters\<close>

text \<open>The clock readings of the initialisation, the three of each token bucket apart.\<close>

record init_env =
  init_now :: int
  init_in :: "int \<times> int \<times> int"
  init_out :: "int \<times> int \<times> int"

text \<open>The \<open>init\<close> of a filter: what it returns, the packets it passes on, its new state.\<close>

fun obj_init :: "init_env \<Rightarrow> 'a pkt stage_obj \<Rightarrow> fault + bool \<times> 'a pkt list \<times> 'a pkt stage_obj" where
  "obj_init env (FStaticDelay s) = (let (b, s') = StaticDelay_init s in Inr (b, [], FStaticDelay s'))"
| "obj_init env (FDynamicDelay s) = (let (b, s') = DynamicDelay_init s in Inr (b, [], FDynamicDelay s'))"
| "obj_init env (FDynamicLoss s) =
     try_bind (DynamicLoss_init (init_now env) s) (\<lambda>(b, s'). Inr (b, [], FDynamicLoss s'))"
| "obj_init env (FNat n) = (let (b, n') = Nat_init n in Inr (b, [], FNat n'))"
| "obj_init env (FBurst s) = (let (b, out, s') = Burst_init (init_now env) s in Inr (b, out, FBurst s'))"
| "obj_init env (FTokenBucket t) =
     (let (b, out, t') = TokenBucketFilter_init (init_in env) (init_out env) t in Inr (b, out, FTokenBucket t'))"
| "obj_init env (FOutputLibnet s) = (let (b, s') = OutputLibnet_init s in Inr (b, [], FOutputLibnet s'))"
| "obj_init env FInput = Inr (True, [], FInput)"
| "obj_init env FInputDrop = Inr (True, [], FInputDrop)"
| "obj_init env (FLoss f) = Inr (True, [], FLoss f)"
| "obj_init env FOutput = Inr (True, [], FOutput)"

text \<open>
  The sequence of conditional \<open>init\<close> calls, with the early return; \<open>ok\<close> tells whether the
  pointer for the \<open>setQH\<close> call before it is not null. The packets passed on are collected.
\<close>

fun init_slots ::
  "init_env \<Rightarrow> (filter_kind \<Rightarrow> bool) \<Rightarrow> filter_kind list \<Rightarrow> 'a pkt chain \<Rightarrow> fault + bool \<times> 'a pkt list \<times> 'a pkt chain" where
  "init_slots env ok [] c = Inr (True, [], c)"
| "init_slots env ok (k # ks) c =
     (case slot c k of
        None \<Rightarrow> init_slots env ok ks c
      | Some i \<Rightarrow>
          if \<not> ok k then Inl NullDeref
          else try_bind (obj_init env (fst (objects c ! i))) (\<lambda>(b, out, x).
            let c' = c\<lparr>objects := (objects c)[i := (x, snd (objects c ! i))]\<rparr>
            in if b then try_bind (init_slots env ok ks c') (\<lambda>(b', out', c''). Inr (b', out @ out', c''))
               else Inr (False, out, c')))"

definition init_order4 :: "filter_kind list" where
  "init_order4 = [KInput, KInputDrop, KStaticDelay, KDynamicDelay, KDynamicLoss, KLoss, KNat, KBurst,
     KTokenBucketFilter, KOutput, KOutputLibnet]"

definition init_order6 :: "filter_kind list" where
  "init_order6 = [KInput, KInputDrop, KStaticDelay, KDynamicDelay, KDynamicLoss, KLoss, KBurst,
     KTokenBucketFilter, KOutput, KOutputLibnet]"

definition initFilters :: "init_env \<Rightarrow> router \<Rightarrow> fault + bool \<times> packet list \<times> router" where
  "initFilters env r =
     try_bind (init_slots env (\<lambda>k. True) init_order4 (chain4 r)) (\<lambda>(b, out, c). Inr (b, out, r\<lparr>chain4 := c\<rparr>))"

text \<open>For \<open>output6_\<close> the code calls \<open>output_->setQH\<close>, on the output of the IPv4 chain.\<close>

definition init6Filters :: "init_env \<Rightarrow> router \<Rightarrow> fault + bool \<times> packet6 list \<times> router" where
  "init6Filters env r =
     try_bind (init_slots env (\<lambda>k. k = KOutput \<longrightarrow> slot (chain4 r) KOutput \<noteq> None) init_order6 (chain6 r))
       (\<lambda>(b, out, c). Inr (b, out, r\<lparr>chain6 := c\<rparr>))"

section \<open>New packets\<close>

text \<open>The packet object for what the netfilter queue delivers, and the filter that gets it.\<close>

definition newPacket :: "int \<Rightarrow> nfq_data \<Rightarrow> packet \<Rightarrow> router \<Rightarrow> fault + packet \<times> nat" where
  "newPacket now nfa raw r =
     try_bind (Packet_new now nfa raw) (\<lambda>pkt.
       let pkt' = (if strInboundInterface pkt = extIf r then pkt\<lparr>isIngoing := True\<rparr>
                   else pkt\<lparr>isIngoing := False\<rparr>)
       in case start_filter (chain4 r) of None \<Rightarrow> Inl NullDeref | Some i \<Rightarrow> Inr (pkt', i))"

definition newPacket6 :: "int \<Rightarrow> nfq_data \<Rightarrow> packet6 \<Rightarrow> router \<Rightarrow> fault + packet6 \<times> nat" where
  "newPacket6 now nfa raw r =
     try_bind (Packet6_new now nfa raw) (\<lambda>pkt.
       let pkt' = (if strInboundInterface pkt = extIf r then pkt\<lparr>isIngoing := True\<rparr>
                   else pkt\<lparr>isIngoing := False\<rparr>)
       in case start_filter (chain6 r) of None \<Rightarrow> Inl NullDeref | Some i \<Rightarrow> Inr (pkt', i))"

section \<open>Execution\<close>

text \<open>
  What the netfilter library answers to the calls that set up the queue, and what the socket
  delivers: for each \<open>recv\<close> its result and the messages in the buffer, each with the time
  and the storage of the new packet object.
\<close>

record nfq_env =
  nfq_opened :: bool
  nfq_bound :: bool
  nfq_created :: bool
  nfq_copy_mode :: bool

datatype exec_state = Returned_with bool | Running

type_synonym 'p delivery = "(int \<times> nfq_data \<times> 'p) list"

fun handle_messages :: "(int \<Rightarrow> nfq_data \<Rightarrow> 'p \<Rightarrow> fault + 'x) \<Rightarrow> 'p delivery \<Rightarrow> fault + 'x list" where
  "handle_messages new [] = Inr []"
| "handle_messages new ((now, nfa, raw) # ms) =
     try_bind (new now nfa raw) (\<lambda>x. try_bind (handle_messages new ms) (\<lambda>xs. Inr (x # xs)))"

text \<open>The loop: a result of 0 ends it, negative results are skipped.\<close>

fun recv_loop ::
  "(int \<Rightarrow> nfq_data \<Rightarrow> 'p \<Rightarrow> fault + 'x) \<Rightarrow> (int \<times> 'p delivery) list \<Rightarrow> fault + exec_state \<times> 'x list" where
  "recv_loop new [] = Inr (Running, [])"
| "recv_loop new ((rv, ms) # rest) =
     (if rv = 0 then Inr (Returned_with True, [])
      else if rv \<ge> 0 then
        try_bind (handle_messages new ms) (\<lambda>xs.
        try_bind (recv_loop new rest) (\<lambda>(e, ys). Inr (e, xs @ ys)))
      else recv_loop new rest)"

definition Router_execute ::
  "init_env \<Rightarrow> nfq_env \<Rightarrow> (int \<times> packet delivery) list \<Rightarrow> router
     \<Rightarrow> fault + exec_state \<times> (packet \<times> nat) list \<times> router" where
  "Router_execute env nfq received r =
     (if \<not> initialized r then Inr (Returned_with False, [], r)
      else if \<not> nfq_opened nfq then Inr (Returned_with False, [], r)
      else if \<not> nfq_bound nfq then Inr (Returned_with False, [], r)
      else if \<not> nfq_created nfq then Inr (Returned_with False, [], r)
      else if \<not> nfq_copy_mode nfq then Inr (Returned_with False, [], r)
      else try_bind (initFilters env r) (\<lambda>(b, out, r').
        if \<not> b then Inr (Returned_with False, [], r')
        else try_bind (recv_loop (\<lambda>now nfa raw. newPacket now nfa raw r') received) (\<lambda>(e, ps).
          Inr (e, ps, r'))))"

definition Router_execute6 ::
  "init_env \<Rightarrow> nfq_env \<Rightarrow> (int \<times> packet6 delivery) list \<Rightarrow> router
     \<Rightarrow> fault + exec_state \<times> (packet6 \<times> nat) list \<times> router" where
  "Router_execute6 env nfq received r =
     (if \<not> initialized r then Inr (Returned_with False, [], r)
      else if \<not> nfq_opened nfq then Inr (Returned_with False, [], r)
      else if \<not> nfq_bound nfq then Inr (Returned_with False, [], r)
      else if \<not> nfq_created nfq then Inr (Returned_with False, [], r)
      else if \<not> nfq_copy_mode nfq then Inr (Returned_with False, [], r)
      else try_bind (init6Filters env r) (\<lambda>(b, out, r').
        if \<not> b then Inr (Returned_with False, [], r')
        else try_bind (recv_loop (\<lambda>now nfa raw. newPacket6 now nfa raw r') received) (\<lambda>(e, ps).
          Inr (e, ps, r'))))"

declare Router_init_def [router_eval] Router_new_def [router_eval] chain_new_def [router_eval]
  default_make4_def [router_eval] default_make6_def [router_eval] default_links4_def [router_eval]
  default_links6_def [router_eval] make_shared_def [router_eval] link_def [router_eval] setNext_def [router_eval]
  Router_init_filters_def [router_eval] kind_of_def [router_eval] chain_add_def [router_eval]
  is_input_def [router_eval] only4_def [router_eval] update_slot_def [router_eval] initFilters_def [router_eval]
  init6Filters_def [router_eval] init_order4_def [router_eval] init_order6_def [router_eval]

end
