(* ===== verification/Router_Topology.thy ===== *)
theory Router_Topology
  imports Router
begin

text \<open>
  Which chain of filters \<open>Router::init\<close> builds: the objects that a packet meets when it
  follows the \<open>next_\<close> pointers from the start, and which objects the members point to.
\<close>

section \<open>Following the pointers\<close>

fun follow :: "('p stage_obj \<times> nat option) list \<Rightarrow> nat \<Rightarrow> nat option \<Rightarrow> nat list" where
  "follow os 0 p = []"
| "follow os (Suc f) None = []"
| "follow os (Suc f) (Some i) = i # follow os f (snd (os ! i))"

definition chain_path :: "'p chain \<Rightarrow> nat list" where
  "chain_path c = follow (objects c) (length (objects c)) (start_filter c)"

definition chain_objs :: "'p chain \<Rightarrow> 'p stage_obj list" where
  "chain_objs c = map (\<lambda>i. fst (objects c ! i)) (chain_path c)"

lemma follow_consecutive:
  "s \<le> l \<Longrightarrow> l < s + f \<Longrightarrow> (\<forall>i. s \<le> i \<and> i < l \<longrightarrow> snd (os ! i) = Some (Suc i)) \<Longrightarrow> snd (os ! l) = None \<Longrightarrow>
     follow os f (Some s) = [s ..< Suc l]"
proof (induction f arbitrary: s)
  case (Suc f)
  show ?case
  proof (cases "s = l")
    case True
    then show ?thesis using Suc.prems by (cases f) simp_all
  next
    case False
    then have "follow os f (Some (Suc s)) = [Suc s ..< Suc l]" using Suc.prems by (intro Suc.IH) auto
    moreover have "[s ..< Suc l] = s # [Suc s ..< Suc l]" using Suc.prems(1) by (simp add: upt_conv_Cons)
    ultimately show ?thesis using Suc.prems False by simp
  qed
qed simp

section \<open>The loop over the filter names\<close>

text \<open>What a packet meets after the names \<open>ks\<close>: all from the last input filter on.\<close>

definition route :: "filter_kind list \<Rightarrow> filter_kind list" where
  "route ks = foldl (\<lambda>acc k. if is_input k then [k] else acc @ [k]) [] ks"

lemma route_append [simp]: "route (ks @ [k]) = (if is_input k then [k] else route ks @ [k])"
  by (simp add: route_def)

lemma route_Nil [simp]: "route [] = []"
  by (simp add: route_def)

lemma route_no_input: "\<forall>x \<in> set ks. \<not> is_input x \<Longrightarrow> route (k # ks) = k # ks"
proof (induction ks rule: rev_induct)
  case (snoc x xs)
  then have "route ((k # xs) @ [x]) = (k # xs) @ [x]" by (subst route_append) simp
  then show ?case by simp
qed (simp add: route_def)

text \<open>
  The objects are those made, in order; a member points to the last object of its class; the
  objects from the start to \<open>last\<close> are linked one after the other.
\<close>

definition topo :: "ctor_env \<Rightarrow> 'p chain \<Rightarrow> nat option \<Rightarrow> filter_kind list \<Rightarrow> bool" where
  "topo env c lst ks \<longleftrightarrow> map fst (objects c) = map (make_obj env) ks
     \<and> (\<forall>k i. slot c k = Some i \<longleftrightarrow> i < length ks \<and> ks ! i = k \<and> k \<notin> set (drop (Suc i) ks))
     \<and> (case lst of None \<Rightarrow> ks = [] | Some l \<Rightarrow> (\<exists>s. start_filter c = Some s \<and> s \<le> l \<and> Suc l = length ks
          \<and> (\<forall>i. s \<le> i \<and> i < l \<longrightarrow> snd (objects c ! i) = Some (Suc i)) \<and> snd (objects c ! l) = None
          \<and> drop s ks = route ks))"

lemma topo_new: "topo env chain_new None []"
  by (simp add: topo_def chain_new_def)

lemma slot_snoc:
  assumes "\<forall>k i. f k = Some i \<longleftrightarrow> i < length ks \<and> ks ! i = k \<and> k \<notin> set (drop (Suc i) ks)"
  shows "(f(x := Some (length ks))) k = Some i \<longleftrightarrow>
    i < length (ks @ [x]) \<and> (ks @ [x]) ! i = k \<and> k \<notin> set (drop (Suc i) (ks @ [x]))"
  using assms by (auto simp: nth_append less_Suc_eq)

lemma topo_add:
  assumes "topo env c lst ks" and "lst \<noteq> None \<or> is_input k"
  shows "\<exists>c'. chain_add env k (c, lst) = Inr (c', Some (length ks)) \<and> topo env c' (Some (length ks)) (ks @ [k])"
proof -
  let ?n = "length ks"
  let ?c1 = "make_shared k (make_obj env k :: 'a stage_obj) c"
  have objs: "map fst (objects c) = map (make_obj env) ks" using assms(1) by (simp add: topo_def)
  then have n: "length (objects c) = ?n" by (metis length_map)
  have slots: "slot ?c1 x = Some i \<longleftrightarrow> i < length (ks @ [k]) \<and> (ks @ [k]) ! i = x \<and> x \<notin> set (drop (Suc i) (ks @ [k]))"
    for x i using slot_snoc [of "slot c" ks k x i] assms(1) by (simp add: topo_def make_shared_def n)
  have o1: "objects ?c1 = objects c @ [(make_obj env k, None)]" by (simp add: make_shared_def)
  show ?thesis
  proof (cases "is_input k")
    case True
    let ?c' = "?c1\<lparr>start_filter := Some ?n\<rparr>"
    have "topo env ?c' (Some ?n) (ks @ [k])"
      using True slots objs n by (auto simp: topo_def o1 nth_append)
    with True show ?thesis by (auto simp: chain_add_def Let_def n)
  next
    case False
    with assms obtain l s where l: "lst = Some l" "start_filter c = Some s" "s \<le> l" "Suc l = ?n"
      "\<forall>i. s \<le> i \<and> i < l \<longrightarrow> snd (objects c ! i) = Some (Suc i)" "snd (objects c ! l) = None"
      "drop s ks = route ks"
      by (cases lst) (auto simp: topo_def)
    let ?c' = "setNext l ?n ?c1"
    have o2: "objects ?c' = (objects ?c1)[l := (fst (objects ?c1 ! l), Some ?n)]" by (simp add: setNext_def)
    have "map fst (objects ?c') = map fst (objects ?c1)"
      unfolding o2 map_update using l(4) n by (simp add: o1 list_update_same_conv nth_append)
    then have m: "map fst (objects ?c') = map (make_obj env) (ks @ [k])" using objs by (simp add: o1)
    have nx: "snd (objects ?c' ! i) = Some (Suc i)" if "s \<le> i" "i < ?n" for i
      using that l(4,5) n by (auto simp: o2 o1 nth_append nth_list_update)
    have nn: "snd (objects ?c' ! ?n) = None"
      using l(4) n by (simp add: o2 o1 nth_append nth_list_update)
    have st: "start_filter ?c' = Some s" "slot ?c' = slot ?c1" using l(2) by (simp_all add: setNext_def make_shared_def)
    have "drop s (ks @ [k]) = route (ks @ [k])" using l(3,4,7) False by simp
    then have "topo env ?c' (Some ?n) (ks @ [k])"
      using m nx nn st slots l(3,4) by (auto simp: topo_def)
    with False l(1) show ?thesis by (auto simp: chain_add_def Let_def n)
  qed
qed

lemma topo_path:
  assumes "topo env c (Some l) ks"
  shows "chain_objs c = map (make_obj env) (route ks)" and "\<exists>s. chain_path c = [s ..< length ks]"
proof -
  from assms obtain s where s: "start_filter c = Some s" "s \<le> l" "Suc l = length ks"
    "\<forall>i. s \<le> i \<and> i < l \<longrightarrow> snd (objects c ! i) = Some (Suc i)" "snd (objects c ! l) = None" "drop s ks = route ks"
    and o: "map fst (objects c) = map (make_obj env) ks"
    by (auto simp: topo_def)
  from o have n: "length (objects c) = length ks" by (metis length_map)
  have p: "chain_path c = [s ..< length ks]"
    unfolding chain_path_def s(1) n
    by (subst follow_consecutive [of s l]) (use s in auto)
  then show "\<exists>s. chain_path c = [s ..< length ks]" by blast
  have "chain_objs c = map (\<lambda>i. map fst (objects c) ! i) [s ..< length ks]"
    unfolding chain_objs_def p by (rule map_cong) (simp_all add: n)
  also have "\<dots> = map (\<lambda>i. make_obj env (ks ! i)) [s ..< length ks]"
    unfolding o by (rule map_cong) simp_all
  also have "\<dots> = map (make_obj env) (drop s ks)"
    by (simp add: list_eq_iff_nth_eq)
  finally show "chain_objs c = map (make_obj env) (route ks)" using s(6) by simp
qed

lemma init_loop_topo:
  assumes "topo env4 c4 l4 ks4" and "topo env6 c6 l6 ks6"
    and "l4 \<noteq> None \<and> l6 \<noteq> None \<or> (\<exists>k ks. List.map_filter kind_of fs = k # ks \<and> is_input k)"
  shows "\<exists>c4' c6' l4' l6'. init_loop env4 env6 fs (c4, l4) (c6, l6) = Inr (c4', c6')
    \<and> topo env4 c4' l4' (ks4 @ List.map_filter kind_of fs)
    \<and> topo env6 c6' l6' (ks6 @ filter (\<lambda>k. k \<noteq> KNat) (List.map_filter kind_of fs))
    \<and> l4' \<noteq> None \<and> l6' \<noteq> None"
  using assms
proof (induction fs arbitrary: c4 l4 ks4 c6 l6 ks6)
  case Nil
  then show ?case by (auto simp: map_filter_simps)
next
  case (Cons f fs)
  show ?case
  proof (cases "kind_of f")
    case None
    then have "List.map_filter kind_of (f # fs) = List.map_filter kind_of fs" by (simp add: map_filter_simps)
    with Cons.IH [OF Cons.prems(1,2)] Cons.prems(3) None show ?thesis by simp
  next
    case (Some k)
    then have mf: "List.map_filter kind_of (f # fs) = k # List.map_filter kind_of fs" by (simp add: map_filter_simps)
    have in4: "l4 \<noteq> None \<or> is_input k" "l6 \<noteq> None \<or> is_input k" using Cons.prems(3) mf by auto
    from topo_add [OF Cons.prems(1) in4(1)] obtain c4' where
      c4: "chain_add env4 k (c4, l4) = Inr (c4', Some (length ks4))" "topo env4 c4' (Some (length ks4)) (ks4 @ [k])" by blast
    show ?thesis
    proof (cases "k = KNat")
      case True
      then have "l6 \<noteq> None" using in4 by (auto simp: is_input_def)
      with Cons.IH [OF c4(2) Cons.prems(2)] show ?thesis
        by (auto simp: Some True mf c4(1) [unfolded True])
    next
      case False
      from topo_add [OF Cons.prems(2) in4(2)] obtain c6' where
        c6: "chain_add env6 k (c6, l6) = Inr (c6', Some (length ks6))" "topo env6 c6' (Some (length ks6)) (ks6 @ [k])" by blast
      from Cons.IH [OF c4(2) c6(2)] show ?thesis
        by (auto simp: Some False mf c4(1) c6(1))
    qed
  qed
qed

lemma route_filter:
  "(\<And>k. is_input k \<Longrightarrow> P k) \<Longrightarrow> route (filter P ks) = filter P (route ks)"
  by (induction ks rule: rev_induct) auto

lemma route_Cons_ne: "route (k # ks) \<noteq> []"
  by (induction ks rule: rev_induct) (simp_all add: route_def)

lemma router_chains_aux:
  assumes "List.map_filter kind_of fs = k # ks" and "is_input k"
  shows "\<exists>r l4 l6. Router_init_filters env4 env6 ext fs Router_new = Inr (True, r) \<and> initialized r \<and> extIf r = ext
    \<and> topo env4 (chain4 r) (Some l4) (k # ks)
    \<and> topo env6 (chain6 r) (Some l6) (filter (\<lambda>x. x \<noteq> KNat) (k # ks))"
proof -
  from init_loop_topo [OF topo_new topo_new, of fs env4 env6] assms
  obtain c4 c6 l4 l6 where L: "init_loop env4 env6 fs (chain_new, None) (chain_new, None) = Inr (c4, c6)"
    "topo env4 c4 (Some l4) (k # ks)" "topo env6 c6 (Some l6) (filter (\<lambda>x. x \<noteq> KNat) (k # ks))"
    by auto
  let ?r = "Router_new\<lparr>extIf := ext, chain4 := c4, chain6 := c6, initialized := True\<rparr>"
  have "Router_init_filters env4 env6 ext fs Router_new = Inr (True, ?r)"
    by (simp add: Router_init_filters_def Router_new_def L(1))
  with L(2,3) show ?thesis by auto
qed

text \<open>
  C14. \<open>Router::init\<close> with a list of names, the first known one an input filter (as \<open>main\<close>
  arranges), always succeeds and builds the two chains as listed: an IPv4 packet meets the
  filters in the order of the list, from the last input filter on, unknown names are skipped,
  and the IPv6 chain is the same without the address translation. If the list has no further
  input filter, that is the whole list.
\<close>

theorem router_chains:
  assumes "List.map_filter kind_of fs = k # ks" and "is_input k"
  shows "\<exists>r. Router_init_filters env4 env6 ext fs Router_new = Inr (True, r)
    \<and> initialized r \<and> extIf r = ext
    \<and> chain_objs (chain4 r) = map (make_obj env4) (route (k # ks))
    \<and> chain_objs (chain6 r) = map (make_obj env6) (filter (\<lambda>x. x \<noteq> KNat) (route (k # ks)))
    \<and> ((\<forall>x \<in> set ks. \<not> is_input x) \<longrightarrow> route (k # ks) = k # ks)"
proof -
  from router_chains_aux [OF assms] obtain r l4 l6 where
    L: "Router_init_filters env4 env6 ext fs Router_new = Inr (True, r)" "initialized r" "extIf r = ext"
      "topo env4 (chain4 r) (Some l4) (k # ks)" "topo env6 (chain6 r) (Some l6) (filter (\<lambda>x. x \<noteq> KNat) (k # ks))"
    by blast
  have "route (filter (\<lambda>x. x \<noteq> KNat) (k # ks)) = filter (\<lambda>x. x \<noteq> KNat) (route (k # ks))"
    by (rule route_filter) (auto simp: is_input_def)
  with L topo_path(1) [OF L(4)] topo_path(1) [OF L(5)] route_no_input [of ks k] show ?thesis by auto
qed

definition example_env :: ctor_env where
  "example_env = \<lparr>ctor_now = 0, ctor_now2 = 0, ctor_nat = example_nat PORT_R_NAT,
     ctor_loss = \<lparr>currentLoss = 0, currentIndex = 0, times = [], losses = [], lossTimers = []\<rparr>, ctor_libnet = True\<rparr>"

lemma router_chains_witness:
  "\<exists>r. Router_init_filters example_env example_env ''eth0'' [''InputDrop'', ''Nat'', ''nonsense'', ''StaticDelay'', ''OutputLibnet'']
      Router_new = Inr (True, r)
    \<and> map obj_kind (chain_objs (chain4 r)) = [KInputDrop, KNat, KStaticDelay, KOutputLibnet]
    \<and> map obj_kind (chain_objs (chain6 r)) = [KInputDrop, KStaticDelay, KOutputLibnet]"
proof -
  have "List.map_filter kind_of [''InputDrop'', ''Nat'', ''nonsense'', ''StaticDelay'', ''OutputLibnet'']
      = [KInputDrop, KNat, KStaticDelay, KOutputLibnet]"
    by (simp add: map_filter_simps kind_of_def)
  from router_chains [OF this, of example_env example_env "''eth0''"] show ?thesis
    by (fastforce simp: is_input_def)
qed

section \<open>The default chains\<close>

lemma default_chains:
  "\<exists>r. Router_init env4 env6 ext Router_new = Inr (True, r) \<and> initialized r \<and> extIf r = ext
     \<and> chain_objs (chain4 r) = map (make_obj env4) [KInputDrop, KLoss, KNat, KBurst, KStaticDelay, KDynamicLoss,
         KDynamicDelay, KTokenBucketFilter, KOutputLibnet]
     \<and> chain_objs (chain6 r) = map (make_obj env6) [KInput, KLoss, KBurst, KStaticDelay, KDynamicLoss,
         KDynamicDelay, KTokenBucketFilter, KOutput]
     \<and> slot (chain4 r) KOutput = None \<and> slot (chain6 r) KOutput = Some 7"
  by (simp add: router_eval chain_objs_def chain_path_def numeral_eq_Suc)

lemma init_slots_needs:
  "init_slots env ok ks c = Inr (True, out, c') \<Longrightarrow> k \<in> set ks \<Longrightarrow> slot c k \<noteq> None \<Longrightarrow> ok k"
proof (induction env ok ks c arbitrary: out c' rule: init_slots.induct)
  case (2 env ok k' ks c)
  show ?case
  proof (cases "slot c k'")
    case None
    then show ?thesis using 2 by auto
  next
    case (Some i)
    then show ?thesis
      using 2 by (auto simp: try_bind_Inr_iff Let_def split: if_splits prod.splits)
  qed
qed simp

text \<open>
  C39. With the default filters the IPv6 mode never runs: \<open>init6Filters\<close> dereferences the null
  pointer \<open>output_\<close>, which only the IPv4 chain with an accepting output sets; and whatever
  was configured after \<open>init\<close>, if \<open>execute6\<close> returns at all then it has returned false
  without taking a packet.
\<close>

theorem default_ipv6_never_runs:
  assumes "Router_init env4 env6 ext Router_new = Inr (b, r)"
  shows "init6Filters env r = Inl NullDeref
    \<and> (slot (chain4 r') = slot (chain4 r) \<and> slot (chain6 r') = slot (chain6 r)
        \<and> Router_execute6 env nfq received r' = Inr (e, ps, r'')
      \<longrightarrow> e = Returned_with False \<and> ps = [])"
proof (intro conjI impI)
  from default_chains [of env4 env6 ext] assms
  have s: "slot (chain4 r) KOutput = None" "slot (chain6 r) KOutput = Some 7" by auto
  show "init6Filters env r = Inl NullDeref"
    using assms
    by (auto simp: router_eval numeral_eq_Suc StaticDelay_init_def DynamicDelay_init_def dynamic_loss_defs Burst_init_def Burst_new_def
      TokenBucketFilter_init_def Let_def split: prod.splits)
next
  assume "slot (chain4 r') = slot (chain4 r) \<and> slot (chain6 r') = slot (chain6 r)
        \<and> Router_execute6 env nfq received r' = Inr (e, ps, r'')"
  then have r': "slot (chain4 r') KOutput = None" "slot (chain6 r') KOutput = Some 7"
    and x: "Router_execute6 env nfq received r' = Inr (e, ps, r'')"
    using default_chains [of env4 env6 ext] assms by auto
  have "init6Filters env r' \<noteq> Inr (True, out, q)" for out q
  proof
    assume "init6Filters env r' = Inr (True, out, q)"
    then obtain c where i: "init_slots env (\<lambda>k. k = KOutput \<longrightarrow> slot (chain4 r') KOutput \<noteq> None) init_order6 (chain6 r')
        = Inr (True, out, c)"
      by (auto simp: init6Filters_def try_bind_Inr_iff)
    have "KOutput \<in> set init_order6" "slot (chain6 r') KOutput \<noteq> None" by (simp_all add: init_order6_def r')
    from init_slots_needs [OF i this] show False by (simp add: r')
  qed
  then show "e = Returned_with False" "ps = []"
    using x by (auto simp: Router_execute6_def try_bind_Inr_iff split: if_splits)
qed

lemma default_ipv6_never_runs_witness:
  "\<exists>r. Router_init example_env example_env ''eth0'' Router_new = Inr (True, r)
     \<and> init6Filters \<lparr>init_now = 0, init_in = (0, 0, 0), init_out = (0, 0, 0)\<rparr> r = Inl NullDeref"
proof -
  obtain r where "Router_init example_env example_env ''eth0'' Router_new = Inr (True, r)"
    using default_chains by blast
  with default_ipv6_never_runs [OF this] show ?thesis by blast
qed

end
