(* ===== verification/Router_Chain.thy ===== *)
theory Router_Chain
  imports Router_Topology
begin

text \<open>
  The whole chain of filters as a transition system. A step of the chain is a step of one of
  its filters whose output goes through the filters behind it; an output passes nothing on
  but sends to the network, by an accept verdict or with libnet. The contract \<open>fifo_stage\<close>
  carries over to chains of any length.
\<close>

section \<open>Chains of one kind of step\<close>

text \<open>
  A chain of \<open>n\<close> filters: \<open>step\<close> gives what a filter passes to the next one, \<open>sink\<close> what an output
  sends. Behind the last filter is no filter, and a step that would pass a packet there is none.
\<close>

primrec chain_step ::
  "('s \<Rightarrow> 'x list \<Rightarrow> 'x list \<Rightarrow> 's \<Rightarrow> bool) \<Rightarrow> ('s \<Rightarrow> 'x list \<Rightarrow> 'e list \<Rightarrow> 's \<Rightarrow> bool)
     \<Rightarrow> nat \<Rightarrow> 's list \<Rightarrow> 'x list \<Rightarrow> 'e list \<Rightarrow> 's list \<Rightarrow> bool" where
  "chain_step step sink 0 = (\<lambda>ss i out ss'. ss = [] \<and> ss' = [] \<and> i = [] \<and> out = [])"
| "chain_step step sink (Suc n) = (\<lambda>ss i out ss'. \<exists>s t s' t'. ss = s # t \<and> ss' = s' # t'
     \<and> (seq_step step (chain_step step sink n) (s, t) i out (s', t') \<or> sink s i out s' \<and> t' = t))"

lemma chain_stepE:
  assumes "chain_step step sink (Suc n) ss i out ss'"
  obtains (passed) s t s' t' mid where "ss = s # t" and "ss' = s' # t'" and "step s i mid s'"
      and "stage_run (chain_step step sink n) t mid out t'"
  | (behind) s t t' where "ss = s # t" and "ss' = s # t'" and "i = []" and "chain_step step sink n t [] out t'"
  | (sent) s t s' where "ss = s # t" and "ss' = s' # t" and "sink s i out s'"
  using assms by (auto elim!: seq_step.cases)

lemma chain_passed:
  "step s i mid s' \<Longrightarrow> stage_run (chain_step step sink n) t mid out t' \<Longrightarrow>
     chain_step step sink (Suc n) (s # t) i out (s' # t')"
  using seq_step.first [of step] by fastforce

lemma chain_behind: "chain_step step sink n t [] out t' \<Longrightarrow> chain_step step sink (Suc n) (s # t) [] out (s # t')"
  using seq_step.second [of "chain_step step sink n"] by fastforce

lemma chain_sent: "sink s i out s' \<Longrightarrow> chain_step step sink (Suc n) (s # t) i out (s' # t)"
  by simp

text \<open>A chain seen through functions of states, packets and what is sent.\<close>

lemma stage_run_map:
  assumes "stage_run step s xs ys s'"
    and "\<And>s i out s'. step s i out s' \<Longrightarrow> step' (f s) (map g i) (map h out) (f s')"
  shows "stage_run step' (f s) (map g xs) (map h ys) (f s')"
  using assms(1)
proof (induction rule: stage_run.induct)
  case (more xs ys s1 i out s2)
  from stage_run.more [OF more.IH assms(2) [OF more(2)]] show ?case by simp
qed (simp add: stage_run.empty)

lemma chain_step_map:
  assumes st: "\<And>s i out s'. step s i out s' \<Longrightarrow> step' (f s) (map g i) (map g out) (f s')"
    and sk: "\<And>s i out s'. sink s i out s' \<Longrightarrow> sink' (f s) (map g i) (map h out) (f s')"
  shows "chain_step step sink n ss i out ss' \<Longrightarrow> chain_step step' sink' n (map f ss) (map g i) (map h out) (map f ss')"
proof (induction n arbitrary: ss i out ss')
  case (Suc n)
  from Suc.prems show ?case
  proof (cases rule: chain_stepE)
    case (passed s t s' t' mid)
    have "stage_run (chain_step step' sink' n) (map f t) (map g mid) (map h out) (map f t')"
      by (rule stage_run_map [OF passed(4)]) (rule Suc.IH)
    from chain_passed [of step', OF st [OF passed(3)] this] show ?thesis by (simp only: passed(1,2) list.map)
  next
    case (behind s t t')
    from chain_behind [of step' sink', OF Suc.IH [OF behind(4), simplified]]
    show ?thesis by (simp only: behind(1-3) list.map)
  next
    case (sent s t s')
    from chain_sent [of sink', OF sk [OF sent(3)]] show ?thesis by (simp only: sent(1,2) list.map)
  qed
qed simp

lemma chain_run_map:
  assumes "stage_run (chain_step step sink n) ss ins outs ss'"
    and "\<And>s i out s'. step s i out s' \<Longrightarrow> step' (f s) (map g i) (map g out) (f s')"
    and "\<And>s i out s'. sink s i out s' \<Longrightarrow> sink' (f s) (map g i) (map h out) (f s')"
  shows "stage_run (chain_step step' sink' n) (map f ss) (map g ins) (map h outs) (map f ss')"
  by (rule stage_run_map [where f = "map f", OF assms(1)])
    (rule chain_step_map [of step step' f g sink sink' h, OF assms(2,3)])

text \<open>What holds of all that is sent.\<close>

lemma chain_step_sent:
  assumes "\<And>s i out s'. sink s i out s' \<Longrightarrow> list_all P out"
  shows "chain_step step sink n ss i out ss' \<Longrightarrow> list_all P out"
proof (induction n arbitrary: ss i out ss')
  case (Suc n)
  have run: "stage_run (chain_step step sink n) t ins outs t' \<Longrightarrow> list_all P outs" for t ins outs t'
  proof (induction rule: stage_run.induct)
    case (more xs ys s1 i out s2)
    from Suc.IH [OF more(2)] more.IH show ?case by simp
  qed simp
  from Suc.prems show ?case
  proof (cases rule: chain_stepE)
    case (passed s t s' t' mid)
    from run [OF passed(4)] show ?thesis .
  next
    case (behind s t t')
    from Suc.IH [OF behind(4)] show ?thesis .
  next
    case (sent s t s')
    from assms [OF sent(3)] show ?thesis .
  qed
qed simp

lemma chain_run_sent:
  assumes "stage_run (chain_step step sink n) ss ins outs ss'"
    and "\<And>s i out s'. sink s i out s' \<Longrightarrow> list_all P out"
  shows "list_all P outs"
  using assms(1)
proof (induction rule: stage_run.induct)
  case (more ins outs s i out s')
  have "list_all P out" by (rule chain_step_sent [OF _ more(2)]) (rule assms(2))
  with more.IH show ?case by simp
qed simp

section \<open>Order\<close>

definition chain_held :: "(bool \<Rightarrow> 's \<Rightarrow> ident list) \<Rightarrow> bool \<Rightarrow> 's list \<Rightarrow> ident list" where
  "chain_held held d ss = concat (rev (map (held d) ss))"

lemma chain_held_simps [simp]:
  "chain_held held d [] = []" "chain_held held d (s # ss) = chain_held held d ss @ held d s"
  by (simp_all add: chain_held_def)

text \<open>
  Filters and outputs that keep the order of a direction. What is behind an output (\<open>fin\<close>) never
  gets a packet; in an orderly chain it holds none.
\<close>

primrec orderly :: "(bool \<Rightarrow> 's \<Rightarrow> ident list) \<Rightarrow> ('s \<Rightarrow> bool) \<Rightarrow> ('s \<Rightarrow> bool) \<Rightarrow> 's list \<Rightarrow> bool" where
  "orderly held ok fin [] = True"
| "orderly held ok fin (s # t) =
     (ok s \<and> (fin s \<longrightarrow> (\<forall>d. chain_held held d t = [])) \<and> orderly held ok fin t)"

locale fifo_chain =
  fifo_stage step held ok + sink: fifo_stage sink held ok
  for step :: "'s \<Rightarrow> ident list \<Rightarrow> ident list \<Rightarrow> 's \<Rightarrow> bool" and sink and held and ok +
  fixes fin :: "'s \<Rightarrow> bool"
  assumes step_fin: "step s i out s' \<Longrightarrow> \<not> fin s \<and> \<not> fin s'"
    and sink_fin: "sink s i out s' \<Longrightarrow> fin s \<and> fin s'"
begin

lemma chain_fifo: "fifo_stage (chain_step step sink n) (chain_held held) (orderly held ok fin)"
proof (induction n)
  case 0
  show ?case by unfold_locales simp_all
next
  case (Suc n)
  note tail = fifo_stage.step_ok [OF Suc.IH] fifo_stage.step_order [OF Suc.IH]
    fifo_stage.run_ok [OF Suc.IH] fifo_stage.run_order [OF Suc.IH]
  have step: "orderly held ok fin ss'
      \<and> (\<forall>d. subseq (of_dir d out @ chain_held held d ss') (chain_held held d ss @ of_dir d i))"
    if st: "chain_step step sink (Suc n) ss i out ss'" and ok: "orderly held ok fin ss" for ss i out ss'
    using st
  proof (cases rule: chain_stepE)
    case (passed s t s' t' mid)
    have o: "ok s" "orderly held ok fin t" using ok passed(1) by simp_all
    have "subseq (of_dir d out @ chain_held held d t' @ held d s') (chain_held held d t @ held d s @ of_dir d i)" for d
      by (rule subseq_filter_append [OF tail(4) [OF passed(4) o(2)] step_order [OF passed(3) o(1)]])
    then show ?thesis
      using step_ok [OF passed(3) o(1)] tail(3) [OF passed(4) o(2)] step_fin [OF passed(3)] by (simp add: passed(1,2))
  next
    case (behind s t t')
    have o: "ok s" "orderly held ok fin t" "fin s \<longrightarrow> (\<forall>d. chain_held held d t = [])" using ok behind(1) by simp_all
    have q: "subseq (of_dir d out @ chain_held held d t') (chain_held held d t)" for d
      using tail(2) [OF behind(4) o(2), of d] by simp
    have "chain_held held d t' = []" if "fin s" for d
      using list_emb_length [OF q [of d]] o(3) that by simp
    moreover have "subseq (of_dir d out @ chain_held held d t' @ held d s) (chain_held held d t @ held d s)" for d
      using list_emb_append_mono [OF q subseq_order.refl, of d "held d s"] by simp
    ultimately show ?thesis using tail(1) [OF behind(4) o(2)] o(1) by (simp add: behind(1-3))
  next
    case (sent s t s')
    have o: "ok s" "orderly held ok fin t" "\<forall>d. chain_held held d t = []"
      using ok sink_fin [OF sent(3)] sent(1) by simp_all
    with sink.step_ok [OF sent(3)] sink.step_order [OF sent(3)] show ?thesis by (simp add: sent(1,2))
  qed
  show ?case by unfold_locales (use step in blast)+
qed

end

lemma orderly_empty: "list_all ok ss \<Longrightarrow> \<forall>s \<in> set ss. \<forall>d. held d s = [] \<Longrightarrow> orderly held ok fin ss"
  by (induction ss) (simp_all add: chain_held_def)

text \<open>Steps over packets, seen as steps over identities.\<close>

lemma ident_stepI: "step s i out s' \<Longrightarrow> ident_step step s (map ident i) (map ident out) s'"
  unfolding ident_step_def by blast

section \<open>Steps of a filter object\<close>

text \<open>The address translation as a filter: a packet is handled, or a timer or deleter runs.\<close>

inductive nat_filter_step :: "nat_handler \<Rightarrow> packet list \<Rightarrow> packet list \<Rightarrow> nat_handler \<Rightarrow> bool" where
  handle: "Nat_handlePacket now pkt n = Inr (opt, n') \<Longrightarrow>
    nat_filter_step n [pkt] (case opt of None \<Rightarrow> [] | Some q \<Rightarrow> [q]) n'"
| mapper_timer: "natMapper n = Some m \<Longrightarrow> mapper_tick m m' \<Longrightarrow>
    nat_filter_step n [] [] (n\<lparr>natMapper := Some m'\<rparr>)"
| filter_timer: "natFilter n = Some f \<Longrightarrow> Nat_Handler.filter_timer f f' \<Longrightarrow>
    nat_filter_step n [] [] (n\<lparr>natFilter := Some f'\<rparr>)"

text \<open>
  A step of an object that passes packets on, of any class; \<open>nat\<close> is the step of the address
  translation (none in the IPv6 chain). The burst filter runs in its critical sections.
\<close>

inductive obj_step ::
  "(nat_handler \<Rightarrow> 'a pkt list \<Rightarrow> 'a pkt list \<Rightarrow> nat_handler \<Rightarrow> bool)
     \<Rightarrow> 'a pkt stage_obj \<Rightarrow> 'a pkt list \<Rightarrow> 'a pkt list \<Rightarrow> 'a pkt stage_obj \<Rightarrow> bool"
  for nat where
  input: "Input_handlePacket pkt = (out, vs) \<Longrightarrow> obj_step nat FInput [pkt] out FInput"
| input_drop: "InputDrop_handlePacket pkt = (out, vs) \<Longrightarrow> obj_step nat FInputDrop [pkt] out FInputDrop"
| static_delay: "delay_step s i out s' \<Longrightarrow> obj_step nat (FStaticDelay s) i out (FStaticDelay s')"
| loss: "loss_step f i out f' \<Longrightarrow> obj_step nat (FLoss f) i out (FLoss f')"
| nat: "nat n i out n' \<Longrightarrow> obj_step nat (FNat n) i out (FNat n')"
| burst: "burst_race b i out b' \<Longrightarrow> obj_step nat (FBurst b) i out (FBurst b')"
| token_bucket: "tbf_step t i out t' \<Longrightarrow> obj_step nat (FTokenBucket t) i out (FTokenBucket t')"
| dynamic_delay: "dd_step (s, 0) i out (s', m) \<Longrightarrow> obj_step nat (FDynamicDelay s) i out (FDynamicDelay s')"
| dynamic_loss: "dl_step (f, 0) i out (f', m) \<Longrightarrow> obj_step nat (FDynamicLoss f) i out (FDynamicLoss f')"

text \<open>
  What leaves the router. After an accept verdict the kernel sends the packet that it holds under
  the id, as it was received (\<open>nfq_set_verdict\<close> is given no data); with libnet goes out
  what the calls up to a successful \<open>libnet_write\<close> describe. The packet object of the output
  is kept beside it.
\<close>

datatype egress = Accepted int | Written "libnet_call list"

type_synonym 'p sent = "'p \<times> egress"

text \<open>
  Steps of the outputs, which call no \<open>next_\<close>: what they send and the verdicts they set. A packet
  whose verdict is set already is not accepted again. \<open>build\<close> is what the libnet output of the
  chain builds; libnet calls may fail.
\<close>

inductive obj_send ::
  "((libnet_call \<Rightarrow> int) \<Rightarrow> 'a pkt \<Rightarrow> unit libnet_code)
     \<Rightarrow> 'a pkt stage_obj \<Rightarrow> 'a pkt list \<Rightarrow> 'a pkt sent list \<Rightarrow> verdict list \<Rightarrow> 'a pkt stage_obj \<Rightarrow> bool"
  for build where
  accept: "Output_handlePacket pkt = (q, vs) \<Longrightarrow>
    obj_send build FOutput [pkt] (map (\<lambda>v. (q, Accepted (fst v))) vs) vs FOutput"
| arrive: "obj_send build (FOutputLibnet s) [pkt] [] [] (FOutputLibnet (OutputLibnet_handlePacket pkt s))"
| pop: "k < length (outPosted s) \<Longrightarrow> outPosted s ! k = ((), ec, d) \<Longrightarrow>
    libnet_popHandler (build lib) reinit ec d (s\<lparr>outPosted := drop_nth k (outPosted s)\<rparr>) = (calls, Inr s') \<Longrightarrow>
    out = (if Write_packet \<in> set calls \<and> lib Write_packet \<noteq> -1
           then (case d of None \<Rightarrow> [] | Some p \<Rightarrow> [(p, Written calls)]) else []) \<Longrightarrow>
    obj_send build (FOutputLibnet s) [] out [] (FOutputLibnet s')"

definition obj_sink ::
  "((libnet_call \<Rightarrow> int) \<Rightarrow> 'a pkt \<Rightarrow> unit libnet_code)
     \<Rightarrow> 'a pkt stage_obj \<Rightarrow> 'a pkt list \<Rightarrow> 'a pkt sent list \<Rightarrow> 'a pkt stage_obj \<Rightarrow> bool" where
  "obj_sink build x i out x' \<longleftrightarrow> (\<exists>vs. obj_send build x i out vs x')"

text \<open>The steps of the libnet outputs are those of Outputs, with what was written.\<close>

lemma obj_send_libnet:
  assumes "obj_send build (FOutputLibnet s) i out vs x'"
  obtains s' where "x' = FOutputLibnet s'" and "vs = []" and "out_step build True s i (map fst out) s'"
  using assms
proof cases
  case (arrive pkt)
  show ?thesis by (rule that [OF arrive(4,3)]) (simp add: arrive(1,2) out_step.arrive)
next
  case (pop k ec d lib reinit calls s')
  show ?thesis
    by (rule that [OF pop(3,2)]) (use pop in \<open>auto intro!: out_step.pop split: option.split\<close>)
qed

lemma obj_send_output:
  assumes "obj_send build FOutput i out vs x'"
  obtains pkt where "x' = FOutput" and "i = [pkt]" and "vs = snd (setVerdict True pkt)"
    and "out = (if verdictSet pkt then [] else [(fst (setVerdict True pkt), Accepted (nfqID pkt))])"
  using assms by cases (auto simp: Output_handlePacket_def setVerdict_def split: if_splits)

fun obj_ok :: "'a pkt stage_obj \<Rightarrow> bool" where
  "obj_ok (FStaticDelay s) = delay_ok s"
| "obj_ok (FDynamicDelay s) = delay_ok s"
| "obj_ok (FTokenBucket t) = tbf_ok t"
| "obj_ok (FOutputLibnet s) = out_ok s"
| "obj_ok x = True"

fun obj_held :: "bool \<Rightarrow> 'a pkt stage_obj \<Rightarrow> ident list" where
  "obj_held d (FStaticDelay s) = of_dir d (map ident (delay_held s))"
| "obj_held d (FDynamicDelay s) = of_dir d (map ident (delay_held s))"
| "obj_held d (FBurst b) = of_dir d (map ident (burst_packets b))"
| "obj_held d (FTokenBucket t) = map ident (tbQueue (tb_of d t))"
| "obj_held d (FOutputLibnet s) = of_dir d (map ident (out_held s))"
| "obj_held d x = []"

lemma obj_step_kind: "obj_step nt x i out x' \<Longrightarrow> obj_kind x' = obj_kind x \<and> obj_kind x \<notin> {KOutput, KOutputLibnet}"
  by (induction rule: obj_step.induct) simp_all

lemma obj_send_kind: "obj_send build x i out vs x' \<Longrightarrow> obj_kind x' = obj_kind x \<and> obj_kind x \<in> {KOutput, KOutputLibnet}"
  by (induction rule: obj_send.induct) simp_all

lemma obj_step_ok: "obj_step nt x i out x' \<Longrightarrow> obj_ok x \<Longrightarrow> obj_ok x'"
proof (induction rule: obj_step.induct)
  case (token_bucket t i out t')
  from tbf_step_projects [OF token_bucket(1)] token_bucket(2) show ?case by simp
next
  case (dynamic_delay s i out s' m)
  from dd_step_ok [OF dynamic_delay(1)] dynamic_delay(2) show ?case by simp
qed (simp_all add: delay_step_ok)

text \<open>The identity of what is sent.\<close>

definition sent_ident :: "'a pkt sent \<Rightarrow> ident" where
  "sent_ident x = ident (fst x)"

definition sent_step ::
  "('s \<Rightarrow> 'a pkt list \<Rightarrow> 'a pkt sent list \<Rightarrow> 's \<Rightarrow> bool) \<Rightarrow> 's \<Rightarrow> ident list \<Rightarrow> ident list \<Rightarrow> 's \<Rightarrow> bool" where
  "sent_step sink s i out s' \<longleftrightarrow> (\<exists>ps es. sink s ps es s' \<and> i = map ident ps \<and> out = map sent_ident es)"

locale chain_filters = libnet_output build
  for build :: "(libnet_call \<Rightarrow> int) \<Rightarrow> 'a parent_packet_scheme \<Rightarrow> unit libnet_code" +
  fixes nat :: "nat_handler \<Rightarrow> 'a parent_packet_scheme list \<Rightarrow> 'a parent_packet_scheme list \<Rightarrow> nat_handler \<Rightarrow> bool"
  assumes nat_passes: "nat n i out n' \<Longrightarrow> subseq (map ident out) (map ident i)"
begin

lemma obj_step_order:
  "obj_step nat s i out s' \<Longrightarrow> obj_ok s \<Longrightarrow> obj_kind s \<noteq> KBurst \<Longrightarrow>
     subseq (of_dir d (map ident out) @ obj_held d s') (obj_held d s @ of_dir d (map ident i))"
proof (induction rule: obj_step.induct)
  case (input pkt out vs)
  then show ?case by (simp add: Input_handlePacket_def)
next
  case (input_drop pkt out vs)
  then have "out = [fst (setVerdict False pkt)]"
    by (auto simp: InputDrop_handlePacket_def split: prod.splits)
  then show ?case by simp
next
  case (static_delay s i out s')
  from static_delay(1) have "ident_step delay_step s (map ident i) (map ident out) s'" by (rule ident_stepI)
  from delay.step_order [OF this, of d] static_delay(2) show ?case by simp
next
  case (loss f i out f')
  from loss(1) have "ident_step (loss_step :: _ \<Rightarrow> 'a pkt list \<Rightarrow> 'a pkt list \<Rightarrow> _) f (map ident i) (map ident out) f'" by (rule ident_stepI)
  from loss.step_order [OF this, of d] show ?case by simp
next
  case (nat n i out n')
  from subseq_of_dir [OF nat_passes [OF nat(1)], of d] show ?case by simp
next
  case (token_bucket t i out t')
  from token_bucket(1) have "ident_step tbf_step t (map ident i) (map ident out) t'" by (rule ident_stepI)
  from tbf.step_order [OF this, of d] token_bucket(2) show ?case by simp
next
  case (dynamic_delay s i out s' m)
  from dynamic_delay(1) have "ident_step dd_step (s, 0) (map ident i) (map ident out) (s', m)" by (rule ident_stepI)
  from dynamic_delay.step_order [OF this, of d] dynamic_delay(2) show ?case by simp
next
  case (dynamic_loss f i out f' m)
  from dynamic_loss(1) have "ident_step (dl_step :: _ \<Rightarrow> 'a pkt list \<Rightarrow> 'a pkt list \<Rightarrow> _) (f, 0) (map ident i) (map ident out) (f', m)" by (rule ident_stepI)
  from dynamic_loss.step_order [OF this, of d] show ?case by simp
qed simp

lemma obj_send_order:
  assumes "obj_send build s i out vs s'" and "obj_ok s"
  shows "obj_ok s' \<and> subseq (of_dir d (map sent_ident out) @ obj_held d s') (obj_held d s @ of_dir d (map ident i))"
proof (cases "obj_kind s = KOutput")
  case True
  then have s: "s = FOutput" by (cases s) simp_all
  from assms(1) [unfolded s] show ?thesis
    by (rule obj_send_output) (auto simp: s sent_ident_def)
next
  case False
  then obtain l where s: "s = FOutputLibnet l" using obj_send_kind [OF assms(1)] by (cases s) simp_all
  from assms(1) [unfolded s] obtain l' where l: "s' = FOutputLibnet l'" "out_step build True l i (map fst out) l'"
    by (rule obj_send_libnet)
  from out_step_effect [OF l(2)] assms(2)
  have e: "out_ok l'" "subseq (map fst out @ out_held l') (out_held l @ i)" by (simp_all add: s)
  from subseq_of_dir [OF subseq_map [OF e(2), of ident], of d] e(1) show ?thesis
    by (simp add: s l(1) sent_ident_def [abs_def] comp_def)
qed

text \<open>In a chain without burst filter.\<close>

definition in_order :: "'a pkt stage_obj \<Rightarrow> bool" where
  "in_order x \<longleftrightarrow> obj_ok x \<and> obj_kind x \<noteq> KBurst"

lemma obj_fifo: "fifo_chain (ident_step (obj_step nat)) (sent_step (obj_sink build)) obj_held in_order
  (\<lambda>x. obj_kind x \<in> {KOutput, KOutputLibnet})"
proof
  fix s s' :: "'a pkt stage_obj" and i out d
  assume "ident_step (obj_step nat) s i out s'"
  then obtain ps qs where p: "obj_step nat s ps qs s'" "i = map ident ps" "out = map ident qs"
    by (auto simp: ident_step_def)
  show "obj_kind s \<notin> {KOutput, KOutputLibnet} \<and> obj_kind s' \<notin> {KOutput, KOutputLibnet}"
    using obj_step_kind [OF p(1)] by simp
  assume "in_order s"
  with obj_step_order [OF p(1)] obj_step_ok [OF p(1)] obj_step_kind [OF p(1)] p
  show "in_order s'" "subseq (of_dir d out @ obj_held d s') (obj_held d s @ of_dir d i)"
    by (simp_all add: in_order_def)
next
  fix s s' :: "'a pkt stage_obj" and i out d
  assume "sent_step (obj_sink build) s i out s'"
  then obtain ps es vs where p: "obj_send build s ps es vs s'" "i = map ident ps" "out = map sent_ident es"
    by (auto simp: sent_step_def obj_sink_def)
  show "obj_kind s \<in> {KOutput, KOutputLibnet} \<and> obj_kind s' \<in> {KOutput, KOutputLibnet}"
    using obj_send_kind [OF p(1)] by simp
  assume "in_order s"
  with obj_send_order [OF p(1)] obj_send_kind [OF p(1)] p
  show "in_order s'" "subseq (of_dir d out @ obj_held d s') (obj_held d s @ of_dir d i)"
    by (auto simp: in_order_def)
qed

text \<open>What is sent by a chain that held nothing, followed by what it holds.\<close>

lemma chain_order_held:
  assumes "stage_run (chain_step (obj_step nat) (obj_sink build) n) ss ins outs ss'"
    and "list_all obj_ok ss" and "\<forall>x \<in> set ss. \<forall>d. obj_held d x = []" and "KBurst \<notin> set (map obj_kind ss)"
  shows "subseq (of_dir d (map sent_ident outs) @ chain_held obj_held d ss') (of_dir d (map ident ins))"
proof -
  have "stage_run (chain_step (ident_step (obj_step nat)) (sent_step (obj_sink build)) n) (map id ss)
      (map ident ins) (map sent_ident outs) (map id ss')"
    by (rule chain_run_map [OF assms(1)]) (auto simp: ident_stepI sent_step_def)
  then have run: "stage_run (chain_step (ident_step (obj_step nat)) (sent_step (obj_sink build)) n) ss
      (map ident ins) (map sent_ident outs) ss'" by simp
  have "list_all in_order ss" using assms(2,4) by (force simp: list_all_iff in_order_def)
  from orderly_empty [OF this assms(3)]
  have o: "orderly obj_held in_order (\<lambda>x. obj_kind x \<in> {KOutput, KOutputLibnet}) ss" .
  have "chain_held obj_held d ss = []" using assms(3) by (simp add: chain_held_def)
  with fifo_stage.run_order [OF fifo_chain.chain_fifo [OF obj_fifo] run o, of d] show ?thesis by simp
qed

lemma chain_order:
  assumes "stage_run (chain_step (obj_step nat) (obj_sink build) n) ss ins outs ss'"
    and "list_all obj_ok ss" and "\<forall>x \<in> set ss. \<forall>d. obj_held d x = []" and "KBurst \<notin> set (map obj_kind ss)"
  shows "subseq (of_dir d (map sent_ident outs)) (of_dir d (map ident ins))"
  using subseq_append_left [OF chain_order_held [OF assms, of d]] .

text \<open>What is sent is an accept verdict for the packet, or the calls that the output builds of it.\<close>

definition sent_well :: "'a pkt sent \<Rightarrow> bool" where
  "sent_well x \<longleftrightarrow> (case snd x of Accepted i \<Rightarrow> i = nfqID (fst x)
     | Written calls \<Rightarrow> \<exists>lib. build lib (fst x) = (calls, Inr ()))"

lemma obj_send_well: "obj_send build s i out vs s' \<Longrightarrow> list_all sent_well out"
proof (induction rule: obj_send.induct)
  case (accept pkt q vs)
  then show ?case by (auto simp: Output_handlePacket_def setVerdict_def sent_well_def split: if_splits)
next
  case (pop k s ec d lib reinit calls s' out)
  show ?case
  proof (cases "Write_packet \<in> set calls \<and> lib Write_packet \<noteq> -1 \<and> d \<noteq> None")
    case True
    then obtain p where p: "d = Some p" by blast
    then have "calls = fst (build lib p)"
      using pop(3) True by (cases ec) (auto simp: libnet_popHandler_def Let_def split: if_splits)
    moreover from this True have "snd (build lib p) = Inr ()" using completes [of lib p] by simp
    ultimately have "build lib p = (calls, Inr ())" by (simp add: prod_eq_iff)
    then show ?thesis using True by (auto simp: pop(4) p sent_well_def)
  next
    case False
    then show ?thesis by (auto simp: pop(4) split: option.split)
  qed
qed simp

lemma chain_sent_well:
  assumes "stage_run (chain_step (obj_step nat) (obj_sink build) n) ss ins outs ss'"
  shows "list_all sent_well outs"
  by (rule chain_run_sent [OF assms]) (auto simp: obj_sink_def dest: obj_send_well)

end

section \<open>The two chains\<close>

text \<open>The address translation rewrites addresses and ports only.\<close>

lemma mapper_ident:
  "NatMapper_mapPacket now pkt m = (b, q, m') \<Longrightarrow> ident q = ident pkt"
  "SymNatMapper_mapPacket now pkt s = Some (b, q, s') \<Longrightarrow> ident q = ident pkt"
  by (auto simp: NatMapper_mapPacket_def SymNatMapper_mapPacket_def checkDnat_def ident_def Let_def
      split: prod.splits option.splits if_splits)

lemma mapPacket_ident: "mapPacket now pkt mo = Inr (b, q, m') \<Longrightarrow> ident q = ident pkt"
  by (auto simp: mapPacket_def split: option.splits mapper_obj.splits prod.splits dest: mapper_ident)

lemma nat_packet_ident: "Nat_handlePacket now pkt n = Inr (Some q, n') \<Longrightarrow> ident q = ident pkt"
  by (auto simp: Nat_handlePacket_def try_bind_Inr_iff dest: mapPacket_ident split: if_splits)

interpretation ipv4: chain_filters OutputLibnet_build nat_filter_step
proof
  fix n n' i out
  assume "nat_filter_step n i out n'"
  then show "subseq (map ident out) (map ident i)"
    by cases (auto simp: nat_packet_ident split: option.splits)
qed

interpretation ipv6: chain_filters Output6Libnet_build "\<lambda>n i out n'. False"
  by unfold_locales simp

interpretation order4: fifo_chain "ident_step (obj_step nat_filter_step)" "sent_step (obj_sink OutputLibnet_build)"
  obj_held ipv4.in_order "\<lambda>x. obj_kind x \<in> {KOutput, KOutputLibnet}"
  by (rule ipv4.obj_fifo)

interpretation order6: fifo_chain "ident_step (obj_step (\<lambda>n i out n'. False))" "sent_step (obj_sink Output6Libnet_build)"
  obj_held ipv6.in_order "\<lambda>x. obj_kind x \<in> {KOutput, KOutputLibnet}"
  by (rule ipv6.obj_fifo)

end
