(* ===== verification/Router_Ready.thy ===== *)
theory Router_Ready
  imports Router_Chain
begin

text \<open>
  From construction to a running chain: the configuration calls leave the links and the
  members alone and keep an object as unused as it was; \<open>initFilters\<close> and \<open>init6Filters\<close>
  call \<open>init\<close> of every object that a member points to; after that, if every filter of the
  chain is the only one of its class, all of them satisfy the invariant of a running filter.
\<close>

section \<open>Unused objects\<close>

definition core_fresh :: "('p, 'z) delay_core_scheme \<Rightarrow> bool" where
  "core_fresh s \<longleftrightarrow> aq_ok (pktQueue s) \<and> callback (pktQueue s) = None \<and> posted s = [] \<and> timers s = []
     \<and> theQueue (pktQueue s) = []"

fun obj_fresh :: "'a pkt stage_obj \<Rightarrow> bool" where
  "obj_fresh (FStaticDelay s) = core_fresh s"
| "obj_fresh (FDynamicDelay s) = core_fresh s"
| "obj_fresh (FBurst b) = (burst_packets b = [] \<and> burstQueue b = [] \<and> burstDrain b = None)"
| "obj_fresh (FTokenBucket t) = tbf_fresh t"
| "obj_fresh (FOutputLibnet s) = (aq_ok (outQueue s) \<and> callback (outQueue s) = None \<and> outPosted s = []
     \<and> theQueue (outQueue s) = [])"
| "obj_fresh x = True"

lemma fresh_make: "obj_fresh (make_obj env k)"
  by (cases k) (simp_all add: core_fresh_def StaticDelay_new_def DynamicDelay_new_def Burst_new_def burst_packets_def
      libnet_out_new_def tbf_fresh_new, simp_all add: AsyncQueue_def)

lemma core_fresh_pop:
  assumes "core_fresh s"
  shows "delay_ok (delay_asyncPop s)" and "delay_held (delay_asyncPop s) = []"
  using delay_asyncPop_ok [of s] assms by (simp_all add: core_fresh_def delay_held_def)

text \<open>
  A filter as its \<open>init\<close> leaves it: it satisfies its invariant and holds nothing, the address
  translation has its new mapper and filter.
\<close>

definition obj_started :: "'a pkt stage_obj \<Rightarrow> bool" where
  "obj_started x \<longleftrightarrow> obj_ok x \<and> (\<forall>d. obj_held d x = []) \<and> (\<forall>n. x = FNat n \<longrightarrow> (\<exists>m. n = snd (Nat_init m)))"

lemma obj_startedD: "obj_started x \<Longrightarrow> obj_ok x \<and> (\<forall>d. obj_held d x = [])"
  by (simp add: obj_started_def)

text \<open>\<open>init\<close> of an unused object succeeds, sends nothing, and makes it a running filter.\<close>

lemma obj_init_fresh:
  assumes "obj_init env x = Inr (b, out, y)" and "obj_fresh x"
  shows "b" and "out = []" and "obj_started y" and "obj_kind y = obj_kind x"
proof -
  have all: "b \<and> out = [] \<and> obj_ok y \<and> obj_held d y = [] \<and> obj_kind y = obj_kind x" for d
  proof (cases x)
    case (FStaticDelay s)
    then show ?thesis using assms by (auto simp: StaticDelay_init_def core_fresh_pop)
  next
    case (FDynamicDelay s)
    then show ?thesis using assms by (auto simp: DynamicDelay_init_def core_fresh_pop)
  next
    case (FBurst s)
    then show ?thesis using assms by (auto simp: Burst_init_def burst_packets_def split: if_splits)
  next
    case (FTokenBucket t)
    then obtain t' where t: "TokenBucketFilter_init (init_in env) (init_out env) t = (b, out, t')" "y = FTokenBucket t'"
      using assms(1) by (auto split: prod.splits)
    have "tbf_fresh t" using assms(2) FTokenBucket by simp
    from tbf_init_ok [OF this t(1)] show ?thesis by (simp add: t(2) FTokenBucket)
  next
    case (FOutputLibnet s)
    then show ?thesis using assms libnet_asyncPop_ok [of s]
      by (auto simp: OutputLibnet_init_def out_held_def)
  next
    case (FNat n)
    then show ?thesis using assms(1) by (auto simp: Nat_init_def Let_def split: prod.splits)
  next
    case (FDynamicLoss s)
    then show ?thesis using assms(1) by (auto simp: DynamicLoss_init_def try_bind_Inr_iff)
  qed (use assms(1) in auto)
  have "\<exists>m. n = snd (Nat_init m)" if "y = FNat n" for n
    using assms(1) that by (cases x) (auto simp: try_bind_Inr_iff split: prod.splits, metis snd_conv)
  with all show "b" "out = []" "obj_started y" "obj_kind y = obj_kind x" by (simp_all add: obj_started_def)
qed

section \<open>Configured chains\<close>

definition configured :: "'a pkt chain \<Rightarrow> 'a pkt chain \<Rightarrow> bool" where
  "configured c c' \<longleftrightarrow> slot c' = slot c \<and> start_filter c' = start_filter c
     \<and> map snd (objects c') = map snd (objects c)
     \<and> map (obj_kind \<circ> fst) (objects c') = map (obj_kind \<circ> fst) (objects c)
     \<and> (list_all (obj_fresh \<circ> fst) (objects c) \<longrightarrow> list_all (obj_fresh \<circ> fst) (objects c'))"

lemma configured_refl [simp]: "configured c c"
  by (simp add: configured_def)

lemma configured_trans: "configured c c' \<Longrightarrow> configured c' c'' \<Longrightarrow> configured c c''"
  by (simp add: configured_def)

definition config_call :: "('a pkt stage_obj \<Rightarrow> 'a pkt stage_obj) \<Rightarrow> bool" where
  "config_call f \<longleftrightarrow> (\<forall>x. obj_kind (f x) = obj_kind x \<and> (obj_fresh x \<longrightarrow> obj_fresh (f x)))"

lemma map_update_same: "i < length xs \<Longrightarrow> f y = f (xs ! i) \<Longrightarrow> map f (xs[i := y]) = map f xs"
  by (simp add: map_update list_update_same_conv)

lemma configured_update:
  assumes "obj_kind y = obj_kind (fst (objects c ! i))" and "obj_fresh (fst (objects c ! i)) \<longrightarrow> obj_fresh y"
  shows "configured c (c\<lparr>objects := (objects c)[i := (y, snd (objects c ! i))]\<rparr>)"
proof (cases "i < length (objects c)")
  case True
  have "list_all (obj_fresh \<circ> fst) (objects c) \<longrightarrow> list_all (obj_fresh \<circ> fst) ((objects c)[i := (y, snd (objects c ! i))])"
    using assms(2) True by (auto simp: list_all_length nth_list_update)
  with assms(1) True show ?thesis by (simp add: configured_def map_update_same)
qed (simp add: configured_def list_update_beyond)

lemma configured_update_slot: "config_call f \<Longrightarrow> configured c (update_slot k f c)"
  by (auto simp: update_slot_def config_call_def split: option.split intro!: configured_update)

lemma config_calls:
  "config_call (on_delay (setDelay d))" "config_call (on_loss g)" "config_call (on_nat h)"
  "config_call (on_dynloss u)" "config_call (on_burst (setBurstDuration d))" "config_call (on_burst (setSleepDuration d))"
  "(\<And>t. tbf_fresh t \<Longrightarrow> tbf_fresh (v t)) \<Longrightarrow> config_call (on_tbf v)"
  unfolding config_call_def
  by (intro allI, rename_tac x, case_tac x; simp add: setDelay_def core_fresh_def
      setBurstDuration_def setSleepDuration_def burst_packets_def)+

lemma fold_push_fresh: "core_fresh s \<Longrightarrow> core_fresh (fold delayQ_push ds s)"
  by (induction ds arbitrary: s) (simp_all add: core_fresh_def)

lemma setDelays_fresh: "setDelays d res s = Inr (curve, s') \<Longrightarrow> core_fresh s \<Longrightarrow> core_fresh s'"
  by (auto simp: setDelays_def Let_def fold_push_fresh split: list.splits)

lemma configured_setDelays:
  assumes "chain_setDelays d res c = Inr c'"
  shows "configured c c'"
proof (cases "slot c KDynamicDelay")
  case None
  then show ?thesis using assms by (simp add: chain_setDelays_def)
next
  case (Some i)
  obtain x nx where x: "objects c ! i = (x, nx)" by (cases "objects c ! i")
  show ?thesis
  proof (cases x)
    case (FDynamicDelay s)
    with assms Some x obtain curve s' where r: "setDelays d res s = Inr (curve, s')"
      "c' = c\<lparr>objects := (objects c)[i := (FDynamicDelay s', nx)]\<rparr>"
      by (auto simp: chain_setDelays_def try_bind_Inr_iff)
    show ?thesis unfolding r(2)
      using configured_update [of "FDynamicDelay s'" c i] setDelays_fresh [OF r(1)] by (simp add: x FDynamicDelay)
  qed (use assms Some x in \<open>auto simp: chain_setDelays_def\<close>)
qed

section \<open>After the initialisation\<close>

definition slots_fit :: "'a pkt chain \<Rightarrow> bool" where
  "slots_fit c \<longleftrightarrow> (\<forall>k i. slot c k = Some i \<longrightarrow> i < length (objects c) \<and> obj_kind (fst (objects c ! i)) = k)"

lemma init_slot_one:
  fixes c :: "'a pkt chain"
  assumes fit: "slots_fit c" and k: "slot c k = Some i"
    and x: "obj_init env (fst (objects c ! i)) = Inr (b, out, x)" and fresh: "obj_fresh (fst (objects c ! i))"
  defines "c1 \<equiv> c\<lparr>objects := (objects c)[i := (x, snd (objects c ! i))]\<rparr>"
  shows "b" and "out = []" and "slots_fit c1" and "slot c1 = slot c" and "start_filter c1 = start_filter c"
    and "map snd (objects c1) = map snd (objects c)"
    and "obj_started (fst (objects c1 ! i))"
    and "slot c k' = Some j \<Longrightarrow> k' \<noteq> k \<Longrightarrow> objects c1 ! j = objects c ! j"
proof -
  note F = obj_init_fresh [OF x fresh]
  have i: "i < length (objects c)" "obj_kind (fst (objects c ! i)) = k"
    using fit k by (auto simp: slots_fit_def)
  show "b" "out = []" by (rule F(1), rule F(2))
  show "slot c1 = slot c" "start_filter c1 = start_filter c" "map snd (objects c1) = map snd (objects c)"
    "obj_started (fst (objects c1 ! i))"
    using i(1) F(3) by (simp_all add: c1_def map_update_same)
  show "slots_fit c1" using fit i F(4) by (auto simp: slots_fit_def c1_def nth_list_update)
  show "objects c1 ! j = objects c ! j" if "slot c k' = Some j" "k' \<noteq> k"
    using fit i that by (auto simp: slots_fit_def c1_def nth_list_update)
qed

text \<open>
  When all objects are unused and all \<open>init\<close> calls return, each object that a member points
  to is a running filter, and the links are as they were.
\<close>

lemma init_slots_effect:
  assumes "init_slots env ok ks c = Inr (b, out, c')" and "distinct ks" and "slots_fit c"
    and "\<forall>k i. k \<in> set ks \<and> slot c k = Some i \<longrightarrow> obj_fresh (fst (objects c ! i))"
  shows "b \<and> out = [] \<and> slot c' = slot c \<and> start_filter c' = start_filter c
    \<and> map snd (objects c') = map snd (objects c)
    \<and> (\<forall>k i. slot c k = Some i \<longrightarrow>
         (if k \<in> set ks then obj_started (fst (objects c' ! i)) else objects c' ! i = objects c ! i))"
  using assms
proof (induction ks arbitrary: c b out)
  case Nil
  then show ?case by simp
next
  case (Cons k ks)
  show ?case
  proof (cases "slot c k")
    case None
    with Cons.prems have p: "init_slots env ok ks c = Inr (b, out, c')" "distinct ks"
      "\<forall>k i. k \<in> set ks \<and> slot c k = Some i \<longrightarrow> obj_fresh (fst (objects c ! i))" by auto
    have "(x \<in> set (k # ks)) = (x \<in> set ks)" if "slot c x = Some i" for x i using that None by auto
    with Cons.IH [OF p(1,2) Cons.prems(3) p(3)] show ?thesis by simp
  next
    case (Some i)
    obtain b1 o1 x where x: "obj_init env (fst (objects c ! i)) = Inr (b1, o1, x)"
      using Cons.prems(1) Some by (auto simp: try_bind_Inr_iff split: if_splits)
    have fresh: "obj_fresh (fst (objects c ! i))" using Cons.prems(4) Some by auto
    note O = init_slot_one [OF Cons.prems(3) Some x fresh]
    define c1 where "c1 = c\<lparr>objects := (objects c)[i := (x, snd (objects c ! i))]\<rparr>"
    note O = O [folded c1_def]
    obtain b2 o2 where r: "init_slots env ok ks c1 = Inr (b2, o2, c')" "b = b2" "out = o1 @ o2"
      using Cons.prems(1) Some x O(1) by (auto simp: try_bind_Inr_iff c1_def Let_def split: if_splits)
    have "\<forall>k' j. k' \<in> set ks \<and> slot c1 k' = Some j \<longrightarrow> obj_fresh (fst (objects c1 ! j))"
      using Cons.prems(2,4) O(4,8) by (metis distinct.simps(2) list.set_intros(2))
    from Cons.IH [OF r(1) _ O(3) this] Cons.prems(2)
    have IH: "b2" "o2 = []" "slot c' = slot c" "start_filter c' = start_filter c"
      "map snd (objects c') = map snd (objects c)"
      "\<And>k' j. slot c k' = Some j \<Longrightarrow> k' \<in> set ks \<Longrightarrow> obj_started (fst (objects c' ! j))"
      "\<And>k' j. slot c k' = Some j \<Longrightarrow> k' \<notin> set ks \<Longrightarrow> objects c' ! j = objects c1 ! j"
      using O(4-6) by auto
    have "objects c' ! i = objects c1 ! i" using IH(7) [OF Some] Cons.prems(2) by simp
    then have here: "obj_started (fst (objects c' ! i))"
      using O(7) by simp
    have rest: "if k' \<in> set (k # ks) then obj_started (fst (objects c' ! j))
          else objects c' ! j = objects c ! j" if "slot c k' = Some j" for k' j
      using here that Some IH(6,7) [OF that] O(8) [OF that] by (cases "k' = k") auto
    show ?thesis using IH(1-5) r(2,3) O(2) rest by blast
  qed
qed

lemma obj_init_kind: "obj_init env x = Inr (b, out, y) \<Longrightarrow> obj_kind y = obj_kind x"
  by (cases x) (auto simp: try_bind_Inr_iff split: prod.splits)

lemma init_slots_kinds:
  "init_slots env ok ks c = Inr (b, out, c') \<Longrightarrow> map (obj_kind \<circ> fst) (objects c') = map (obj_kind \<circ> fst) (objects c)"
proof (induction env ok ks c arbitrary: b out c' rule: init_slots.induct)
  case (2 env ok k ks c)
  show ?case
  proof (cases "slot c k")
    case None
    then show ?thesis using 2 by auto
  next
    case (Some i)
    obtain b1 o1 x where x: "obj_init env (fst (objects c ! i)) = Inr (b1, o1, x)"
      using 2(3) Some by (auto simp: try_bind_Inr_iff split: if_splits)
    have "map (\<lambda>a. obj_kind (fst a)) ((objects c)[i := (x, snd (objects c ! i))]) = map (\<lambda>a. obj_kind (fst a)) (objects c)"
      using obj_init_kind [OF x] by (cases "i < length (objects c)") (simp_all add: map_update_same list_update_beyond)
    then show ?thesis
      using 2 Some x by (auto simp: try_bind_Inr_iff Let_def split: if_splits)
  qed
qed simp

lemma distinct_later: "distinct ks \<Longrightarrow> i < length ks \<Longrightarrow> ks ! i \<notin> set (drop (Suc i) ks)"
  by (induction ks arbitrary: i) (auto simp: nth_Cons split: nat.split)

lemma follow_cong:
  "\<forall>i \<in> set (follow os f p). i < length os \<Longrightarrow> map snd os' = map snd os \<Longrightarrow> follow os' f p = follow os f p"
proof (induction os f p rule: follow.induct)
  case (3 os f i)
  have "length os' = length os" using 3(3) by (metis length_map)
  then have "snd (os' ! i) = snd (os ! i)" using 3(2) arg_cong [OF 3(3), of "\<lambda>xs. xs ! i"] by simp
  with 3 show ?case by simp
qed simp_all

text \<open>
  Constructed, configured, initialised: if a member points to each object of the chain, all
  filters of the chain run and hold nothing.
\<close>

lemma chain_ready:
  assumes "slots_fit c0" and "list_all (obj_fresh \<circ> fst) (objects c0)"
    and "\<forall>i \<in> set (chain_path c0). \<exists>k \<in> set order. slot c0 k = Some i"
    and "configured c0 c" and "init_slots env ok order c = Inr (b, out, c')" and "distinct order"
  shows "b \<and> out = [] \<and> list_all obj_ok (chain_objs c') \<and> chain_held obj_held d (chain_objs c') = []"
    and "map obj_kind (chain_objs c') = map obj_kind (chain_objs c0)"
    and "\<forall>x \<in> set (chain_objs c'). obj_started x"
proof -
  have C: "slot c = slot c0" "start_filter c = start_filter c0" "map snd (objects c) = map snd (objects c0)"
    "map (obj_kind \<circ> fst) (objects c) = map (obj_kind \<circ> fst) (objects c0)"
    "list_all (obj_fresh \<circ> fst) (objects c)"
    using assms(2,4) by (simp_all add: configured_def)
  have n: "length (objects c) = length (objects c0)" using C(3) by (metis length_map)
  have kind: "obj_kind (fst (objects c ! i)) = obj_kind (fst (objects c0 ! i))" if "i < length (objects c0)" for i
    using arg_cong [OF C(4), of "\<lambda>xs. xs ! i"] that n by simp
  have fit: "slots_fit c" using assms(1) kind by (auto simp: slots_fit_def C(1) n)
  have "\<forall>k i. k \<in> set order \<and> slot c k = Some i \<longrightarrow> obj_fresh (fst (objects c ! i))"
    using fit C(5) by (auto simp: slots_fit_def list_all_length)
  from init_slots_effect [OF assms(5,6) fit this]
  have E: "b" "out = []" "slot c' = slot c" "start_filter c' = start_filter c" "map snd (objects c') = map snd (objects c)"
    "\<And>k i. slot c k = Some i \<Longrightarrow> k \<in> set order \<Longrightarrow> obj_started (fst (objects c' ! i))"
    by auto
  have m: "map snd (objects c') = map snd (objects c0)" using E(5) C(3) by simp
  then have n': "length (objects c') = length (objects c0)" by (metis length_map)
  have "\<forall>i \<in> set (chain_path c0). i < length (objects c0)" using assms(1,3) by (auto simp: slots_fit_def)
  then have p: "chain_path c' = chain_path c0"
    unfolding chain_path_def n' E(4) C(2) by (rule follow_cong) (rule m)
  have k: "map (obj_kind \<circ> fst) (objects c') = map (obj_kind \<circ> fst) (objects c0)"
    using init_slots_kinds [OF assms(5)] C(4) by simp
  have "obj_kind (fst (objects c' ! i)) = obj_kind (fst (objects c0 ! i))" if "i < length (objects c0)" for i
    using arg_cong [OF k, of "\<lambda>xs. xs ! i"] that n' by simp
  with \<open>\<forall>i \<in> set (chain_path c0). i < length (objects c0)\<close>
  show "map obj_kind (chain_objs c') = map obj_kind (chain_objs c0)" by (simp add: chain_objs_def p)
  show started: "\<forall>x \<in> set (chain_objs c'). obj_started x"
    using assms(3) E(6) C(1) by (fastforce simp: chain_objs_def p)
  then have "list_all obj_ok (chain_objs c')" "chain_held obj_held d (chain_objs c') = []"
    by (simp_all add: list_all_iff chain_held_def obj_started_def)
  then show "b \<and> out = [] \<and> list_all obj_ok (chain_objs c') \<and> chain_held obj_held d (chain_objs c') = []"
    using E(1,2) by blast
qed

text \<open>The chains of \<open>init\<close> with a list of different filters.\<close>

lemma topo_ready:
  assumes "topo env c (Some l) ks" and "distinct ks" and "set ks \<subseteq> set order"
  shows "slots_fit c" and "list_all (obj_fresh \<circ> fst) (objects c)"
    and "\<forall>i \<in> set (chain_path c). \<exists>k \<in> set order. slot c k = Some i"
proof -
  from assms(1) have o: "map fst (objects c) = map (make_obj env) ks"
    and sl: "\<And>k i. slot c k = Some i \<longleftrightarrow> i < length ks \<and> ks ! i = k \<and> k \<notin> set (drop (Suc i) ks)"
    unfolding topo_def by blast+
  have n: "length (objects c) = length ks" using o by (metis length_map)
  have x: "fst (objects c ! i) = make_obj env (ks ! i)" if "i < length ks" for i
    using arg_cong [OF o, of "\<lambda>xs. xs ! i"] that n by simp
  show "slots_fit c" using sl x by (auto simp: slots_fit_def n)
  show "list_all (obj_fresh \<circ> fst) (objects c)" using x by (simp add: list_all_length n fresh_make)
  obtain s where "chain_path c = [s ..< length ks]" using topo_path(2) [OF assms(1)] by blast
  then show "\<forall>i \<in> set (chain_path c). \<exists>k \<in> set order. slot c k = Some i"
    using sl distinct_later [OF assms(2)] assms(3) by (fastforce simp: subset_iff)
qed

section \<open>A filter listed twice\<close>

lemma init_slots_other:
  "init_slots env ok ks c = Inr (b, out, c') \<Longrightarrow> \<forall>k. slot c k \<noteq> Some i \<Longrightarrow> objects c' ! i = objects c ! i"
proof (induction env ok ks c arbitrary: b out c' rule: init_slots.induct)
  case (2 env ok k ks c)
  show ?case
  proof (cases "slot c k")
    case None
    then show ?thesis using 2 by auto
  next
    case (Some j)
    then have "j \<noteq> i" using 2(4) by auto
    then show ?thesis
      using 2 Some by (auto simp: try_bind_Inr_iff Let_def split: if_splits)
  qed
qed simp

text \<open>A delay filter that was never initialised.\<close>

lemma delay_dead:
  assumes "stage_run delay_step s ins outs s'" and "core_fresh s"
  shows "outs = [] \<and> callback (pktQueue s') = None \<and> posted s' = [] \<and> timers s' = [] \<and> aq_ok (pktQueue s')"
  using assms
proof (induction rule: stage_run.induct)
  case empty
  then show ?case by (simp add: core_fresh_def)
next
  case (more ins outs s1 i out s2)
  then have IH: "outs = []" "callback (pktQueue s1) = None" "posted s1 = []" "timers s1 = []" "aq_ok (pktQueue s1)"
    by simp_all
  from more(2) show ?case
  proof (cases rule: delay_step.cases)
    case (arrive pkt)
    obtain q ts where q: "push pkt (pktQueue s1) = (q, ts)" by (cases "push pkt (pktQueue s1)")
    from aq.put_queued [OF IH(5,2), of pkt] aq.put_ok [OF IH(5), of pkt] arrive IH show ?thesis
      by (simp add: delay_handlePacket_def q)
  qed (use IH in simp_all)
qed

text \<open>
  C40. A filter that is listed twice is made twice, and both objects are in the chain, but the
  members point to the second only: the first one is never initialised and keeps its defaults.
  A delay filter in that position passes no packet, ever.
\<close>

theorem duplicate_filter_dead:
  assumes "List.map_filter kind_of fs = k # ks" and "is_input k"
    and "Router_init_filters env4 env6 ext fs Router_new = Inr (b0, r)"
    and "i < length (k # ks)" and "(k # ks) ! i \<in> set (drop (Suc i) (k # ks))"
    and "initFilters env r = Inr (b, out, r')"
  shows "fst (objects (chain4 r') ! i) = make_obj env4 ((k # ks) ! i)
    \<and> ((k # ks) ! i = KStaticDelay \<and> stage_run delay_step (StaticDelay_new :: packet delay_core) ins outs s \<longrightarrow>
        fst (objects (chain4 r') ! i) = FStaticDelay StaticDelay_new \<and> outs = [])"
proof -
  from init_loop_topo [OF topo_new topo_new, of fs env4 env6] assms(1,2)
  obtain c4 c6 l4 where L: "init_loop env4 env6 fs (chain_new, None) (chain_new, None) = Inr (c4, c6)"
    "topo env4 c4 (Some l4) (k # ks)" by auto
  then have r: "chain4 r = c4" using assms(3) by (auto simp: Router_init_filters_def Router_new_def)
  from L(2) have o: "map fst (objects c4) = map (make_obj env4) (k # ks)"
    and sl: "\<And>k' j. slot c4 k' = Some j \<longleftrightarrow> j < length (k # ks) \<and> (k # ks) ! j = k' \<and> k' \<notin> set (drop (Suc j) (k # ks))"
    unfolding topo_def by blast+
  from assms(6) obtain c' where i: "init_slots env (\<lambda>k. True) init_order4 c4 = Inr (b, out, c')" "chain4 r' = c'"
    by (auto simp: initFilters_def try_bind_Inr_iff r)
  have "\<forall>k'. slot c4 k' \<noteq> Some i" using sl assms(5) by auto
  from init_slots_other [OF i(1) this] have "objects c' ! i = objects c4 ! i" .
  moreover have "length (objects c4) = length (k # ks)" using o by (metis length_map)
  moreover have "map fst (objects c4) ! i = map (make_obj env4) (k # ks) ! i" by (simp only: o)
  ultimately have f: "fst (objects (chain4 r') ! i) = make_obj env4 ((k # ks) ! i)"
    using assms(4) nth_map [OF assms(4), of "make_obj env4 :: _ \<Rightarrow> packet stage_obj"]
    by (simp add: i(2) del: nth_Cons list.map)
  have "core_fresh (StaticDelay_new :: packet delay_core)"
    using fresh_make [of env4 KStaticDelay, where ?'a = "\<lparr>transProt :: u8, srcIp :: u32, dstIp :: u32, ipFrag :: u16, ipHdrLen :: u8\<rparr>"] by simp
  with delay_dead [of "StaticDelay_new :: packet delay_core" ins outs s] f show ?thesis by auto
qed

definition example_init_env :: init_env where
  "example_init_env = \<lparr>init_now = 0, init_in = (0, 0, 0), init_out = (0, 0, 0)\<rparr>"

lemma duplicate_filter_dead_witness:
  "\<exists>r r' s. Router_init_filters example_env example_env ''eth0''
       [''InputDrop'', ''StaticDelay'', ''StaticDelay'', ''OutputLibnet''] Router_new = Inr (True, r)
     \<and> initFilters example_init_env r = Inr (True, [], r')
     \<and> fst (objects (chain4 r') ! 1) = FStaticDelay StaticDelay_new
     \<and> stage_run delay_step StaticDelay_new [example_packet True 1 2 3 4] [] s"
proof -
  let ?fs = "[''InputDrop'', ''StaticDelay'', ''StaticDelay'', ''OutputLibnet'']"
  have mf: "List.map_filter kind_of ?fs = KInputDrop # [KStaticDelay, KStaticDelay, KOutputLibnet]"
    by (simp add: map_filter_simps kind_of_def)
  have "\<exists>r r'. Router_init_filters example_env example_env ''eth0'' ?fs Router_new = Inr (True, r)
      \<and> initFilters example_init_env r = Inr (True, [], r')"
    by (simp add: router_eval Let_def StaticDelay_init_def OutputLibnet_init_def)
  then obtain r r' where r: "Router_init_filters example_env example_env ''eth0'' ?fs Router_new = Inr (True, r)"
    "initFilters example_init_env r = Inr (True, [], r')" by blast
  obtain s where s: "stage_run delay_step StaticDelay_new [example_packet True 1 2 3 4] [] s"
    using stage_run_one [where step = delay_step, OF delay_step.arrive] by blast
  from duplicate_filter_dead [OF mf _ r(1) _ _ r(2), of 1 _ _ s] s r show ?thesis
    by (intro exI conjI) (auto simp: is_input_def)
qed

end
