(* ===== verification/Router_Account.thy ===== *)
theory Router_Account
  imports Router_Ready
begin

text \<open>
  Counting packets through a chain. The contract \<open>accounted_stage\<close> weighs what comes in, what
  goes out and what a filter holds; it carries over to chains. With the identity of a packet as its
  weight it says that a packet is sent at most once, whatever the filters and their
  interleavings, and that the filters which only wait lose none.
\<close>

section \<open>The contract\<close>

definition weigh :: "('x \<Rightarrow> 'm::comm_monoid_add) \<Rightarrow> 'x list \<Rightarrow> 'm" where
  "weigh w xs = sum_list (map w xs)"

lemma weigh_simps [simp]:
  "weigh w [] = 0" "weigh w (x # xs) = w x + weigh w xs" "weigh w (xs @ ys) = weigh w xs + weigh w ys"
  by (simp_all add: weigh_def)

lemma weigh_map: "weigh w (map f xs) = weigh (\<lambda>x. w (f x)) xs"
  by (simp add: weigh_def comp_def)

lemma weigh_single: "weigh (\<lambda>x. {#f x#}) xs = mset (map f xs)"
  by (induction xs) simp_all

text \<open>\<open>leq\<close> is the inclusion for filters that may drop packets, and equality for those that do not.\<close>

locale accounted_stage =
  fixes step :: "'s \<Rightarrow> 'x list \<Rightarrow> 'e list \<Rightarrow> 's \<Rightarrow> bool"
    and account :: "'s \<Rightarrow> 'm::comm_monoid_add"
    and w_in :: "'x \<Rightarrow> 'm" and w_out :: "'e \<Rightarrow> 'm"
    and leq :: "'m \<Rightarrow> 'm \<Rightarrow> bool"
    and ok :: "'s \<Rightarrow> bool"
  assumes leq_refl: "leq a a"
    and leq_trans: "leq a b \<Longrightarrow> leq b c \<Longrightarrow> leq a c"
    and leq_add: "leq a b \<Longrightarrow> leq (a + c) (b + c)"
    and stays_ok: "step s i out s' \<Longrightarrow> ok s \<Longrightarrow> ok s'"
    and balance: "step s i out s' \<Longrightarrow> ok s \<Longrightarrow> leq (account s' + weigh w_out out) (account s + weigh w_in i)"
begin

lemma run_stays_ok: "stage_run step s ins outs s' \<Longrightarrow> ok s \<Longrightarrow> ok s'"
  by (induction rule: stage_run.induct) (auto intro: stays_ok)

lemma run_balance:
  assumes "stage_run step s ins outs s'" and "ok s"
  shows "leq (account s' + weigh w_out outs) (account s + weigh w_in ins)"
  using assms(1)
proof (induction rule: stage_run.induct)
  case empty
  show ?case by (simp add: leq_refl)
next
  case (more ins outs s1 i out s2)
  have "ok s1" using run_stays_ok [OF more(1) assms(2)] .
  from leq_add [OF balance [OF more(2) this], of "weigh w_out outs"] leq_add [OF more.IH, of "weigh w_in i"]
  show ?case by (simp add: ac_simps) (erule (1) leq_trans)
qed

end

locale accounted_chain =
  accounted_stage step account w w leq ok + sink: accounted_stage sink account w w_out leq ok
  for step :: "'s \<Rightarrow> 'x list \<Rightarrow> 'x list \<Rightarrow> 's \<Rightarrow> bool" and sink :: "'s \<Rightarrow> 'x list \<Rightarrow> 'e list \<Rightarrow> 's \<Rightarrow> bool"
    and account :: "'s \<Rightarrow> 'm::comm_monoid_add" and w and w_out and leq and ok
begin

lemma chain_accounted:
  "accounted_stage (chain_step step sink n) (\<lambda>ss. weigh account ss) w w_out leq (list_all ok)"
proof (induction n)
  case 0
  show ?case by unfold_locales (auto intro: leq_refl leq_trans leq_add)
next
  case (Suc n)
  note tail = accounted_stage.run_stays_ok [OF Suc.IH] accounted_stage.run_balance [OF Suc.IH]
    accounted_stage.stays_ok [OF Suc.IH] accounted_stage.balance [OF Suc.IH]
  have step: "list_all ok ss' \<and> leq (weigh account ss' + weigh w_out out) (weigh account ss + weigh w i)"
    if st: "chain_step step sink (Suc n) ss i out ss'" and ok: "list_all ok ss" for ss i out ss'
    using st
  proof (cases rule: chain_stepE)
    case (passed s t s' t' mid)
    have o: "ok s" "list_all ok t" using ok by (simp_all add: passed(1))
    from leq_add [OF tail(2) [OF passed(4) o(2)], of "account s'"]
      leq_add [OF balance [OF passed(3) o(1)], of "weigh account t"]
    have "leq (weigh account ss' + weigh w_out out) (weigh account ss + weigh w i)"
      by (simp add: passed(1,2) ac_simps) (erule (1) leq_trans)
    then show ?thesis using stays_ok [OF passed(3) o(1)] tail(1) [OF passed(4) o(2)] by (simp add: passed(2))
  next
    case (behind s t t')
    have o: "ok s" "list_all ok t" using ok by (simp_all add: behind(1))
    from leq_add [OF tail(4) [OF behind(4) o(2)], of "account s"] tail(3) [OF behind(4) o(2)] o(1)
    show ?thesis by (simp add: behind(1-3) ac_simps)
  next
    case (sent s t s')
    have o: "ok s" "list_all ok t" using ok by (simp_all add: sent(1))
    from leq_add [OF sink.balance [OF sent(3) o(1)], of "weigh account t"] sink.stays_ok [OF sent(3) o(1)] o(2)
    show ?thesis by (simp add: sent(1,2) ac_simps)
  qed
  show ?case
    by unfold_locales (rule leq_refl, erule (1) leq_trans, erule leq_add, (use step in blast)+)
qed

text \<open>From an empty account on.\<close>

lemma chain_run_balance:
  assumes "stage_run (chain_step step sink n) ss ins outs ss'" and "list_all ok ss" and "weigh account ss = 0"
  shows "leq (weigh account ss' + weigh w_out outs) (weigh w ins)"
  using accounted_stage.run_balance [OF chain_accounted assms(1,2)] assms(3) by simp

end

section \<open>What the filters hold\<close>

fun obj_packets :: "'a pkt stage_obj \<Rightarrow> 'a pkt list" where
  "obj_packets (FStaticDelay s) = delay_held s"
| "obj_packets (FDynamicDelay s) = delay_held s"
| "obj_packets (FBurst b) = burst_packets b"
| "obj_packets (FTokenBucket t) = tbQueue (inTb t) @ tbQueue (outTb t)"
| "obj_packets (FOutputLibnet s) = out_held s"
| "obj_packets x = []"

lemma of_dir_none: "\<forall>d. of_dir d (map ident ps) = [] \<Longrightarrow> ps = []"
  by (cases ps) (auto dest: spec [of _ "isIngoing (hd ps)"])

lemma obj_packets_none: "\<forall>d. obj_held d x = [] \<Longrightarrow> obj_packets x = []"
proof (cases x)
  case (FTokenBucket t)
  assume "\<forall>d. obj_held d x = []"
  from this [rule_format, of True] this [rule_format, of False] show ?thesis by (simp add: FTokenBucket)
qed (simp_all add: of_dir_none)

lemma chain_holds_none: "\<forall>x \<in> set xs. \<forall>d. obj_held d x = [] \<Longrightarrow> \<forall>x \<in> set xs. obj_packets x = []"
  by (blast dest: obj_packets_none)

lemma weigh_none: "\<forall>x \<in> set xs. f x = 0 \<Longrightarrow> weigh f xs = 0"
  by (induction xs) simp_all

text \<open>Inclusion and equality of multisets are orders of the contract.\<close>

lemma subset_mset_order:
  "(a :: 'm multiset) \<subseteq># a" "a \<subseteq># b \<Longrightarrow> b \<subseteq># c \<Longrightarrow> a \<subseteq># c" "a \<subseteq># b \<Longrightarrow> a + d \<subseteq># b + d"
  by (auto intro: subset_mset.order_trans)

lemma weigh_mset: "mset ps = mset qs \<Longrightarrow> weigh w ps = weigh w qs"
  unfolding weigh_def using sum_mset_sum_list mset_map by metis

lemma weigh_subseq: "subseq ps qs \<Longrightarrow> weigh w ps \<subseteq># (weigh w qs :: 'm multiset)"
  by (induction rule: list_emb.induct) (auto intro: subset_mset.order_trans)

text \<open>The weight of a packet that does not depend on its stamp: the filters that wait keep it.\<close>

definition stampless :: "('a pkt \<Rightarrow> 'm) \<Rightarrow> bool" where
  "stampless w \<longleftrightarrow> (\<forall>t p. w (resetTimeStamp t p) = w p)"

lemma delay_step_weigh:
  "delay_step s i out s' \<Longrightarrow> delay_ok s \<Longrightarrow> stampless w \<Longrightarrow>
     weigh w (delay_held s') + weigh w out = weigh w (delay_held s) + weigh w i"
proof (induction rule: delay_step.induct)
  case (arrive s pkt)
  then show ?case by (simp add: delay_arrive_ok)
next
  case (pop k s ec d now)
  then show ?case using delay_pop_ok(2) [OF pop(3,1,2)] by simp
next
  case (fire k s expiry pkt now pkt' s')
  then show ?case using delay_fire_ok(2,3) [OF fire(5,1,2,4)] by (simp add: stampless_def ac_simps)
qed

lemma dd_step_weigh:
  "dd_step sn i out sn' \<Longrightarrow> delay_ok (fst sn) \<Longrightarrow> stampless w \<Longrightarrow>
     weigh w (delay_held (fst sn')) + weigh w out = weigh w (delay_held (fst sn)) + weigh w i"
  by (induction rule: dd_step.induct) (auto dest: delay_step_weigh simp: delay_ok_frame)

lemma burst_race_weigh:
  assumes "burst_race s i out s'"
  shows "weigh w (burst_packets s') + weigh w out = weigh w (burst_packets s) + weigh w i"
proof -
  have "mset (burst_packets s' @ out) = mset (burst_packets s @ i)"
    using burst_race_keeps [OF assms] by (simp add: ac_simps)
  from weigh_mset [OF this, of w] show ?thesis by simp
qed

definition waits :: "filter_kind \<Rightarrow> bool" where
  "waits k \<longleftrightarrow> k \<in> {KStaticDelay, KDynamicDelay, KBurst}"

lemma obj_wait_weigh:
  assumes "obj_step nt x i out x'" and "obj_ok x" and "waits (obj_kind x)" and "stampless w"
  shows "weigh w (obj_packets x') + weigh w out = weigh w (obj_packets x) + weigh w i"
  using assms(1)
proof cases
  case (static_delay s s')
  from delay_step_weigh [OF static_delay(3) _ assms(4)] assms(2) show ?thesis by (simp add: static_delay(1,2))
next
  case (dynamic_delay s s' m)
  from dd_step_weigh [OF dynamic_delay(3) _ assms(4)] assms(2) show ?thesis by (simp add: dynamic_delay(1,2))
next
  case (burst b b')
  from burst_race_weigh [OF burst(3)] show ?thesis by (simp add: burst(1,2))
qed (use assms(3) in \<open>simp_all add: waits_def\<close>)

lemma tbf_step_weigh:
  assumes "tbf_step s i out s'" and "tbf_ok s"
  shows "weigh w (obj_packets (FTokenBucket s')) + weigh w out \<subseteq>#
    (weigh w (obj_packets (FTokenBucket s)) + weigh w i :: 'm multiset)"
proof -
  obtain e b where st: "tb_step (tb_of e s) i out b" "\<forall>p \<in> set i. isIngoing p = e"
    "tb_of e s' = b" "tb_of (\<not> e) s' = tb_of (\<not> e) s"
    using tbf_step_bucket [OF assms(1)] .
  have "tb_ok (tb_of e s)" using assms(2) by (simp add: tbf_ok_def)
  from weigh_subseq [OF tb_step_order [OF st(1) this], of w]
  have u: "weigh w (tbQueue b) + weigh w out \<subseteq># weigh w (tbQueue (tb_of e s)) + weigh w i" by (simp add: ac_simps)
  have two: "weigh w (obj_packets (FTokenBucket t)) = weigh w (tbQueue (tb_of e t)) + weigh w (tbQueue (tb_of (\<not> e) t))" for t
    by (cases e) (simp_all add: tb_of_def ac_simps)
  from subset_mset.add_right_mono [OF u] show ?thesis unfolding two st(3,4) by (simp add: ac_simps)
qed

section \<open>Each packet at most once\<close>

lemma mset_subseq: "subseq xs ys \<Longrightarrow> mset xs \<subseteq># mset ys"
  using weigh_subseq [of xs ys "\<lambda>x. {#x#}"] by (simp add: weigh_single)

definition ident_weight :: "'a pkt \<Rightarrow> ident multiset" where
  "ident_weight p = {#ident p#}"

definition sent_weight :: "'a pkt sent \<Rightarrow> ident multiset" where
  "sent_weight x = {#sent_ident x#}"

lemma ident_weights [simp]:
  "weigh ident_weight ps = mset (map ident ps)" "weigh sent_weight xs = mset (map sent_ident xs)"
  "stampless ident_weight"
  by (simp_all add: ident_weight_def [abs_def] sent_weight_def [abs_def] weigh_single stampless_def)

definition held_idents :: "'a pkt stage_obj \<Rightarrow> ident multiset" where
  "held_idents x = mset (map ident (obj_packets x))"

context chain_filters
begin

lemma obj_step_once:
  "obj_step nat x i out x' \<Longrightarrow> obj_ok x \<Longrightarrow>
     held_idents x' + mset (map ident out) \<subseteq># held_idents x + mset (map ident i)"
proof (induction rule: obj_step.induct)
  case (input pkt out vs)
  then show ?case by (simp add: Input_handlePacket_def)
next
  case (input_drop pkt out vs)
  then have "out = [fst (setVerdict False pkt)]"
    by (auto simp: InputDrop_handlePacket_def split: prod.splits)
  then show ?case by (simp add: held_idents_def)
next
  case (static_delay s i out s')
  from obj_wait_weigh [OF obj_step.static_delay [OF static_delay(1), of nat], of ident_weight] static_delay(2)
  show ?case by (simp add: held_idents_def waits_def)
next
  case (loss f i out f')
  from loss(1) show ?case by cases (auto simp: held_idents_def Loss_handlePacket_def split: prod.splits if_splits)
next
  case (nat n i out n')
  from mset_subseq [OF nat_passes [OF nat(1)]] show ?case by (simp add: held_idents_def)
next
  case (burst b i out b')
  from obj_wait_weigh [OF obj_step.burst [OF burst(1), of nat], of ident_weight]
  show ?case by (simp add: held_idents_def waits_def)
next
  case (token_bucket t i out t')
  from tbf_step_weigh [OF token_bucket(1), of ident_weight] token_bucket(2) show ?case by (simp add: held_idents_def)
next
  case (dynamic_delay s i out s' m)
  from obj_wait_weigh [OF obj_step.dynamic_delay [OF dynamic_delay(1), of nat], of ident_weight] dynamic_delay(2)
  show ?case by (simp add: held_idents_def waits_def)
next
  case (dynamic_loss f i out f' m)
  from dynamic_loss(1) show ?case
    by cases (auto simp: held_idents_def DynamicLoss_handlePacket_def Let_def split: prod.splits if_splits)
qed

lemma obj_send_once:
  assumes "obj_send build x i out vs x'" and "obj_ok x"
  shows "held_idents x' + mset (map sent_ident out) \<subseteq># held_idents x + mset (map ident i)"
proof (cases "obj_kind x = KOutput")
  case True
  then have x: "x = FOutput" by (cases x) simp_all
  from assms(1) [unfolded x] show ?thesis
    by (rule obj_send_output) (simp add: x held_idents_def sent_ident_def)
next
  case False
  then obtain l where x: "x = FOutputLibnet l" using obj_send_kind [OF assms(1)] by (cases x) simp_all
  from assms(1) [unfolded x] obtain l' where l: "x' = FOutputLibnet l'" "out_step build True l i (map fst out) l'"
    by (rule obj_send_libnet)
  from out_step_effect [OF l(2)] assms(2)
  have "subseq (map fst out @ out_held l') (out_held l @ i)" by (simp add: x)
  from mset_subseq [OF subseq_map [OF this, of ident]] show ?thesis
    by (simp add: x l(1) held_idents_def sent_ident_def [abs_def] comp_def ac_simps)
qed

lemma obj_once: "accounted_chain (obj_step nat) (obj_sink build) held_idents ident_weight sent_weight (\<subseteq>#) obj_ok"
proof unfold_locales
  fix x i out x'
  assume "obj_step nat x i out x'" and "obj_ok x"
  then show "obj_ok x'" "held_idents x' + weigh ident_weight out \<subseteq># held_idents x + weigh ident_weight i"
    using obj_step_ok obj_step_once by auto
next
  fix x i out x'
  assume "obj_sink build x i out x'" and "obj_ok x"
  then show "obj_ok x'" "held_idents x' + weigh sent_weight out \<subseteq># held_idents x + weigh ident_weight i"
    using obj_send_order obj_send_once by (auto simp: obj_sink_def)
qed (erule subset_mset_order | rule subset_mset_order | erule (1) subset_mset_order)+

text \<open>What is sent by a chain that held nothing, and what it holds then, came in: in any order, once.\<close>

lemma chain_once:
  assumes "stage_run (chain_step (obj_step nat) (obj_sink build) n) ss ins outs ss'"
    and "list_all obj_ok ss" and "\<forall>x \<in> set ss. \<forall>d. obj_held d x = []"
  shows "weigh held_idents ss' + mset (map sent_ident outs) \<subseteq># mset (map ident ins)"
proof -
  have "weigh held_idents ss = 0"
    by (rule weigh_none) (use chain_holds_none [OF assms(3)] in \<open>simp add: held_idents_def\<close>)
  from accounted_chain.chain_run_balance [OF obj_once assms(1,2) this] show ?thesis by simp
qed

lemma chain_sent_once:
  assumes "stage_run (chain_step (obj_step nat) (obj_sink build) n) ss ins outs ss'"
    and "list_all obj_ok ss" and "\<forall>x \<in> set ss. \<forall>d. obj_held d x = []"
  shows "mset (map sent_ident outs) \<subseteq># mset (map ident ins)"
  using chain_once [OF assms] by (rule subset_mset.order_trans [rotated]) simp

end

section \<open>Chains that lose nothing\<close>

text \<open>The inputs and outputs of the accept mode, the delays and the burst filter.\<close>

definition lossless_kinds :: "filter_kind set" where
  "lossless_kinds = {KInput, KStaticDelay, KDynamicDelay, KBurst, KOutput}"

text \<open>Only packets without verdict count: the output does not accept a packet twice.\<close>

definition open_weight :: "'a pkt \<Rightarrow> ident multiset" where
  "open_weight p = (if verdictSet p then {#} else {#ident p#})"

definition held_open :: "'a pkt stage_obj \<Rightarrow> ident multiset" where
  "held_open x = weigh open_weight (obj_packets x)"

definition obj_keeps :: "'a pkt stage_obj \<Rightarrow> bool" where
  "obj_keeps x \<longleftrightarrow> obj_ok x \<and> obj_kind x \<in> lossless_kinds"

lemma open_all: "\<forall>p \<in> set ps. \<not> verdictSet p \<Longrightarrow> weigh open_weight ps = mset (map ident ps)"
  by (induction ps) (simp_all add: open_weight_def)

lemma open_within: "weigh open_weight ps \<subseteq># mset (map ident ps)"
  by (induction ps) (auto simp: open_weight_def intro: subset_mset.order_trans)

lemma held_open_within: "weigh held_open ss \<subseteq># weigh held_idents ss"
proof (induction ss)
  case (Cons x ss)
  have "held_open x \<subseteq># held_idents x" unfolding held_open_def held_idents_def by (rule open_within)
  with Cons.IH show ?case by (simp add: subset_mset.add_mono)
qed simp

lemma obj_step_keeps:
  assumes "obj_step nt x i out x'" and "obj_keeps x"
  shows "held_open x' + weigh open_weight out = held_open x + weigh open_weight i"
proof (cases "waits (obj_kind x)")
  case True
  from obj_wait_weigh [OF assms(1) _ this, of open_weight] assms(2) show ?thesis
    by (simp add: obj_keeps_def held_open_def stampless_def open_weight_def)
next
  case False
  then have "obj_kind x = KInput"
    using assms(2) obj_step_kind [OF assms(1)] by (auto simp: obj_keeps_def lossless_kinds_def waits_def)
  then have "x = FInput" by (cases x) simp_all
  with assms(1) show ?thesis by cases (auto simp: Input_handlePacket_def held_open_def)
qed

lemma obj_send_keeps:
  assumes "obj_send build x i out vs x'" and "obj_keeps x"
  shows "held_open x' + mset (map sent_ident out) = held_open x + weigh open_weight i"
proof -
  have "obj_kind x = KOutput"
    using assms(2) obj_send_kind [OF assms(1)] by (auto simp: obj_keeps_def lossless_kinds_def)
  then have x: "x = FOutput" by (cases x) simp_all
  from assms(1) [unfolded x] show ?thesis
    by (rule obj_send_output) (simp add: x held_open_def open_weight_def sent_ident_def)
qed

lemma mset_obj_held:
  "obj_kind x \<in> lossless_kinds \<Longrightarrow> mset (obj_held d x) = filter_mset (\<lambda>x. snd x = d) (held_idents x)"
  by (cases x) (simp_all add: lossless_kinds_def held_idents_def of_dir_def)

context chain_filters
begin

lemma obj_lossless: "accounted_chain (obj_step nat) (obj_sink build) held_open open_weight sent_weight (=) obj_keeps"
proof unfold_locales
  fix x i out x'
  assume st: "obj_step nat x i out x'" and k: "obj_keeps x"
  show "obj_keeps x'" using obj_step_ok [OF st] obj_step_kind [OF st] k by (simp add: obj_keeps_def)
  show "held_open x' + weigh open_weight out = held_open x + weigh open_weight i" by (rule obj_step_keeps [OF st k])
next
  fix x i out x'
  assume "obj_sink build x i out x'" and k: "obj_keeps x"
  then obtain vs where st: "obj_send build x i out vs x'" by (auto simp: obj_sink_def)
  show "obj_keeps x'" using obj_send_order [OF st] obj_send_kind [OF st] k by (simp add: obj_keeps_def)
  show "held_open x' + weigh sent_weight out = held_open x + weigh open_weight i"
    using obj_send_keeps [OF st k] by simp
qed simp_all

lemma chain_keeps:
  assumes "stage_run (chain_step (obj_step nat) (obj_sink build) n) ss ins outs ss'"
    and "list_all obj_keeps ss" and "\<forall>x \<in> set ss. \<forall>d. obj_held d x = []" and "\<forall>p \<in> set ins. \<not> verdictSet p"
  shows "mset (map ident ins) = mset (map sent_ident outs) + weigh held_idents ss'"
proof -
  have "weigh held_open ss = 0"
    by (rule weigh_none) (use chain_holds_none [OF assms(3)] in \<open>simp add: held_open_def\<close>)
  from accounted_chain.chain_run_balance [OF obj_lossless assms(1,2) this] open_all [OF assms(4)]
  have b: "weigh held_open ss' + mset (map sent_ident outs) = mset (map ident ins)" by simp
  have "list_all obj_ok ss" using assms(2) by (auto simp: list_all_iff obj_keeps_def)
  from chain_once [OF assms(1) this assms(3)] have "weigh held_idents ss' \<subseteq># weigh held_open ss'"
    unfolding b [symmetric] by simp
  then have "weigh held_open ss' = weigh held_idents ss'" using held_open_within by (rule subset_mset.antisym [rotated])
  with b show ?thesis by (simp add: ac_simps)
qed

text \<open>Without burst filter also the order is the same.\<close>

lemma chain_keeps_order:
  assumes "stage_run (chain_step (obj_step nat) (obj_sink build) n) ss ins outs ss'"
    and "list_all obj_keeps ss" and "\<forall>x \<in> set ss. \<forall>d. obj_held d x = []" and "\<forall>p \<in> set ins. \<not> verdictSet p"
    and "KBurst \<notin> set (map obj_kind ss)"
  shows "of_dir d (map ident ins) = of_dir d (map sent_ident outs) @ chain_held obj_held d ss'"
proof -
  have ok: "list_all obj_ok ss" using assms(2) by (auto simp: list_all_iff obj_keeps_def)
  have "list_all obj_keeps ss'"
    using accounted_stage.run_stays_ok [OF accounted_chain.chain_accounted [OF obj_lossless] assms(1,2)] .
  then have h: "mset (chain_held obj_held d ss') = filter_mset (\<lambda>x. snd x = d) (weigh held_idents ss')"
    by (induction ss') (simp_all add: mset_obj_held obj_keeps_def ac_simps)
  have "mset (of_dir d (map ident ins)) = mset (of_dir d (map sent_ident outs)) + mset (chain_held obj_held d ss')"
    using arg_cong [OF chain_keeps [OF assms(1-4)], of "filter_mset (\<lambda>x. snd x = d)"]
    unfolding h by (simp add: of_dir_def)
  then have "length (of_dir d (map ident ins)) = length (of_dir d (map sent_ident outs) @ chain_held obj_held d ss')"
    by (metis mset_append size_mset)
  then show ?thesis
    using subseq_same_length [OF chain_order_held [OF assms(1) ok assms(3,5), of d]] by simp
qed

end

section \<open>The two chains\<close>

interpretation once4: accounted_chain "obj_step nat_filter_step" "obj_sink OutputLibnet_build"
  held_idents ident_weight sent_weight "(\<subseteq>#)" obj_ok
  by (rule ipv4.obj_once)

interpretation once6: accounted_chain "obj_step (\<lambda>n i out n'. False)" "obj_sink Output6Libnet_build"
  held_idents ident_weight sent_weight "(\<subseteq>#)" obj_ok
  by (rule ipv6.obj_once)

interpretation lossless4: accounted_chain "obj_step nat_filter_step" "obj_sink OutputLibnet_build"
  held_open open_weight sent_weight "(=)" obj_keeps
  by (rule ipv4.obj_lossless)

end
