(* ===== verification/Router_Verdicts.thy ===== *)
theory Router_Verdicts
  imports Router_Account
begin

text \<open>
  The verdicts that the filters of a chain report to netfilter. A step of a filter object is
  extended by the verdicts it sets, a traced object also has those it has set so far. The
  contract \<open>accounted_stage\<close> counts them: what a filter has set and what it holds undecided is
  covered by what came in undecided.
\<close>

section \<open>Verdicts of a step\<close>

text \<open>The filters that call \<open>setVerdict\<close>, and all others.\<close>

definition sets_verdicts :: "filter_kind \<Rightarrow> bool" where
  "sets_verdicts k \<longleftrightarrow> k \<in> {KInput, KInputDrop, KLoss, KDynamicLoss, KOutput}"

inductive obj_vstep ::
  "(nat_handler \<Rightarrow> 'a pkt list \<Rightarrow> 'a pkt list \<Rightarrow> nat_handler \<Rightarrow> bool)
     \<Rightarrow> 'a pkt stage_obj \<Rightarrow> 'a pkt list \<Rightarrow> 'a pkt list \<Rightarrow> verdict list \<Rightarrow> 'a pkt stage_obj \<Rightarrow> bool"
  for nat where
  input: "Input_handlePacket pkt = (out, vs) \<Longrightarrow> obj_vstep nat FInput [pkt] out vs FInput"
| input_drop: "InputDrop_handlePacket pkt = (out, vs) \<Longrightarrow> obj_vstep nat FInputDrop [pkt] out vs FInputDrop"
| loss: "rnd \<le> RAND_MAX \<Longrightarrow> Loss_handlePacket rnd pkt f = (out, vs) \<Longrightarrow>
    obj_vstep nat (FLoss f) [pkt] out vs (FLoss f)"
| dynamic_loss: "rnd \<le> RAND_MAX \<Longrightarrow> DynamicLoss_handlePacket rnd pkt f = (out, vs) \<Longrightarrow>
    obj_vstep nat (FDynamicLoss f) [pkt] out vs (FDynamicLoss f)"
| loss_timer: "dl_step (f, 0) [] ([] :: 'a pkt list) (f', m) \<Longrightarrow>
    obj_vstep nat (FDynamicLoss f) [] [] [] (FDynamicLoss f')"
| silent: "obj_step nat x i out x' \<Longrightarrow> \<not> sets_verdicts (obj_kind x) \<Longrightarrow> obj_vstep nat x i out [] x'"

text \<open>These are the steps of Router\_Chain.\<close>

lemma obj_vstep_step: "obj_vstep nt x i out vs x' \<Longrightarrow> obj_step nt x i out x'"
  by (induction rule: obj_vstep.induct) (auto intro: obj_step.intros loss_step.intros dl_step.intros)

lemma silentI:
  "obj_step nt x i out x' \<Longrightarrow> \<not> sets_verdicts (obj_kind x) \<Longrightarrow> \<exists>vs. obj_vstep nt x i out vs x'"
  by (blast intro: obj_vstep.silent)

lemma sets_verdicts_simps [simp]:
  "sets_verdicts KInput" "sets_verdicts KInputDrop" "sets_verdicts KLoss" "sets_verdicts KDynamicLoss"
  "sets_verdicts KOutput" "\<not> sets_verdicts KStaticDelay" "\<not> sets_verdicts KNat" "\<not> sets_verdicts KBurst"
  "\<not> sets_verdicts KTokenBucketFilter" "\<not> sets_verdicts KDynamicDelay" "\<not> sets_verdicts KOutputLibnet"
  by (simp_all add: sets_verdicts_def)

lemma obj_step_vstep: "obj_step nt x i out x' \<Longrightarrow> \<exists>vs. obj_vstep nt x i out vs x'"
proof (induction rule: obj_step.induct)
  case (loss f i out f')
  then show ?case by (auto elim!: loss_step.cases intro: obj_vstep.loss)
next
  case (dynamic_loss f i out f' m)
  then show ?case
  proof (cases rule: dl_step.cases)
    case (packet rnd pkt vs)
    then show ?thesis by (auto intro: obj_vstep.dynamic_loss)
  next
    case (timeout k now)
    then have "dl_step (f, 0) [] ([] :: 'a pkt list) (f', Suc 0)" by (auto intro: dl_step.timeout)
    then show ?thesis using timeout by (auto intro: obj_vstep.loss_timer)
  qed
qed ((blast intro: obj_vstep.input obj_vstep.input_drop
    | rule silentI, erule obj_step.intros(3,5-8), simp)+)

lemma obj_step_iff: "obj_step nt x i out x' \<longleftrightarrow> (\<exists>vs. obj_vstep nt x i out vs x')"
  using obj_vstep_step obj_step_vstep by blast

text \<open>An object with the verdicts it has set.\<close>

definition traced_step ::
  "(nat_handler \<Rightarrow> 'a pkt list \<Rightarrow> 'a pkt list \<Rightarrow> nat_handler \<Rightarrow> bool)
     \<Rightarrow> 'a pkt stage_obj \<times> verdict list \<Rightarrow> 'a pkt list \<Rightarrow> 'a pkt list \<Rightarrow> 'a pkt stage_obj \<times> verdict list \<Rightarrow> bool" where
  "traced_step nt xt i out xt' \<longleftrightarrow>
     (\<exists>vs. obj_vstep nt (fst xt) i out vs (fst xt') \<and> snd xt' = snd xt @ vs)"

definition traced_sink ::
  "((libnet_call \<Rightarrow> int) \<Rightarrow> 'a pkt \<Rightarrow> unit libnet_code)
     \<Rightarrow> 'a pkt stage_obj \<times> verdict list \<Rightarrow> 'a pkt list \<Rightarrow> 'a pkt sent list \<Rightarrow> 'a pkt stage_obj \<times> verdict list \<Rightarrow> bool" where
  "traced_sink build xt i out xt' \<longleftrightarrow>
     (\<exists>vs. obj_send build (fst xt) i out vs (fst xt') \<and> snd xt' = snd xt @ vs)"

text \<open>A chain as it is after the initialisation has set no verdict.\<close>

abbreviation untraced :: "'a pkt stage_obj list \<Rightarrow> ('a pkt stage_obj \<times> verdict list) list" where
  "untraced xs \<equiv> map (\<lambda>x. (x, [])) xs"

lemma traced_run_plain:
  assumes "stage_run (chain_step (traced_step nt) (traced_sink build) n) (untraced xs) ins outs fs"
  shows "stage_run (chain_step (obj_step nt) (obj_sink build) n) xs ins outs (map fst fs)"
proof -
  have "stage_run (chain_step (obj_step nt) (obj_sink build) n) (map fst (untraced xs)) (map id ins) (map id outs) (map fst fs)"
    by (rule chain_run_map [OF assms]) (auto simp: traced_step_def traced_sink_def obj_sink_def obj_vstep_step)
  then show ?thesis by (simp add: comp_def)
qed

section \<open>Undecided packets\<close>

definition open_id :: "'a pkt \<Rightarrow> int multiset" where
  "open_id p = (if verdictSet p then {#} else {#nfqID p#})"

abbreviation undecided :: "'a pkt list \<Rightarrow> int multiset" where
  "undecided ps \<equiv> weigh open_id ps"

lemma stampless_open: "stampless open_id"
  by (simp add: stampless_def open_id_def)

lemma undecided_all: "\<forall>p \<in> set ps. \<not> verdictSet p \<Longrightarrow> undecided ps = mset (map nfqID ps)"
  by (induction ps) (simp_all add: open_id_def)

definition traced_account :: "'a pkt stage_obj \<times> verdict list \<Rightarrow> int multiset" where
  "traced_account xt = mset (map fst (snd xt)) + undecided (obj_packets (fst xt))"

definition traced_ok :: "'a pkt stage_obj \<times> verdict list \<Rightarrow> bool" where
  "traced_ok xt \<longleftrightarrow> obj_ok (fst xt)"

text \<open>What leaves the router needs no verdict: it has one, or was dropped at the input.\<close>

definition no_verdict :: "'a pkt sent \<Rightarrow> int multiset" where
  "no_verdict x = {#}"

lemma no_verdict [simp]: "weigh no_verdict xs = {#}"
  by (induction xs) (simp_all add: no_verdict_def)

locale verdict_filters = chain_filters build nat
  for build :: "(libnet_call \<Rightarrow> int) \<Rightarrow> 'a parent_packet_scheme \<Rightarrow> unit libnet_code" and nat +
  assumes nat_undecided: "nat n i out n' \<Longrightarrow> undecided out \<subseteq># undecided i"
begin

lemma obj_vstep_balance:
  "obj_vstep nat x i out vs x' \<Longrightarrow> obj_ok x \<Longrightarrow>
     mset (map fst vs) + undecided (obj_packets x') + undecided out \<subseteq># undecided (obj_packets x) + undecided i"
proof (induction rule: obj_vstep.induct)
  case (silent x i out x')
  show ?case
  proof (cases "waits (obj_kind x)")
    case True
    from obj_wait_weigh [OF silent(1,3) True stampless_open] show ?thesis by simp
  next
    case False
    from silent(1) show ?thesis
    proof (cases rule: obj_step.cases)
      case (nat n n')
      then show ?thesis using nat_undecided by simp
    next
      case (token_bucket t t')
      then show ?thesis using tbf_step_weigh [of t i out t' open_id] silent(3) by simp
    qed (use silent(2) False in \<open>simp_all add: waits_def\<close>)
  qed
qed (auto simp: Input_handlePacket_def InputDrop_handlePacket_def Loss_handlePacket_def open_id_def
      DynamicLoss_handlePacket_def Let_def setVerdict_def split: prod.splits if_splits)

lemma obj_send_balance:
  assumes "obj_send build x i out vs x'" and "obj_ok x"
  shows "mset (map fst vs) + undecided (obj_packets x') \<subseteq># undecided (obj_packets x) + undecided i"
proof (cases "obj_kind x = KOutput")
  case True
  then have x: "x = FOutput" by (cases x) simp_all
  from assms(1) [unfolded x] show ?thesis
    by (rule obj_send_output) (simp add: x open_id_def setVerdict_def)
next
  case False
  then obtain l where x: "x = FOutputLibnet l" using obj_send_kind [OF assms(1)] by (cases x) simp_all
  from assms(1) [unfolded x] obtain l' where l: "x' = FOutputLibnet l'" "vs = []"
    "out_step build True l i (map fst out) l'" by (rule obj_send_libnet)
  from out_step_effect [OF l(3)] assms(2)
  have "subseq (map fst out @ out_held l') (out_held l @ i)" by (simp add: x)
  from subset_mset.order_trans [OF _ weigh_subseq [OF this, of open_id]] show ?thesis
    by (simp add: x l(1,2))
qed

lemma traced_accounted:
  "accounted_chain (traced_step nat) (traced_sink build) traced_account open_id no_verdict (\<subseteq>#) traced_ok"
proof unfold_locales
  fix xt i out xt'
  assume "traced_step nat xt i out xt'" and ok: "traced_ok xt"
  then obtain vs where v: "obj_vstep nat (fst xt) i out vs (fst xt')" "snd xt' = snd xt @ vs"
    by (auto simp: traced_step_def)
  from obj_step_ok [OF obj_vstep_step [OF v(1)]] ok show "traced_ok xt'" by (simp add: traced_ok_def)
  from obj_vstep_balance [OF v(1)] ok have
    "mset (map fst vs) + undecided (obj_packets (fst xt')) + undecided out \<subseteq># undecided (obj_packets (fst xt)) + undecided i"
    by (simp add: traced_ok_def)
  from subset_mset.add_left_mono [OF this, of "mset (map fst (snd xt))"]
  show "traced_account xt' + undecided out \<subseteq># traced_account xt + undecided i"
    by (simp add: traced_account_def v(2) ac_simps)
next
  fix xt i out xt'
  assume "traced_sink build xt i out xt'" and ok: "traced_ok xt"
  then obtain vs where v: "obj_send build (fst xt) i out vs (fst xt')" "snd xt' = snd xt @ vs"
    by (auto simp: traced_sink_def)
  from obj_send_order [OF v(1)] ok show "traced_ok xt'" by (simp add: traced_ok_def)
  from obj_send_balance [OF v(1)] ok have
    "mset (map fst vs) + undecided (obj_packets (fst xt')) \<subseteq># undecided (obj_packets (fst xt)) + undecided i"
    by (simp add: traced_ok_def)
  from subset_mset.add_left_mono [OF this, of "mset (map fst (snd xt))"]
  show "traced_account xt' + weigh no_verdict out \<subseteq># traced_account xt + undecided i"
    by (simp add: traced_account_def v(2) ac_simps)
qed (erule subset_mset_order | rule subset_mset_order | erule (1) subset_mset_order)+

end

text \<open>The address translation sets no verdict.\<close>

lemma mapper_verdict:
  "NatMapper_mapPacket now pkt m = (b, q, m') \<Longrightarrow> verdictSet q = verdictSet pkt"
  "SymNatMapper_mapPacket now pkt s = Some (b, q, s') \<Longrightarrow> verdictSet q = verdictSet pkt"
  by (auto simp: NatMapper_mapPacket_def SymNatMapper_mapPacket_def checkDnat_def Let_def
      split: prod.splits option.splits if_splits)

lemma mapPacket_verdict: "mapPacket now pkt mo = Inr (b, q, m') \<Longrightarrow> verdictSet q = verdictSet pkt"
  by (auto simp: mapPacket_def split: option.splits mapper_obj.splits prod.splits dest: mapper_verdict)

lemma nat_packet_verdict: "Nat_handlePacket now pkt n = Inr (Some q, n') \<Longrightarrow> verdictSet q = verdictSet pkt"
  by (auto simp: Nat_handlePacket_def try_bind_Inr_iff dest: mapPacket_verdict split: if_splits)

interpretation verdicts4: verdict_filters OutputLibnet_build nat_filter_step
proof
  fix n n' i out
  assume "nat_filter_step n i out n'"
  then show "undecided out \<subseteq># undecided i"
  proof cases
    case (handle now pkt opt)
    then show ?thesis
      using nat_packet_verdict nat_packet_ident by (cases opt) (fastforce simp: ident_def open_id_def)+
  qed simp_all
qed

interpretation verdicts6: verdict_filters Output6Libnet_build "\<lambda>n i out n'. False"
  by unfold_locales simp

interpretation traced4: accounted_chain "traced_step nat_filter_step" "traced_sink OutputLibnet_build"
  traced_account open_id no_verdict "(\<subseteq>#)" traced_ok
  by (rule verdicts4.traced_accounted)

interpretation traced6: accounted_chain "traced_step (\<lambda>n i out n'. False)" "traced_sink Output6Libnet_build"
  traced_account open_id no_verdict "(\<subseteq>#)" traced_ok
  by (rule verdicts6.traced_accounted)

section \<open>The verdicts of a chain\<close>

lemma traced_accounts:
  "weigh traced_account ss =
     mset (map fst (concat (map snd ss))) + weigh (\<lambda>xt. undecided (obj_packets (fst xt))) ss"
  by (induction ss) (simp_all add: traced_account_def ac_simps)

lemma untraced_account:
  assumes "\<forall>x \<in> set xs. \<forall>d. obj_held d x = []"
  shows "weigh traced_account (untraced xs) = {#}"
  using assms by (induction xs) (auto simp: traced_account_def obj_packets_none)

text \<open>The input of the drop mode decides on every packet at once.\<close>

definition drop_verdicts :: "'a pkt list \<Rightarrow> verdict list" where
  "drop_verdicts ps = concat (map (\<lambda>p. snd (setVerdict False p)) ps)"

lemma drop_step:
  assumes "chain_step (traced_step nt) (traced_sink build) n ss i out ss'" and "ss = (FInputDrop, t) # rest"
  shows "\<exists>rest'. ss' = (FInputDrop, t @ drop_verdicts i) # rest'"
proof -
  obtain m where n: "n = Suc m" using assms by (cases n) auto
  from assms(1) [unfolded n] show ?thesis
  proof (cases rule: chain_stepE)
    case (passed s u s' u' mid)
    then obtain vs where "obj_vstep nt FInputDrop i mid vs (fst s')" and s': "snd s' = t @ vs"
      using assms(2) by (auto simp: traced_step_def)
    from this(1) have "fst s' = FInputDrop \<and> vs = drop_verdicts i"
      by cases (auto simp: InputDrop_handlePacket_def drop_verdicts_def split: prod.splits)
    then show ?thesis using passed(2) s' by (cases s') simp
  next
    case (behind s u u')
    then show ?thesis using assms(2) by (simp add: drop_verdicts_def)
  next
    case (sent s u s')
    then show ?thesis using assms(2) by (auto simp: traced_sink_def dest: obj_send_kind)
  qed
qed

lemma drop_run:
  assumes "stage_run (chain_step (traced_step nt) (traced_sink build) n) ss ins outs ss'"
    and "ss = (FInputDrop, t) # rest"
  shows "\<exists>rest'. ss' = (FInputDrop, t @ drop_verdicts ins) # rest'"
  using assms(1)
proof (induction rule: stage_run.induct)
  case (more ins outs s1 i out s2)
  then obtain rest' where "s1 = (FInputDrop, t @ drop_verdicts ins) # rest'" by blast
  from drop_step [OF more(2) this] show ?case by (simp add: drop_verdicts_def)
qed (use assms(2) in \<open>simp add: drop_verdicts_def\<close>)

lemma drop_verdicts_all: "\<forall>p \<in> set ps. \<not> verdictSet p \<Longrightarrow> drop_verdicts ps = map (\<lambda>p. (nfqID p, False)) ps"
  by (induction ps) (simp_all add: drop_verdicts_def setVerdict_def)

lemma verdicts_within:
  assumes "weigh traced_account ss \<subseteq># M"
  shows "mset (map fst (concat (map snd ss))) \<subseteq># M"
    and "ss = (x, vs) # rest \<Longrightarrow> mset (map fst vs) = M \<Longrightarrow> concat (map snd ss) = vs"
proof -
  have a: "mset (map fst (concat (map snd ss))) + weigh (\<lambda>xt. undecided (obj_packets (fst xt))) ss \<subseteq># M"
    using assms by (simp only: traced_accounts)
  then show i: "mset (map fst (concat (map snd ss))) \<subseteq># M"
    by (rule subset_mset.order_trans [rotated]) simp
  assume e: "ss = (x, vs) # rest" and m: "mset (map fst vs) = M"
  from i have "mset (map fst (concat (map snd rest))) = {#}" by (simp add: e m [symmetric])
  then show "concat (map snd ss) = vs" by (simp add: e)
qed

text \<open>Verdicts of a run of a chain, from the initialisation on.\<close>

context verdict_filters
begin

lemma chain_verdicts:
  assumes run: "stage_run (chain_step (traced_step nat) (traced_sink build) n) (untraced xs) ins outs fs"
    and "list_all obj_ok xs" and "\<forall>x \<in> set xs. \<forall>d. obj_held d x = []" and new: "\<forall>p \<in> set ins. \<not> verdictSet p"
  shows "mset (map fst (concat (map snd fs))) \<subseteq># mset (map nfqID ins)
    \<and> (\<forall>ys. xs = FInputDrop # ys \<longrightarrow> concat (map snd fs) = map (\<lambda>p. (nfqID p, False)) ins)"
proof -
  have "list_all traced_ok (untraced xs)" using assms(2) by (simp add: list_all_iff traced_ok_def)
  from accounted_chain.chain_run_balance [OF traced_accounted run this] untraced_account [OF assms(3)]
  have "weigh traced_account fs \<subseteq># mset (map nfqID ins)" by (simp add: undecided_all [OF new])
  note V = verdicts_within [OF this]
  have "concat (map snd fs) = map (\<lambda>p. (nfqID p, False)) ins" if e: "xs = FInputDrop # ys" for ys
  proof -
    obtain rest where "fs = (FInputDrop, drop_verdicts ins) # rest"
      using drop_run [OF run, of "[]"] by (auto simp: e)
    from V(2) [OF this] show ?thesis by (simp add: drop_verdicts_all [OF new] comp_def)
  qed
  with V(1) show ?thesis by blast
qed

end

end
