(* ===== verification/Router_Origin.thy ===== *)
theory Router_Origin
  imports Nat_Origin Router_Verdicts
begin

text \<open>
  Where the packets come from that leave a chain of filters. The contract \<open>origin_stage\<close>
  relates the state of a filter to the set of packets that it may have been given, and says what
  it may pass on or send then; it carries over to chains. All filters pass on what they were given,
  up to their bookkeeping, but the address translation, which passes on what Nat\_Origin allows; an
  accepting output sends the verdict, an output with libnet what it builds.
\<close>

section \<open>The contract\<close>

text \<open>
  \<open>has H s\<close>: all that the filter keeps goes back to the packets of \<open>H\<close>; \<open>gives s H\<close>: what it
  may give away when it is given packets of \<open>H\<close>. Packets count up to keys.
\<close>

locale origin_stage =
  fixes step :: "'s \<Rightarrow> 'x list \<Rightarrow> 'e list \<Rightarrow> 's \<Rightarrow> bool"
    and has :: "'k set \<Rightarrow> 's \<Rightarrow> bool"
    and gives :: "'s \<Rightarrow> 'k set \<Rightarrow> 'm set"
    and key_in :: "'x \<Rightarrow> 'k" and key_out :: "'e \<Rightarrow> 'm"
  assumes step_origin: "step s i out s' \<Longrightarrow> has H s \<Longrightarrow> key_in ` set i \<subseteq> H \<Longrightarrow>
      has H s' \<and> key_out ` set out \<subseteq> gives s H \<and> gives s' = gives s"
begin

lemma run_origin:
  assumes "stage_run step s ins outs s'" and "has H s" and "key_in ` set ins \<subseteq> H"
  shows "has H s' \<and> key_out ` set outs \<subseteq> gives s H \<and> gives s' = gives s"
  using assms
proof (induction rule: stage_run.induct)
  case (more ins outs s1 i out s2)
  have IH: "has H s1" "key_out ` set outs \<subseteq> gives s H" "gives s1 = gives s"
    using more.IH more.prems by auto
  have "key_in ` set i \<subseteq> H" using more.prems(2) by auto
  from step_origin [OF more.hyps(2) IH(1) this] IH(2,3) show ?case by auto
qed simp

end

text \<open>In a chain: what a filter passes on, and what an output sends.\<close>

locale origin_chain =
  origin_stage step has sends key key + sink: origin_stage sink has egr key key_out
  for step :: "'s \<Rightarrow> 'x list \<Rightarrow> 'x list \<Rightarrow> 's \<Rightarrow> bool" and sink :: "'s \<Rightarrow> 'x list \<Rightarrow> 'e list \<Rightarrow> 's \<Rightarrow> bool"
    and has :: "'k set \<Rightarrow> 's \<Rightarrow> bool" and sends :: "'s \<Rightarrow> 'k set \<Rightarrow> 'k set" and egr :: "'s \<Rightarrow> 'k set \<Rightarrow> 'm set"
    and key and key_out +
  assumes step_egr: "step s i out s' \<Longrightarrow> egr s' = egr s"
    and sink_sends: "sink s i es s' \<Longrightarrow> sends s' = sends s"

primrec chain_has :: "('k set \<Rightarrow> 's \<Rightarrow> bool) \<Rightarrow> ('s \<Rightarrow> 'k set \<Rightarrow> 'k set) \<Rightarrow> 's list \<Rightarrow> 'k set \<Rightarrow> bool" where
  "chain_has has sends [] H = True"
| "chain_has has sends (s # ss) H = (has H s \<and> chain_has has sends ss (sends s H))"

primrec chain_egr ::
  "('s \<Rightarrow> 'k set \<Rightarrow> 'k set) \<Rightarrow> ('s \<Rightarrow> 'k set \<Rightarrow> 'm set) \<Rightarrow> 's list \<Rightarrow> 'k set \<Rightarrow> 'm set" where
  "chain_egr sends egr [] = (\<lambda>H. {})"
| "chain_egr sends egr (s # ss) = (\<lambda>H. egr s H \<union> chain_egr sends egr ss (sends s H))"

context origin_chain
begin

lemma chain_origin:
  "origin_stage (chain_step step sink n) (\<lambda>H ss. chain_has has sends ss H) (chain_egr sends egr) key key_out"
proof (induction n)
  case 0
  show ?case by unfold_locales auto
next
  case (Suc n)
  note tail = origin_stage.run_origin [OF Suc.IH] origin_stage.step_origin [OF Suc.IH]
  show ?case
  proof
    fix ss i out ss' H
    assume "chain_step step sink (Suc n) ss i out ss'" and h: "chain_has has sends ss H" and i: "key ` set i \<subseteq> H"
    then show "chain_has has sends ss' H \<and> key_out ` set out \<subseteq> chain_egr sends egr ss H
        \<and> chain_egr sends egr ss' = chain_egr sends egr ss"
    proof (cases rule: chain_stepE)
      case (passed s t s' t' mid)
      have hs: "has H s" "chain_has has sends t (sends s H)" using h by (simp_all add: passed(1))
      from step_origin [OF passed(3) hs(1) i]
      have s: "has H s'" "key ` set mid \<subseteq> sends s H" "sends s' = sends s" by auto
      from tail(1) [OF passed(4) hs(2) s(2)] s step_egr [OF passed(3)] show ?thesis by (auto simp: passed(1,2))
    next
      case (behind s t t')
      from tail(2) [OF behind(4)] h show ?thesis by (auto simp: behind(1,2))
    next
      case (sent s t s')
      from sink.step_origin [OF sent(3) _ i] sink_sends [OF sent(3)] h show ?thesis by (auto simp: sent(1,2))
    qed
  qed
qed

end

section \<open>The address translation\<close>

lemma nat_cfg_sends:
  assumes "same_cfg n n'"
  shows "nat_sends n' = nat_sends n"
proof -
  have "via_connection n' = via_connection n" "known_remote n' = known_remote n"
    using assms by (simp_all add: fun_eq_iff same_cfg_def via_connection_def known_remote_def)
  then have "let_in n' = let_in n" using assms by (simp add: fun_eq_iff same_cfg_def let_in_def split: option.split)
  then show ?thesis using assms by (simp add: fun_eq_iff same_cfg_def nat_sends_def)
qed

lemma nat_filter_origin:
  assumes "nat_filter_step n i out n'" and "nat_from H n" and "bare ` set i \<subseteq> H"
  shows "nat_from H n' \<and> bare ` set out \<subseteq> nat_sends n H \<and> nat_sends n' = nat_sends n"
  using assms(1)
proof cases
  case (handle now pkt opt)
  then have h: "Nat_handlePacket now pkt n = Inr (opt, n')" "bare pkt \<in> H" using assms(3) by auto
  have "nat_ok n" using assms(2) by (simp add: nat_from_def)
  from nat_step_ok [OF nat_step.handle [OF h(1)] this] nat_handle_origin [OF h(1) assms(2) h(2)] handle
  show ?thesis by (auto simp: nat_cfg_sends split: option.splits)
next
  case (mapper_timer m m')
  have "nat_ok n'" "same_cfg n n'"
    using nat_step_ok [OF nat_step.mapper_timer] mapper_timer assms(2) by (auto simp: nat_from_def)
  then show ?thesis using mapper_timer assms(2) mapper_from_tick [of m m' H]
    by (auto simp: nat_from_def nat_cfg_sends)
next
  case (filter_timer f f')
  have "nat_ok n'" "same_cfg n n'"
    using nat_step_ok [OF nat_step.filter_timer] filter_timer assms(2) by (auto simp: nat_from_def)
  then show ?thesis using filter_timer assms(2) filter_from_tick [of f f' "natIpExt n" H]
    by (auto simp: nat_from_def nat_cfg_sends)
qed

section \<open>The filters\<close>

lemma bare_of_subseq: "subseq ps qs \<Longrightarrow> bare ` set ps \<subseteq> bare ` set qs"
  using subseq_set by (metis image_mono)

lemma delay_step_bare:
  "delay_step s i out s' \<Longrightarrow> delay_ok s \<Longrightarrow>
     bare ` set (delay_held s') \<union> bare ` set out = bare ` set (delay_held s) \<union> bare ` set i"
proof (induction rule: delay_step.induct)
  case (arrive s pkt)
  then show ?case by (simp add: delay_arrive_ok)
next
  case (pop k s ec d now)
  then show ?case using delay_pop_ok(2) [OF pop(3,1,2)] by simp
next
  case (fire k s expiry pkt now pkt' s')
  then show ?case using delay_fire_ok(2,3) [OF fire(5,1,2,4)] by simp
qed

lemma dd_step_bare:
  "dd_step sn i out sn' \<Longrightarrow> delay_ok (fst sn) \<Longrightarrow>
     bare ` set (delay_held (fst sn')) \<union> bare ` set out = bare ` set (delay_held (fst sn)) \<union> bare ` set i"
  by (induction rule: dd_step.induct) (simp_all add: delay_step_bare delay_ok_frame)

lemma tbf_step_bare:
  assumes "tbf_step s i out s'" and "tbf_ok s"
  shows "bare ` set (obj_packets (FTokenBucket s')) \<union> bare ` set out \<subseteq>
    bare ` set (obj_packets (FTokenBucket s)) \<union> bare ` set i"
proof -
  obtain e b where st: "tb_step (tb_of e s) i out b" "\<forall>p \<in> set i. isIngoing p = e"
    "tb_of e s' = b" "tb_of (\<not> e) s' = tb_of (\<not> e) s"
    using tbf_step_bucket [OF assms(1)] .
  have "tb_ok (tb_of e s)" using assms(2) by (simp add: tbf_ok_def)
  from bare_of_subseq [OF tb_step_order [OF st(1) this]]
  have u: "bare ` set (tbQueue b) \<union> bare ` set out \<subseteq> bare ` set (tbQueue (tb_of e s)) \<union> bare ` set i" by auto
  have two: "bare ` set (obj_packets (FTokenBucket t)) =
      bare ` set (tbQueue (tb_of e t)) \<union> bare ` set (tbQueue (tb_of (\<not> e) t))" for t
    by (cases e) (auto simp: tb_of_def)
  from u show ?thesis unfolding two st(3,4) by blast
qed

text \<open>What an object keeps, and what it sends.\<close>

definition obj_has ::
  "('a pkt set \<Rightarrow> nat_handler \<Rightarrow> bool) \<Rightarrow> 'a pkt set \<Rightarrow> 'a pkt stage_obj \<Rightarrow> bool" where
  "obj_has nat_has H x \<longleftrightarrow> obj_ok x \<and> bare ` set (obj_packets x) \<subseteq> H \<and> (\<forall>n. x = FNat n \<longrightarrow> nat_has H n)"

fun obj_sends ::
  "(nat_handler \<Rightarrow> 'a pkt set \<Rightarrow> 'a pkt set) \<Rightarrow> 'a pkt stage_obj \<Rightarrow> 'a pkt set \<Rightarrow> 'a pkt set" where
  "obj_sends nat_snd (FNat n) = nat_snd n"
| "obj_sends nat_snd x = (\<lambda>H. H)"

text \<open>What the outputs send; the packet object beside it counts up to its bookkeeping.\<close>

fun obj_egr ::
  "((libnet_call \<Rightarrow> int) \<Rightarrow> 'a pkt \<Rightarrow> unit libnet_code) \<Rightarrow> 'a pkt stage_obj \<Rightarrow> 'a pkt set \<Rightarrow> 'a pkt sent set" where
  "obj_egr build FOutput = (\<lambda>H. {(p, Accepted (nfqID p)) | p. p \<in> H})"
| "obj_egr build (FOutputLibnet s) = (\<lambda>H. {(p, Written calls) | p calls. p \<in> H \<and> (\<exists>lib. build lib p = (calls, Inr ()))})"
| "obj_egr build x = (\<lambda>H. {})"

definition sent_key :: "'a pkt sent \<Rightarrow> 'a pkt sent" where
  "sent_key x = (bare (fst x), snd x)"

locale origin_filters = chain_filters build nat + nat: origin_stage nat nat_has nat_snd bare bare
  for build :: "(libnet_call \<Rightarrow> int) \<Rightarrow> 'a parent_packet_scheme \<Rightarrow> unit libnet_code" and nat
    and nat_has :: "'a parent_packet_scheme set \<Rightarrow> nat_handler \<Rightarrow> bool" and nat_snd +
  assumes build_bare: "build lib (bare p) = build lib p"
begin

lemma obj_step_bare:
  "obj_step nat x i out x' \<Longrightarrow> obj_ok x \<Longrightarrow> \<forall>n. x \<noteq> FNat n \<Longrightarrow>
     bare ` set (obj_packets x') \<union> bare ` set out \<subseteq> bare ` set (obj_packets x) \<union> bare ` set i"
proof (induction rule: obj_step.induct)
  case (input pkt out vs)
  then show ?case by (simp add: Input_handlePacket_def)
next
  case (input_drop pkt out vs)
  then show ?case by (auto simp: InputDrop_handlePacket_def setVerdict_def split: prod.splits if_splits)
next
  case (static_delay s i out s')
  then show ?case using delay_step_bare [OF static_delay(1)] by simp
next
  case (loss f i out f')
  from loss(1) show ?case
    by cases (auto simp: Loss_handlePacket_def setVerdict_def split: prod.splits if_splits)
next
  case (burst b i out b')
  from arg_cong [OF burst_race_keeps [OF burst(1)], of "\<lambda>m. bare ` set_mset m"] show ?case by (simp add: image_Un) blast
next
  case (token_bucket t i out t')
  then show ?case using tbf_step_bare [OF token_bucket(1)] by simp
next
  case (dynamic_delay s i out s' m)
  then show ?case using dd_step_bare [OF dynamic_delay(1)] by simp
next
  case (dynamic_loss f i out f' m)
  from dynamic_loss(1) show ?case
    by cases (auto simp: DynamicLoss_handlePacket_def Let_def setVerdict_def split: prod.splits if_splits)
qed simp

lemma obj_origin: "origin_stage (obj_step nat) (obj_has nat_has) (obj_sends nat_snd) bare bare"
proof
  fix x i out x' H
  assume st: "obj_step nat x i out x'" and h: "obj_has nat_has H x" and i: "bare ` set i \<subseteq> H"
  have ok: "obj_ok x'" using obj_step_ok [OF st] h by (simp add: obj_has_def)
  show "obj_has nat_has H x' \<and> bare ` set out \<subseteq> obj_sends nat_snd x H \<and> obj_sends nat_snd x' = obj_sends nat_snd x"
  proof (cases "\<exists>n. x = FNat n")
    case True
    then obtain n where x: "x = FNat n" by blast
    with st obtain n' where n': "x' = FNat n'" "nat n i out n'" by (auto elim: obj_step.cases)
    from nat.step_origin [OF n'(2) _ i] h show ?thesis by (auto simp: x n'(1) obj_has_def)
  next
    case False
    then have e: "bare ` set (obj_packets x') \<union> bare ` set out \<subseteq> bare ` set (obj_packets x) \<union> bare ` set i"
      using obj_step_bare [OF st] h by (auto simp: obj_has_def)
    have same: "obj_sends nat_snd x = (\<lambda>H. H)" "obj_sends nat_snd x' = (\<lambda>H. H)" "\<forall>n. x' \<noteq> FNat n"
      using st False by (cases x; auto elim: obj_step.cases)+
    have "bare ` set (obj_packets x) \<union> bare ` set i \<subseteq> H" using h i by (simp add: obj_has_def)
    with e have "bare ` set (obj_packets x') \<union> bare ` set out \<subseteq> H" by (rule subset_trans)
    then show ?thesis using ok same by (simp add: obj_has_def)
  qed
qed

lemma obj_send_origin:
  assumes "obj_send build x i out vs x'" and "obj_has nat_has H x" and "bare ` set i \<subseteq> H"
  shows "obj_has nat_has H x' \<and> sent_key ` set out \<subseteq> obj_egr build x H \<and> obj_egr build x' = obj_egr build x"
proof (cases "obj_kind x = KOutput")
  case True
  then have x: "x = FOutput" by (cases x) simp_all
  from assms(1) [unfolded x] show ?thesis
    by (rule obj_send_output) (use assms(2,3) in \<open>auto simp: x sent_key_def\<close>)
next
  case False
  then obtain l where x: "x = FOutputLibnet l" using obj_send_kind [OF assms(1)] by (cases x) simp_all
  from assms(1) [unfolded x] obtain l' where l: "x' = FOutputLibnet l'" "out_step build True l i (map fst out) l'"
    by (rule obj_send_libnet)
  have "subseq (map fst out @ out_held l') (out_held l @ i)"
    using out_step_effect [OF l(2)] assms(2) by (simp add: x obj_has_def)
  from bare_of_subseq [OF this]
  have "bare ` set (map fst out @ out_held l') \<subseteq> bare ` set (out_held l) \<union> bare ` set i" by (simp add: image_Un)
  also have "\<dots> \<subseteq> H" using assms(2,3) by (simp add: x obj_has_def)
  finally have "bare ` set (map fst out) \<union> bare ` set (out_held l') \<subseteq> H" by (simp add: image_Un)
  then have h: "bare ` set (out_held l') \<subseteq> H" and o: "\<forall>e \<in> set out. bare (fst e) \<in> H" by auto
  have "sent_key e \<in> obj_egr build x H" if e: "e \<in> set out" for e
  proof -
    have w: "sent_well e" using obj_send_well [OF assms(1)] e by (simp add: list_all_iff)
    have "\<exists>calls. snd e = Written calls"
      using assms(1)
    proof cases
      case (pop k s ec d lib reinit calls s')
      from e pop(8) have "e \<in> set (case d of None \<Rightarrow> [] | Some p \<Rightarrow> [(p, Written calls)])"
        by (cases "Write_packet \<in> set calls \<and> lib Write_packet \<noteq> -1") simp_all
      then show ?thesis by (cases d) simp_all
    qed (use x e in simp_all)
    then obtain calls where c: "e = (fst e, Written calls)" by (metis prod.collapse)
    have "bare (fst e) \<in> H" using o e by blast
    moreover have "\<exists>lib. build lib (bare (fst e)) = (calls, Inr ())"
      using w arg_cong [OF c, of snd] by (simp add: sent_well_def build_bare)
    ultimately show ?thesis using arg_cong [OF c, of snd] by (simp add: x sent_key_def)
  qed
  moreover have "obj_ok x'" using obj_send_order [OF assms(1)] assms(2) by (simp add: obj_has_def)
  ultimately show ?thesis using h by (auto simp: obj_has_def l(1) x)
qed

lemma obj_origin_chain: "origin_chain (obj_step nat) (obj_sink build) (obj_has nat_has) (obj_sends nat_snd) (obj_egr build) bare sent_key"
proof (intro origin_chain.intro obj_origin origin_chain_axioms.intro)
  show "origin_stage (obj_sink build) (obj_has nat_has) (obj_egr build) bare sent_key"
    by unfold_locales (unfold obj_sink_def, elim exE, rule obj_send_origin)
next
  fix x i out x'
  assume "obj_step nat x i out x'"
  from obj_step_kind [OF this] show "obj_egr build x' = obj_egr build x" by (cases x; cases x') simp_all
next
  fix x i out x'
  assume "obj_sink build x i out x'"
  then show "obj_sends nat_snd x' = obj_sends nat_snd x"
    by (auto simp: obj_sink_def elim!: obj_send.cases)
qed

end

text \<open>The filters of a chain that rewrite packets.\<close>

fun nats :: "'a pkt stage_obj list \<Rightarrow> nat_handler list" where
  "nats [] = []"
| "nats (FNat n # xs) = n # nats xs"
| "nats (x # xs) = nats xs"

lemma nats_append [simp]: "nats (xs @ ys) = nats xs @ nats ys"
  by (induction xs rule: nats.induct) simp_all

lemma nats_none: "KNat \<notin> set (map obj_kind xs) \<Longrightarrow> nats xs = []"
  by (induction xs rule: nats.induct) simp_all

lemma nats_one:
  assumes "FNat n \<in> set xs" and "distinct (map obj_kind xs)"
  shows "nats xs = [n]"
proof -
  obtain ys zs where "xs = ys @ FNat n # zs" using assms(1) by (meson split_list)
  with assms(2) show ?thesis by (simp add: nats_none)
qed

text \<open>What a chain sends with the output at its end, and what one without address translation sends.\<close>

lemma chain_egr_last:
  "(p, Written calls) \<in> chain_egr (obj_sends nat_snd) (obj_egr build) (xs @ [FOutputLibnet s]) H \<Longrightarrow>
     KOutputLibnet \<notin> set (map obj_kind xs) \<Longrightarrow>
     p \<in> fold nat_snd (nats xs) H \<and> (\<exists>lib. build lib p = (calls, Inr ()))"
  by (induction xs arbitrary: H rule: nats.induct) auto

lemma chain_egr_plain:
  "(p, e) \<in> chain_egr (obj_sends nat_snd) (obj_egr build) xs H \<Longrightarrow> nats xs = [] \<Longrightarrow>
     p \<in> H \<and> (case e of Accepted i \<Rightarrow> i = nfqID p | Written calls \<Rightarrow> \<exists>lib. build lib p = (calls, Inr ()))"
proof (induction xs)
  case (Cons x xs)
  then show ?case by (cases x) auto
qed simp

context origin_filters
begin

text \<open>From the initialisation on.\<close>

lemma chain_run_origin:
  assumes "stage_run (chain_step (obj_step nat) (obj_sink build) n) xs ins outs fs"
    and "\<forall>x \<in> set xs. obj_started x" and "\<And>m H. nat_has H (snd (Nat_init m))"
  shows "sent_key ` set outs \<subseteq> chain_egr (obj_sends nat_snd) (obj_egr build) xs (bare ` set ins)"
proof -
  have "obj_has nat_has H x" if "x \<in> set xs" for x H
  proof -
    from assms(2) that have x: "obj_started x" by blast
    then have "obj_ok x" "obj_packets x = []" by (simp_all add: obj_started_def obj_packets_none)
    moreover have "nat_has H m" if "x = FNat m" for m
      using x that assms(3) by (auto simp: obj_started_def)
    ultimately show ?thesis by (simp add: obj_has_def)
  qed
  then have "chain_has (obj_has nat_has) (obj_sends nat_snd) xs H" for H
    by (induction xs arbitrary: H) simp_all
  from origin_stage.run_origin [OF origin_chain.chain_origin [OF obj_origin_chain] assms(1) this subset_refl]
  show ?thesis by simp
qed

text \<open>Sent with libnet by the output at the end.\<close>

lemma chain_written:
  assumes "stage_run (chain_step (obj_step nat) (obj_sink build) n) (xs @ [x]) ins outs fs"
    and "\<forall>y \<in> set (xs @ [x]). obj_started y" and "\<And>m H. nat_has H (snd (Nat_init m))"
    and "obj_kind x = KOutputLibnet" and "KOutputLibnet \<notin> set (map obj_kind xs)" and "(q, Written calls) \<in> set outs"
  shows "bare q \<in> fold nat_snd (nats xs) (bare ` set ins) \<and> (\<exists>lib. build lib q = (calls, Inr ()))"
proof -
  obtain s where x: "x = FOutputLibnet s" using assms(4) by (cases x) simp_all
  from chain_run_origin [OF assms(1-3)] assms(6)
  have "(bare q, Written calls) \<in> chain_egr (obj_sends nat_snd) (obj_egr build) (xs @ [FOutputLibnet s]) (bare ` set ins)"
    by (force simp: x sent_key_def)
  from chain_egr_last [OF this assms(5)] show ?thesis by (simp add: build_bare)
qed

text \<open>Sent by a chain without address translation.\<close>

lemma chain_plain:
  assumes "stage_run (chain_step (obj_step nat) (obj_sink build) n) xs ins outs fs"
    and "\<forall>y \<in> set xs. obj_started y" and "\<And>m H. nat_has H (snd (Nat_init m))"
    and "nats xs = []" and "(q, e) \<in> set outs"
  shows "\<exists>p \<in> set ins. bare q = bare p
    \<and> (case e of Accepted i \<Rightarrow> i = nfqID p | Written calls \<Rightarrow> \<exists>lib. build lib p = (calls, Inr ()))"
proof -
  from chain_run_origin [OF assms(1-3)] assms(5)
  have "(bare q, e) \<in> chain_egr (obj_sends nat_snd) (obj_egr build) xs (bare ` set ins)"
    by (force simp: sent_key_def)
  from chain_egr_plain [OF this assms(4)] have i: "bare q \<in> bare ` set ins"
    and e: "case e of Accepted i \<Rightarrow> i = nfqID (bare q) | Written calls \<Rightarrow> \<exists>lib. build lib (bare q) = (calls, Inr ())"
    by blast+
  from i obtain p where p: "p \<in> set ins" "bare q = bare p" by blast
  from p e [unfolded p(2) build_bare bare_fields(4)] show ?thesis by blast
qed

end

lemma build_udp_bare: "build_udp lib (bare p) = build_udp lib p"
  by (simp add: build_udp_def bare_def fun_eq_iff)

lemma build_tcp_bare: "build_tcp lib (bare p) = build_tcp lib p"
  by (simp add: build_tcp_def bare_def fun_eq_iff)

lemma libnet_build_bare:
  "OutputLibnet_build lib (bare p) = OutputLibnet_build lib p" "Output6Libnet_build lib (bare p6) = Output6Libnet_build lib p6"
  unfolding OutputLibnet_build_def Output6Libnet_build_def build_udp_bare build_tcp_bare
  by (simp_all add: bare_def getFragmentID_def getFragmentFlags_def getTclass_def getFlowLabel_def)

interpretation origin4: origin_filters OutputLibnet_build nat_filter_step nat_from nat_sends
  by unfold_locales (erule (2) nat_filter_origin, rule libnet_build_bare)

interpretation origin6: origin_filters Output6Libnet_build "\<lambda>n i out n'. False" "\<lambda>H n. True" "\<lambda>n H. H"
  by unfold_locales (simp_all add: libnet_build_bare)

interpretation sources4: origin_chain "obj_step nat_filter_step" "obj_sink OutputLibnet_build"
  "obj_has nat_from" "obj_sends nat_sends" "obj_egr OutputLibnet_build" bare sent_key
  by (rule origin4.obj_origin_chain)

interpretation sources6: origin_chain "obj_step (\<lambda>n i out n'. False)" "obj_sink Output6Libnet_build"
  "obj_has (\<lambda>H n. True)" "obj_sends (\<lambda>n H. H)" "obj_egr Output6Libnet_build" bare sent_key
  by (rule origin6.obj_origin_chain)

lemma nat_from_started: "nat_from H (snd (Nat_init m))"
  using from_mono(3) [OF _ nat_from_init] by simp

end
