(* ===== verification/Main_Options.thy ===== *)
theory Main_Options
  imports Router_Verdicts
begin

text \<open>
  The program (main.cpp): from the parsed options to the configured router. The parsing itself
  is boost's; its result is the argument, \<open>None\<close> when it throws. The result tells how the
  program goes on: with an exit code, or with \<open>execute\<close> or \<open>execute6\<close> of the router.
\<close>

record options =
  help_opt :: bool
  ext_if :: "string option"
  nat_ext_ip :: "string option"
  nat_int_ip :: "string option"
  nat_type_opt :: "string option"
  nat_timeout :: "u32 option"
  delay_opt :: "int option"
  loss_opt :: "real option"
  tbf_in_rate :: "int option"
  tbf_in_max_tokens :: "int option"
  tbf_in_max_packets :: "int option"
  tbf_in_red_start :: "int option"
  tbf_out_rate :: "int option"
  tbf_out_max_tokens :: "int option"
  tbf_out_max_packets :: "int option"
  tbf_out_red_start :: "int option"
  dyn_delays :: "int list option"
  dyn_delay_res :: "int option"
  dyn_losses :: "real list option"
  dyn_loss_times :: "int list option"
  burst_dur :: "int option"
  burst_sleep :: "int option"
  nat_ext_port :: "u16 list option"
  nat_int_port :: "u16 list option"
  filters :: "string list option"
  ipv6 :: bool
  accept_mode :: bool

datatype main_end = Exit int | Execute | Execute6

text \<open>\<open>if (vm.count(...)) rt->set(vm[...])\<close>\<close>

definition given :: "'v option \<Rightarrow> ('v \<Rightarrow> router \<Rightarrow> router) \<Rightarrow> router \<Rightarrow> router" where
  "given v f r = (case v of None \<Rightarrow> r | Some x \<Rightarrow> f x r)"

text \<open>The choice of the filters.\<close>

definition main_filters :: "options \<Rightarrow> string list option" where
  "main_filters vm =
     (case filters vm of
        None \<Rightarrow> None
      | Some fs \<Rightarrow> Some (if accept_mode vm then ''Input'' # fs @ [''Output'']
                         else ''InputDrop'' # fs @ [''OutputLibnet'']))"

definition main_init :: "ctor_env \<Rightarrow> ctor_env \<Rightarrow> string \<Rightarrow> options \<Rightarrow> fault + bool \<times> router" where
  "main_init env4 env6 ext vm =
     (case main_filters vm of
        Some fs \<Rightarrow> Router_init_filters env4 env6 ext fs Router_new
      | None \<Rightarrow> Router_init env4 env6 ext Router_new)"

definition the_ip :: "string option \<Rightarrow> string" where
  "the_ip ip = (case ip of None \<Rightarrow> '''' | Some s \<Rightarrow> s)"

text \<open>The settings that cannot fail; \<open>int\<close> values become \<open>uint32_t\<close> in the calls.\<close>

definition main_settings :: "(string \<Rightarrow> u32) \<Rightarrow> options \<Rightarrow> router \<Rightarrow> router" where
  "main_settings inet_network vm =
     given (burst_sleep vm) Router_setSleepDuration
   \<circ> given (burst_dur vm) Router_setBurstDuration
   \<circ> given (tbf_out_red_start vm) (\<lambda>x. setTbfOutRedStart (word_of_int x))
   \<circ> given (tbf_out_max_packets vm) (\<lambda>x. setTbfOutMaxPackets (word_of_int x))
   \<circ> given (tbf_out_max_tokens vm) (\<lambda>x. setTbfOutMaxTokens (word_of_int x))
   \<circ> given (tbf_out_rate vm) (\<lambda>x. setTbfOutRateLimit (word_of_int x))
   \<circ> given (tbf_in_red_start vm) (\<lambda>x. setTbfInRedStart (word_of_int x))
   \<circ> given (tbf_in_max_packets vm) (\<lambda>x. setTbfInMaxPackets (word_of_int x))
   \<circ> given (tbf_in_max_tokens vm) (\<lambda>x. setTbfInMaxTokens (word_of_int x))
   \<circ> given (tbf_in_rate vm) (\<lambda>x. setTbfInRateLimit (word_of_int x))
   \<circ> given (loss_opt vm) Router_setLoss
   \<circ> given (delay_opt vm) Router_setDelay
   \<circ> given (nat_timeout vm) Router_setNatTimeout
   \<circ> given (nat_type_opt vm) Router_setNatType
   \<circ> Router_setIPs inet_network (the_ip (nat_ext_ip vm)) (the_ip (nat_int_ip vm))"

text \<open>The options that belong together; \<open>Inl\<close> inside of the result is an exit code.\<close>

definition main_dyn_delays :: "options \<Rightarrow> router \<Rightarrow> fault + (int + router)" where
  "main_dyn_delays vm r =
     (case dyn_delays vm of
        None \<Rightarrow> Inr (Inr r)
      | Some dd \<Rightarrow>
          (case dyn_delay_res vm of
             None \<Rightarrow> Inr (Inl 1)
           | Some ddr \<Rightarrow> try_bind (setDynamicDelays dd ddr r) (\<lambda>r'. Inr (Inr r'))))"

definition main_dyn_losses :: "options \<Rightarrow> router \<Rightarrow> int + router" where
  "main_dyn_losses vm r =
     (case dyn_losses vm of
        None \<Rightarrow> Inr r
      | Some dl \<Rightarrow>
          (case dyn_loss_times vm of
             None \<Rightarrow> Inl 1
           | Some dlt \<Rightarrow> if length dl \<noteq> length dlt then Inl 1 else Inr (setDynamicLosses dlt dl r)))"

definition main_ports :: "options \<Rightarrow> int + (u16 \<times> u16) list" where
  "main_ports vm =
     (case nat_ext_port vm of
        None \<Rightarrow> Inr []
      | Some extNat \<Rightarrow>
          (let intNat = (case nat_int_port vm of None \<Rightarrow> extNat | Some i \<Rightarrow> i)
           in if length extNat \<noteq> length intNat then Inl 1 else Inr (zip extNat intNat)))"

definition main_rest :: "(string \<Rightarrow> u32) \<Rightarrow> options \<Rightarrow> router \<Rightarrow> fault + main_end \<times> router" where
  "main_rest inet_network vm r =
     try_bind (main_dyn_delays vm r) (\<lambda>d.
       case d of
         Inl code \<Rightarrow> Inr (Exit code, r)
       | Inr r1 \<Rightarrow>
           (case main_dyn_losses vm r1 of
              Inl code \<Rightarrow> Inr (Exit code, r1)
            | Inr r2 \<Rightarrow>
                (case main_ports vm of
                   Inl code \<Rightarrow> Inr (Exit code, r2)
                 | Inr ports \<Rightarrow>
                     Inr (if ipv6 vm then Execute6 else Execute,
                          fold (\<lambda>(e, i). Router_setDnatRule inet_network (the_ip (nat_int_ip vm)) e i) ports r2))))"

definition main :: "(string \<Rightarrow> u32) \<Rightarrow> ctor_env \<Rightarrow> ctor_env \<Rightarrow> options option \<Rightarrow> fault + main_end \<times> router" where
  "main inet_network env4 env6 parsed =
     (case parsed of
        None \<Rightarrow> Inr (Exit 1, Router_new)
      | Some vm \<Rightarrow>
          if help_opt vm then Inr (Exit 0, Router_new)
          else case ext_if vm of
            None \<Rightarrow> Inr (Exit 1, Router_new)
          | Some ext \<Rightarrow>
              try_bind (main_init env4 env6 ext vm) (\<lambda>(b, r).
                main_rest inet_network vm (main_settings inet_network vm r)))"

section \<open>The configuration calls\<close>

definition conf :: "router \<Rightarrow> router \<Rightarrow> bool" where
  "conf r r' \<longleftrightarrow> extIf r' = extIf r \<and> configured (chain4 r) (chain4 r') \<and> configured (chain6 r) (chain6 r')"

lemma conf_refl [simp]: "conf r r"
  by (simp add: conf_def)

lemma conf_trans: "conf r r' \<Longrightarrow> conf r' r'' \<Longrightarrow> conf r r''"
  by (auto simp: conf_def intro: configured_trans)

lemma conf_both: "config_call f \<Longrightarrow> config_call g \<Longrightarrow> conf r (both k f g r)"
  by (simp add: conf_def both_def configured_update_slot)

lemma conf_only4: "config_call f \<Longrightarrow> conf r (only4 k f r)"
  by (simp add: conf_def only4_def configured_update_slot)

lemmas router_setter_defs = Router_setDelay_def Router_setLoss_def Router_setIPs_def Router_setDnatRule_def
  Router_setNatType_def Router_setNatTimeout_def Router_setBurstDuration_def Router_setSleepDuration_def
  setTbfInRateLimit_def setTbfInMaxTokens_def setTbfInMaxPackets_def setTbfInRedStart_def
  setTbfOutRateLimit_def setTbfOutMaxTokens_def setTbfOutMaxPackets_def setTbfOutRedStart_def setDynamicLosses_def

lemma conf_setters:
  "conf r (Router_setDelay d r)" "conf r (Router_setLoss l r)" "conf r (Router_setIPs inet e i r)"
  "conf r (Router_setDnatRule inet ip x y r)" "conf r (Router_setNatType t r)" "conf r (Router_setNatTimeout to r)"
  "conf r (Router_setBurstDuration d r)" "conf r (Router_setSleepDuration d r)" "conf r (setTbfInRateLimit w r)"
  "conf r (setTbfInMaxTokens w r)" "conf r (setTbfInMaxPackets w r)" "conf r (setTbfInRedStart w r)"
  "conf r (setTbfOutRateLimit w r)" "conf r (setTbfOutMaxTokens w r)" "conf r (setTbfOutMaxPackets w r)"
  "conf r (setTbfOutRedStart w r)" "conf r (setDynamicLosses ts ls r)"
  unfolding router_setter_defs
  by (intro conf_both conf_only4 config_calls tbf_fresh_setters; assumption)+

lemma conf_setDynamicDelays: "setDynamicDelays d res r = Inr r' \<Longrightarrow> conf r r'"
  by (auto simp: setDynamicDelays_def try_bind_Inr_iff conf_def dest: configured_setDelays)

lemma conf_given: "(\<And>x r. conf r (f x r)) \<Longrightarrow> conf r (given v f r)"
  by (simp add: given_def split: option.split)

lemma conf_comp: "(\<And>r. conf r (g r)) \<Longrightarrow> (\<And>r. conf r (f r)) \<Longrightarrow> conf r ((f \<circ> g) r)"
  using conf_trans by fastforce

lemma conf_settings: "conf r (main_settings inet vm r)"
  unfolding main_settings_def by (intro conf_comp conf_given conf_setters)

lemma conf_fold: "(\<And>x r. conf r (f x r)) \<Longrightarrow> conf r (fold f xs r)"
  by (induction xs arbitrary: r) (auto intro: conf_trans)

lemma conf_dyn_delays: "main_dyn_delays vm r = Inr (Inr r') \<Longrightarrow> conf r r'"
  by (auto simp: main_dyn_delays_def try_bind_Inr_iff dest: conf_setDynamicDelays split: option.splits)

lemma conf_dyn_losses: "main_dyn_losses vm r = Inr r' \<Longrightarrow> conf r r'"
  by (auto simp: main_dyn_losses_def conf_setters split: option.splits if_splits)

lemma conf_rest:
  assumes "main_rest inet vm r = Inr (e, r')"
  shows "conf r r'"
proof -
  from assms obtain d where d: "main_dyn_delays vm r = Inr d" by (auto simp: main_rest_def try_bind_Inr_iff)
  show ?thesis
  proof (cases d)
    case (Inl code)
    then show ?thesis using assms d by (simp add: main_rest_def)
  next
    case (Inr r1)
    have 1: "conf r r1" using conf_dyn_delays d Inr by blast
    show ?thesis
    proof (cases "main_dyn_losses vm r1")
      case (Inl code)
      then show ?thesis using assms d Inr 1 by (simp add: main_rest_def)
    next
      case r2: (Inr r2)
      have 2: "conf r r2" using 1 conf_dyn_losses [OF r2] conf_trans by blast
      have "conf r2 (fold (\<lambda>(e, i). Router_setDnatRule inet ip e i) ports r2)" for ip ports
        by (rule conf_fold) (auto simp: conf_setters)
      then show ?thesis using assms d Inr r2 2 conf_trans
        by (auto simp: main_rest_def split: sum.splits)
    qed
  qed
qed

lemma conf_main:
  assumes "main inet env4 env6 (Some vm) = Inr (e, r)" and "e = Execute \<or> e = Execute6"
  obtains ext r0 where "main_init env4 env6 ext vm = Inr (True, r0)" and "conf r0 r"
    and "ext_if vm = Some ext" and "extIf r = ext"
proof -
  from assms obtain ext b r0 where m: "main_init env4 env6 ext vm = Inr (b, r0)" "ext_if vm = Some ext"
    "main_rest inet vm (main_settings inet vm r0) = Inr (e, r)"
    by (auto simp: main_def try_bind_Inr_iff split: if_splits option.splits)
  then have "b" and x: "extIf r0 = ext"
    by (auto simp: main_init_def Router_init_def Router_init_filters_def try_bind_Inr_iff split: option.splits)
  with m(1) have "main_init env4 env6 ext vm = Inr (True, r0)" by simp
  moreover have c: "conf r0 r" using conf_trans [OF conf_settings conf_rest [OF m(3)]] .
  moreover have "extIf r = ext" using c x by (simp add: conf_def)
  ultimately show ?thesis using that m(2) by blast
qed

section \<open>When the program starts\<close>

lemma setDelays_total: "ds \<noteq> [] \<Longrightarrow> \<exists>c s'. setDelays ds res s = Inr (c, s')"
  by (cases ds) (auto simp: setDelays_def Let_def)

lemma chain_setDelays_total: "ds \<noteq> [] \<Longrightarrow> \<exists>c'. chain_setDelays ds res c = Inr c'"
  using setDelays_total [of ds res]
  by (fastforce simp: chain_setDelays_def try_bind_Inr_iff split: option.splits prod.splits stage_obj.splits)

lemma setDynamicDelays_total:
  assumes "ds \<noteq> []"
  shows "\<exists>r'. setDynamicDelays ds res r = Inr r'"
proof -
  from chain_setDelays_total [OF assms] obtain c4 where "chain_setDelays ds res (chain4 r) = Inr c4" by blast
  moreover from chain_setDelays_total [OF assms] obtain c6 where "chain_setDelays ds res (chain6 r) = Inr c6" by blast
  ultimately show ?thesis by (simp add: setDynamicDelays_def)
qed

lemma main_filters_input:
  assumes "main_filters vm = Some fs"
  shows "\<exists>k ks. List.map_filter kind_of fs = k # ks \<and> is_input k"
  using assms by (auto simp: main_filters_def map_filter_simps kind_of_def is_input_def split: option.splits if_splits)

lemma main_init_total: "\<exists>r. main_init env4 env6 ext vm = Inr (True, r)"
proof (cases "main_filters vm")
  case None
  then show ?thesis using default_chains [of env4 env6 ext] by (auto simp: main_init_def)
next
  case (Some fs)
  then obtain k ks where "List.map_filter kind_of fs = k # ks" "is_input k" using main_filters_input by blast
  from router_chains_aux [OF this, of env4 env6 ext] Some show ?thesis by (auto simp: main_init_def)
qed

definition consistent :: "options \<Rightarrow> bool" where
  "consistent vm \<longleftrightarrow> ext_if vm \<noteq> None \<and> (dyn_delays vm \<noteq> None \<longrightarrow> dyn_delay_res vm \<noteq> None)
     \<and> (case dyn_losses vm of None \<Rightarrow> True | Some dl \<Rightarrow>
          (case dyn_loss_times vm of None \<Rightarrow> False | Some t \<Rightarrow> length t = length dl))
     \<and> (case (nat_ext_port vm, nat_int_port vm) of (Some e, Some i) \<Rightarrow> length e = length i | _ \<Rightarrow> True)"

lemma main_dyn_delays_total:
  assumes "dyn_delays vm \<noteq> Some []"
  shows "\<exists>r'. main_dyn_delays vm r =
    Inr (if dyn_delays vm \<noteq> None \<and> dyn_delay_res vm = None then Inl 1 else Inr r')"
proof (cases "dyn_delays vm")
  case (Some dd)
  show ?thesis
  proof (cases "dyn_delay_res vm")
    case res: (Some res)
    have "dd \<noteq> []" using assms Some by simp
    from setDynamicDelays_total [OF this, of res r] obtain r' where "setDynamicDelays dd res r = Inr r'" by (elim exE)
    then show ?thesis using Some res by (simp add: main_dyn_delays_def)
  qed (use Some in \<open>simp add: main_dyn_delays_def\<close>)
qed (simp add: main_dyn_delays_def)

text \<open>
  C38. The program refuses inconsistent options and otherwise starts: with an empty delay curve
  excepted, it exits with 0 for help, with 1 when the external interface is missing or options
  that belong together do not fit (a curve without resolution, losses without as many times,
  external ports without as many internal ones), and goes on to run the router in the chosen
  mode in every other case, whatever the filters and the other values.
\<close>

theorem main_starts:
  assumes "dyn_delays vm \<noteq> Some []"
  shows "\<exists>r. main inet_network env4 env6 (Some vm) =
    Inr (if help_opt vm then Exit 0 else if consistent vm then (if ipv6 vm then Execute6 else Execute) else Exit 1, r)"
proof (cases "help_opt vm \<or> ext_if vm = None")
  case True
  then show ?thesis by (auto simp: main_def consistent_def)
next
  case False
  then obtain ext where ext: "ext_if vm = Some ext" "\<not> help_opt vm" by auto
  obtain r0 where r0: "main_init env4 env6 ext vm = Inr (True, r0)" using main_init_total by blast
  let ?r = "main_settings inet_network vm r0"
  obtain r1 where d: "main_dyn_delays vm ?r =
      Inr (if dyn_delays vm \<noteq> None \<and> dyn_delay_res vm = None then Inl 1 else Inr r1)"
    using main_dyn_delays_total [OF assms] by blast
  have "\<exists>r. main_rest inet_network vm ?r =
      Inr (if consistent vm then (if ipv6 vm then Execute6 else Execute) else Exit 1, r)"
    using ext d by (auto simp: main_rest_def main_dyn_losses_def main_ports_def consistent_def Let_def
        split: option.splits sum.splits)
  then show ?thesis by (simp add: main_def ext r0)
qed

section \<open>The order of packets through the whole program\<close>

lemma default_ready:
  assumes "Router_init env4 env6 ext Router_new = Inr (True, r)"
  shows "slots_fit (chain4 r)" and "list_all (obj_fresh \<circ> fst) (objects (chain4 r))"
    and "\<forall>i \<in> set (chain_path (chain4 r)). \<exists>k \<in> set init_order4. slot (chain4 r) k = Some i"
proof -
  note fresh = fresh_make [of env4 KStaticDelay] fresh_make [of env4 KDynamicDelay] fresh_make [of env4 KBurst]
    fresh_make [of env4 KTokenBucketFilter] fresh_make [of env4 KOutputLibnet]
  show "list_all (obj_fresh \<circ> fst) (objects (chain4 r))"
    using assms fresh by (auto simp: router_eval)
  show "slots_fit (chain4 r)"
    using assms by (auto simp: router_eval slots_fit_def split: if_splits)
  show "\<forall>i \<in> set (chain_path (chain4 r)). \<exists>k \<in> set init_order4. slot (chain4 r) k = Some i"
    using assms by (auto simp: router_eval chain_path_def numeral_eq_Suc)
qed

text \<open>No class of filter is listed twice.\<close>

definition one_of_each :: "options \<Rightarrow> bool" where
  "one_of_each vm \<longleftrightarrow> (case main_filters vm of None \<Rightarrow> True | Some fs \<Rightarrow> distinct (List.map_filter kind_of fs))"

lemma set_init_order4: "x \<in> set init_order4"
  by (cases x) (simp_all add: init_order4_def)

lemma distinct_init_order4: "distinct init_order4"
  by (simp add: init_order4_def)

lemma main_init_ready:
  assumes "main_init env4 env6 ext vm = Inr (True, r)" and "one_of_each vm"
  shows "slots_fit (chain4 r)" and "list_all (obj_fresh \<circ> fst) (objects (chain4 r))"
    and "\<forall>i \<in> set (chain_path (chain4 r)). \<exists>k \<in> set init_order4. slot (chain4 r) k = Some i"
proof -
  have "slots_fit (chain4 r) \<and> list_all (obj_fresh \<circ> fst) (objects (chain4 r))
    \<and> (\<forall>i \<in> set (chain_path (chain4 r)). \<exists>k \<in> set init_order4. slot (chain4 r) k = Some i)"
  proof (cases "main_filters vm")
    case None
    then show ?thesis using assms(1) default_ready by (simp add: main_init_def)
  next
    case (Some fs)
    then obtain k ks where fs: "List.map_filter kind_of fs = k # ks" "is_input k" using main_filters_input by blast
    from router_chains_aux [OF this, of env4 env6 ext] assms(1) Some
    obtain l4 where t: "topo env4 (chain4 r) (Some l4) (k # ks)" by (auto simp: main_init_def)
    have "distinct (k # ks)" using assms(2) Some fs by (simp add: one_of_each_def)
    from topo_ready [OF t this] set_init_order4 show ?thesis by blast
  qed
  then show "slots_fit (chain4 r)" "list_all (obj_fresh \<circ> fst) (objects (chain4 r))"
    "\<forall>i \<in> set (chain_path (chain4 r)). \<exists>k \<in> set init_order4. slot (chain4 r) k = Some i" by simp_all
qed

text \<open>The router that \<open>main\<close> runs: after \<open>initFilters\<close> every filter runs and holds nothing.\<close>

lemma main_ready:
  assumes "main inet_network env4 env6 (Some vm) = Inr (Execute, r)" and "one_of_each vm"
    and "initFilters env r = Inr (b, out, r')"
  obtains ext r0 where "main_init env4 env6 ext vm = Inr (True, r0)" and "ext_if vm = Some ext" and "extIf r' = ext"
    and "b" and "out = []" and "list_all obj_ok (chain_objs (chain4 r'))"
    and "\<forall>x \<in> set (chain_objs (chain4 r')). \<forall>d. obj_held d x = []"
    and "chain_held obj_held d (chain_objs (chain4 r')) = []"
    and "\<forall>x \<in> set (chain_objs (chain4 r')). obj_started x"
    and "map obj_kind (chain_objs (chain4 r')) = map obj_kind (chain_objs (chain4 r0))"
proof -
  from conf_main [OF assms(1)] obtain ext r0
    where r0: "main_init env4 env6 ext vm = Inr (True, r0)" "conf r0 r" and x: "ext_if vm = Some ext" "extIf r = ext"
    by blast
  from assms(3) obtain c' where i: "init_slots env (\<lambda>k. True) init_order4 (chain4 r) = Inr (b, out, c')"
    "chain4 r' = c'" "extIf r' = extIf r"
    by (auto simp: initFilters_def try_bind_Inr_iff)
  have "configured (chain4 r0) (chain4 r)" using r0(2) by (simp add: conf_def)
  note R = chain_ready [OF main_init_ready [OF r0(1) assms(2)] this i(1) distinct_init_order4]
  have "\<forall>x \<in> set (chain_objs c'). \<forall>d. obj_held d x = []" using R(3) by (auto dest: obj_startedD)
  then show ?thesis using that [OF r0(1) x(1)] R(1) [of d] R(2,3) i(2,3) x(2) by simp
qed

text \<open>
  C1. The router sends no packet that did not come in, and none twice, and it keeps the order: when
  \<open>main\<close> gets to run it in IPv4 mode with no filter listed twice and the initialisation of
  the filters returns, then it succeeds, and in every run of the chain, with any timing of
  packets, timers, handlers and critical sections of the burst filter and any behaviour of
  libnet, what is sent, by accept verdict or with libnet, is sent of packets that came in, of each
  at most once. If the chain has no burst filter, the packets of each direction are sent
  in the order in which they came; with one this fails (\<open>burst_race_reorders\<close>).
\<close>

theorem main_fifo:
  assumes "main inet_network env4 env6 (Some vm) = Inr (Execute, r)" and "one_of_each vm"
    and "initFilters env r = Inr (b, out, r')"
    and "stage_run (chain_step (obj_step nat_filter_step) (obj_sink OutputLibnet_build) n)
      (chain_objs (chain4 r')) ins outs fs"
  shows "b \<and> out = [] \<and> mset (map sent_ident outs) \<subseteq># mset (map ident ins)
    \<and> (KBurst \<notin> set (map obj_kind (chain_objs (chain4 r'))) \<longrightarrow>
        subseq (of_dir d (map sent_ident outs)) (of_dir d (map ident ins)))"
proof -
  obtain ext r0 where "b" "out = []" and ok: "list_all obj_ok (chain_objs (chain4 r'))"
    "\<forall>x \<in> set (chain_objs (chain4 r')). \<forall>d. obj_held d x = []"
    by (rule main_ready [OF assms(1-3), where d = d]) (rule that, assumption+)
  with ipv4.chain_order [OF assms(4) ok, of d] ipv4.chain_sent_once [OF assms(4) ok] show ?thesis by blast
qed

text \<open>The IPv6 chain.\<close>

lemma default_ready6:
  assumes "Router_init env4 env6 ext Router_new = Inr (True, r)"
  shows "slots_fit (chain6 r)" and "list_all (obj_fresh \<circ> fst) (objects (chain6 r))"
    and "\<forall>i \<in> set (chain_path (chain6 r)). \<exists>k \<in> set init_order6. slot (chain6 r) k = Some i"
proof -
  note fresh = fresh_make [of env6 KStaticDelay] fresh_make [of env6 KDynamicDelay] fresh_make [of env6 KBurst]
    fresh_make [of env6 KTokenBucketFilter] fresh_make [of env6 KOutput]
  show "list_all (obj_fresh \<circ> fst) (objects (chain6 r))"
    using assms fresh by (auto simp: router_eval)
  show "slots_fit (chain6 r)"
    using assms by (auto simp: router_eval slots_fit_def split: if_splits)
  show "\<forall>i \<in> set (chain_path (chain6 r)). \<exists>k \<in> set init_order6. slot (chain6 r) k = Some i"
    using assms by (auto simp: router_eval chain_path_def numeral_eq_Suc)
qed

lemma main_init_ready6:
  assumes "main_init env4 env6 ext vm = Inr (True, r)" and "one_of_each vm"
  shows "slots_fit (chain6 r)" and "list_all (obj_fresh \<circ> fst) (objects (chain6 r))"
    and "\<forall>i \<in> set (chain_path (chain6 r)). \<exists>k \<in> set init_order6. slot (chain6 r) k = Some i"
proof -
  have "slots_fit (chain6 r) \<and> list_all (obj_fresh \<circ> fst) (objects (chain6 r))
    \<and> (\<forall>i \<in> set (chain_path (chain6 r)). \<exists>k \<in> set init_order6. slot (chain6 r) k = Some i)"
  proof (cases "main_filters vm")
    case None
    then show ?thesis using assms(1) default_ready6 by (simp add: main_init_def)
  next
    case (Some fs)
    then obtain k ks where fs: "List.map_filter kind_of fs = k # ks" "is_input k" using main_filters_input by blast
    let ?ks = "filter (\<lambda>x. x \<noteq> KNat) (k # ks)"
    from router_chains_aux [OF fs, of env4 env6 ext] assms(1) Some
    obtain l6 where t: "topo env6 (chain6 r) (Some l6) ?ks" by (auto simp: main_init_def)
    have "distinct ?ks" using assms(2) Some fs by (simp add: one_of_each_def)
    moreover have "set ?ks \<subseteq> set init_order6"
      using set_init_order4 by (auto simp: init_order4_def init_order6_def)
    ultimately show ?thesis using topo_ready [OF t] by blast
  qed
  then show "slots_fit (chain6 r)" "list_all (obj_fresh \<circ> fst) (objects (chain6 r))"
    "\<forall>i \<in> set (chain_path (chain6 r)). \<exists>k \<in> set init_order6. slot (chain6 r) k = Some i" by simp_all
qed

text \<open>The same for the IPv6 mode.\<close>

lemma main_ready6:
  assumes "main inet_network env4 env6 (Some vm) = Inr (Execute6, r)" and "one_of_each vm"
    and "init6Filters env r = Inr (b, out, r')"
  obtains ext r0 where "main_init env4 env6 ext vm = Inr (True, r0)" and "ext_if vm = Some ext" and "extIf r' = ext"
    and "b" and "out = []" and "list_all obj_ok (chain_objs (chain6 r'))"
    and "\<forall>x \<in> set (chain_objs (chain6 r')). \<forall>d. obj_held d x = []"
    and "chain_held obj_held d (chain_objs (chain6 r')) = []"
    and "\<forall>x \<in> set (chain_objs (chain6 r')). obj_started x"
    and "map obj_kind (chain_objs (chain6 r')) = map obj_kind (chain_objs (chain6 r0))"
proof -
  from conf_main [OF assms(1)] obtain ext r0
    where r0: "main_init env4 env6 ext vm = Inr (True, r0)" "conf r0 r" and x: "ext_if vm = Some ext" "extIf r = ext"
    by blast
  from assms(3) obtain ok c' where i: "init_slots env ok init_order6 (chain6 r) = Inr (b, out, c')"
    "chain6 r' = c'" "extIf r' = extIf r"
    by (auto simp: init6Filters_def try_bind_Inr_iff)
  have c: "configured (chain6 r0) (chain6 r)" using r0(2) by (simp add: conf_def)
  have "distinct init_order6" by (simp add: init_order6_def)
  note R = chain_ready [OF main_init_ready6 [OF r0(1) assms(2)] c i(1) this]
  have "\<forall>x \<in> set (chain_objs c'). \<forall>d. obj_held d x = []" using R(3) by (auto dest: obj_startedD)
  then show ?thesis using that [OF r0(1) x(1)] R(1) [of d] R(2,3) i(2,3) x(2) by simp
qed


section \<open>Drop mode\<close>

text \<open>The packets are dropped at the input and sent again: with the default filters or without \<open>accept-mode\<close>.\<close>

definition drop_mode :: "options \<Rightarrow> bool" where
  "drop_mode vm \<longleftrightarrow> (case filters vm of None \<Rightarrow> True
     | Some fs \<Rightarrow> \<not> accept_mode vm \<and> (\<forall>f \<in> set fs. f \<noteq> ''Input'' \<and> f \<noteq> ''InputDrop''))"

lemma set_map_filter: "x \<in> set (List.map_filter f xs) \<longleftrightarrow> (\<exists>y \<in> set xs. f y = Some x)"
  by (induction xs) (auto simp: map_filter_simps split: option.split)

lemma kind_of_input: "kind_of f = Some k \<Longrightarrow> is_input k \<Longrightarrow> f = ''Input'' \<or> f = ''InputDrop''"
  by (auto simp: kind_of_def is_input_def split: if_splits)

lemma drop_mode_head:
  assumes "main_init env4 env6 ext vm = Inr (True, r)" and "drop_mode vm"
  shows "\<exists>ks. map obj_kind (chain_objs (chain4 r)) = KInputDrop # ks"
    and "filters vm \<noteq> None \<Longrightarrow> \<exists>ks. map obj_kind (chain_objs (chain6 r)) = KInputDrop # ks"
proof -
  have "(\<exists>ks. map obj_kind (chain_objs (chain4 r)) = KInputDrop # ks)
    \<and> (filters vm \<noteq> None \<longrightarrow> (\<exists>ks. map obj_kind (chain_objs (chain6 r)) = KInputDrop # ks))"
  proof (cases "filters vm")
    case None
    then show ?thesis using assms(1) default_chains [of env4 env6 ext]
      by (auto simp: main_init_def main_filters_def)
  next
    case (Some fs)
    let ?fs = "''InputDrop'' # fs @ [''OutputLibnet'']" and ?ks = "List.map_filter kind_of (fs @ [''OutputLibnet''])"
    have m: "main_filters vm = Some ?fs" using assms(2) Some by (simp add: drop_mode_def main_filters_def)
    have mf: "List.map_filter kind_of ?fs = KInputDrop # ?ks" by (simp add: map_filter_simps kind_of_def)
    have ni: "\<not> is_input x" if x: "x \<in> set ?ks" for x
    proof
      assume "is_input x"
      moreover from x obtain f where "f \<in> set (fs @ [''OutputLibnet''])" "kind_of f = Some x"
        by (auto simp: set_map_filter)
      ultimately show False using kind_of_input [of f x] assms(2) Some by (auto simp: drop_mode_def)
    qed
    then have r: "route (KInputDrop # ?ks) = KInputDrop # ?ks"
      "route (KInputDrop # filter (\<lambda>x. x \<noteq> KNat) ?ks) = KInputDrop # filter (\<lambda>x. x \<noteq> KNat) ?ks"
      by (intro route_no_input; auto)+
    from router_chains_aux [OF mf, of env4 env6 ext] assms(1) m
    obtain l4 l6 where "topo env4 (chain4 r) (Some l4) (KInputDrop # ?ks)"
      "topo env6 (chain6 r) (Some l6) (KInputDrop # filter (\<lambda>x. x \<noteq> KNat) ?ks)"
      by (auto simp: main_init_def is_input_def)
    from topo_path(1) [OF this(1)] topo_path(1) [OF this(2)] show ?thesis unfolding r by simp
  qed
  then show "\<exists>ks. map obj_kind (chain_objs (chain4 r)) = KInputDrop # ks"
    "filters vm \<noteq> None \<Longrightarrow> \<exists>ks. map obj_kind (chain_objs (chain6 r)) = KInputDrop # ks" by blast+
qed

lemma kind_input_drop: "obj_kind x = KInputDrop \<Longrightarrow> x = FInputDrop"
  by (cases x) simp_all

section \<open>A run of the program\<close>

definition example_options :: options where
  "example_options = \<lparr>help_opt = False, ext_if = Some ''eth0'', nat_ext_ip = None, nat_int_ip = None,
     nat_type_opt = None, nat_timeout = None, delay_opt = None, loss_opt = None, tbf_in_rate = None,
     tbf_in_max_tokens = None, tbf_in_max_packets = None, tbf_in_red_start = None, tbf_out_rate = None,
     tbf_out_max_tokens = None, tbf_out_max_packets = None, tbf_out_red_start = None, dyn_delays = None,
     dyn_delay_res = None, dyn_losses = None, dyn_loss_times = None, burst_dur = None, burst_sleep = None,
     nat_ext_port = None, nat_int_port = None, filters = Some [], ipv6 = False, accept_mode = True\<rparr>"

lemma main_starts_witness:
  "\<exists>r. main (\<lambda>s. 0) example_env example_env (Some example_options) = Inr (Execute, r)"
  using main_starts [of example_options "\<lambda>s. 0" example_env example_env]
  by (simp add: example_options_def consistent_def)

lemma example_main:
  "\<exists>r r'. main (\<lambda>s. 0) example_env example_env (Some example_options) = Inr (Execute, r)
     \<and> initFilters example_init_env r = Inr (True, [], r') \<and> chain_objs (chain4 r') = [FInput, FOutput]"
  by (simp add: router_eval main_def example_options_def main_init_def main_filters_def Let_def main_rest_def
      main_dyn_delays_def main_dyn_losses_def main_ports_def main_settings_def given_def Router_setIPs_def
      chain_objs_def chain_path_def)

text \<open>Steps of a chain one by one, and one packet through an input and an accepting output.\<close>

lemma chain_passes:
  "step x i mid x' \<Longrightarrow> chain_step step sink n t mid out t' \<Longrightarrow> chain_step step sink (Suc n) (x # t) i out (x' # t')"
  by (rule chain_passed) (auto intro: stage_run_one)

lemma chain_holds: "step x i [] x' \<Longrightarrow> chain_step step sink (Suc n) (x # t) i [] (x' # t)"
  by (rule chain_passed [OF _ stage_run.empty])

definition accepted :: "'a pkt \<Rightarrow> 'a pkt sent" where
  "accepted p = (fst (setVerdict True p), Accepted (nfqID p))"

lemma send_accepted: "\<not> verdictSet p \<Longrightarrow> obj_send build FOutput [p] [accepted p] (snd (setVerdict True p)) FOutput"
  using obj_send.accept [of p "fst (setVerdict True p)" "snd (setVerdict True p)" build]
  by (simp add: Output_handlePacket_def accepted_def setVerdict_def)

lemma example_pass:
  assumes "\<not> verdictSet p"
  shows "chain_step (obj_step nt) (obj_sink build) 2 [FInput, FOutput] [p] [accepted p] [FInput, FOutput]"
proof -
  have i: "obj_step nt FInput [p] [p] FInput" by (rule obj_step.input) (simp add: Input_handlePacket_def)
  have "obj_sink build FOutput [p] [accepted p] FOutput"
    unfolding obj_sink_def using send_accepted [OF assms] by (rule exI)
  then have "chain_step (obj_step nt) (obj_sink build) (Suc 0) [FOutput] [p] [accepted p] [FOutput]"
    by (rule chain_sent)
  then show ?thesis unfolding numeral_2_eq_2 by (rule chain_passes [where step = "obj_step nt", OF i])
qed

lemma main_fifo_witness:
  "\<exists>r r' p q. main (\<lambda>s. 0) example_env example_env (Some example_options) = Inr (Execute, r)
     \<and> initFilters example_init_env r = Inr (True, [], r')
     \<and> stage_run (chain_step (obj_step nat_filter_step) (obj_sink OutputLibnet_build) 2) (chain_objs (chain4 r'))
         [p, q] [accepted p, accepted q] [FInput, FOutput]
     \<and> mset (map sent_ident [accepted p, accepted q]) \<subseteq># mset (map ident [p, q])
     \<and> subseq (of_dir True (map sent_ident [accepted p, accepted q])) (of_dir True (map ident [p, q]))"
proof -
  obtain r r' where r: "main (\<lambda>s. 0) example_env example_env (Some example_options) = Inr (Execute, r)"
    "initFilters example_init_env r = Inr (True, [], r')" "chain_objs (chain4 r') = [FInput, FOutput]"
    using example_main by (elim exE conjE)
  let ?p = "example_packet True 1 2 3 4" and ?q = "example_packet True 5 6 7 8"
  note more = stage_run.more [where step = "chain_step (obj_step nat_filter_step) (obj_sink OutputLibnet_build) 2"]
  have new: "\<not> verdictSet ?p" "\<not> verdictSet ?q" by (simp_all add: example_packet_def)
  from more [OF more [OF stage_run.empty example_pass [OF new(1)]] example_pass [OF new(2)]]
  have run: "stage_run (chain_step (obj_step nat_filter_step) (obj_sink OutputLibnet_build) 2) (chain_objs (chain4 r'))
      [?p, ?q] [accepted ?p, accepted ?q] [FInput, FOutput]" by (simp add: r(3))
  have o: "one_of_each example_options"
    by (simp add: one_of_each_def main_filters_def example_options_def map_filter_simps kind_of_def)
  have "KBurst \<notin> set (map obj_kind (chain_objs (chain4 r')))" by (simp add: r(3))
  with main_fifo [OF r(1) o r(2) run, of True] r(1,2) run show ?thesis by blast
qed

text \<open>Without \<open>accept-mode\<close>: a packet arrives and waits for the libnet output.\<close>

lemma example_drop_step:
  "chain_step (traced_step nt) (traced_sink build) 2 [(FInputDrop, t), (FOutputLibnet s, u)] [p] []
     [(FInputDrop, t @ snd (setVerdict False p)), (FOutputLibnet (OutputLibnet_handlePacket (fst (setVerdict False p)) s), u)]"
proof -
  let ?q = "fst (setVerdict False p)"
  have i: "traced_step nt (FInputDrop, t) [p] [?q] (FInputDrop, t @ snd (setVerdict False p))"
    using obj_vstep.input_drop [of p "[?q]" "snd (setVerdict False p)" nt]
    by (simp add: traced_step_def InputDrop_handlePacket_def split: prod.splits)
  have "traced_sink build (FOutputLibnet s, u) [?q] [] (FOutputLibnet (OutputLibnet_handlePacket ?q s), u)"
    using obj_send.arrive [of build s ?q] by (simp add: traced_sink_def)
  then have "chain_step (traced_step nt) (traced_sink build) (Suc 0) [(FOutputLibnet s, u)] [?q] []
      [(FOutputLibnet (OutputLibnet_handlePacket ?q s), u)]" by (rule chain_sent)
  then show ?thesis unfolding numeral_2_eq_2 by (rule chain_passes [where step = "traced_step nt", OF i])
qed

end
