(* ===== verification/Chain_Types.thy ===== *)
theory Chain_Types
  imports Router_Ready
begin

text \<open>
  What makes a chain of objects well typed: every member points to an object of its class,
  the start is an input filter, and the \<open>next_\<close> pointers lead from it through different objects
  to an output, the only one that has no next. In such a chain no \<open>next_->handlePacket\<close>
  goes through a null pointer. The predicate depends on links and classes only, so that
  configuration and initialisation keep it.
\<close>

definition is_output :: "filter_kind \<Rightarrow> bool" where
  "is_output k \<longleftrightarrow> k = KOutput \<or> k = KOutputLibnet"

definition kind_at :: "'p chain \<Rightarrow> nat \<Rightarrow> filter_kind" where
  "kind_at c i = obj_kind (fst (objects c ! i))"

definition typed_members :: "'p chain \<Rightarrow> bool" where
  "typed_members c \<longleftrightarrow>
     (\<forall>k i. slot c k = Some i \<longrightarrow> i < length (objects c) \<and> kind_at c i = k)"

definition typed_path :: "'p chain \<Rightarrow> bool" where
  "typed_path c \<longleftrightarrow>
     chain_path c \<noteq> [] \<and> distinct (chain_path c) \<and> (\<forall>i \<in> set (chain_path c). i < length (objects c))
     \<and> is_input (kind_at c (hd (chain_path c))) \<and> is_output (kind_at c (last (chain_path c)))
     \<and> (\<forall>i \<in> set (chain_path c). snd (objects c ! i) = None \<longleftrightarrow> i = last (chain_path c))"

definition typed_chain :: "'p chain \<Rightarrow> bool" where
  "typed_chain c \<longleftrightarrow> typed_members c \<and> typed_path c"

text \<open>Two chains with the same links and classes.\<close>

definition same_shape :: "'p chain \<Rightarrow> 'p chain \<Rightarrow> bool" where
  "same_shape c c' \<longleftrightarrow> slot c' = slot c \<and> start_filter c' = start_filter c
     \<and> map snd (objects c') = map snd (objects c)
     \<and> map (obj_kind \<circ> fst) (objects c') = map (obj_kind \<circ> fst) (objects c)"

lemma same_shape_nth:
  assumes "same_shape c c'"
  shows "length (objects c') = length (objects c)"
    and "i < length (objects c) \<Longrightarrow> snd (objects c' ! i) = snd (objects c ! i)"
    and "i < length (objects c) \<Longrightarrow> kind_at c' i = kind_at c i"
proof -
  have s: "map snd (objects c') = map snd (objects c)"
    and k: "map (obj_kind \<circ> fst) (objects c') = map (obj_kind \<circ> fst) (objects c)"
    using assms by (simp_all add: same_shape_def)
  show n: "length (objects c') = length (objects c)" using s by (metis length_map)
  show "snd (objects c' ! i) = snd (objects c ! i)" if "i < length (objects c)"
    using arg_cong [OF s, of "\<lambda>xs. xs ! i"] that n by simp
  show "kind_at c' i = kind_at c i" if "i < length (objects c)"
    using arg_cong [OF k, of "\<lambda>xs. xs ! i"] that n by (simp add: kind_at_def)
qed

lemma same_shape_path:
  assumes "same_shape c c'" and "\<forall>i \<in> set (chain_path c). i < length (objects c)"
  shows "chain_path c' = chain_path c"
proof -
  have sl: "start_filter c' = start_filter c" "map snd (objects c') = map snd (objects c)"
    using assms(1) by (simp_all add: same_shape_def)
  show ?thesis
    using assms(2) unfolding chain_path_def same_shape_nth(1) [OF assms(1)] sl(1) by (rule follow_cong) (rule sl(2))
qed

lemma same_shape_fit: "same_shape c c' \<Longrightarrow> slots_fit c \<Longrightarrow> slots_fit c'"
proof -
  assume s: "same_shape c c'" and f: "slots_fit c"
  have "slot c' = slot c" using s by (simp add: same_shape_def)
  then show "slots_fit c'" using f same_shape_nth [OF s] by (auto simp: slots_fit_def kind_at_def)
qed

lemma typed_same_shape:
  assumes "same_shape c c'" and "typed_chain c"
  shows "typed_chain c'"
proof -
  note S = same_shape_nth [OF assms(1)]
  have sl: "slot c' = slot c" using assms(1) by (simp add: same_shape_def)
  have P: "typed_path c" and L: "typed_members c" using assms(2) by (simp_all add: typed_chain_def)
  have in_range: "\<forall>i \<in> set (chain_path c). i < length (objects c)" using P by (simp add: typed_path_def)
  then have p: "chain_path c' = chain_path c" by (rule same_shape_path [OF assms(1)])
  have ends: "hd (chain_path c) < length (objects c)" "last (chain_path c) < length (objects c)"
    using P in_range by (simp_all add: typed_path_def)
  have "typed_members c'" using L S by (auto simp: typed_members_def sl)
  moreover have "typed_path c'" using P S in_range ends by (simp add: typed_path_def p)
  ultimately show ?thesis by (simp add: typed_chain_def)
qed

lemma same_shape_trans: "same_shape c c' \<Longrightarrow> same_shape c' c'' \<Longrightarrow> same_shape c c''"
  by (simp add: same_shape_def)

lemma configured_shape: "configured c c' \<Longrightarrow> same_shape c c'"
  by (simp add: configured_def same_shape_def)

lemma init_slots_shape: "init_slots env ok ks c = Inr (b, out, c') \<Longrightarrow> same_shape c c'"
proof (induction env ok ks c arbitrary: b out c' rule: init_slots.induct)
  case (1 env ok c)
  then show ?case by (simp add: same_shape_def)
next
  case (2 env ok k ks c)
  show ?case
  proof (cases "slot c k")
    case None
    then show ?thesis using 2 by auto
  next
    case (Some i)
    obtain b1 o1 x where x: "obj_init env (fst (objects c ! i)) = Inr (b1, o1, x)"
      using 2(3) Some by (auto simp: try_bind_Inr_iff split: if_splits)
    have s: "same_shape c (c\<lparr>objects := (objects c)[i := (x, snd (objects c ! i))]\<rparr>)"
      using obj_init_kind [OF x]
      by (cases "i < length (objects c)") (simp_all add: same_shape_def map_update_same list_update_beyond)
    from s same_shape_trans [OF s] show ?thesis
      using 2 Some x by (auto simp: try_bind_Inr_iff Let_def split: if_splits)
  qed
qed

lemma route_input: "\<exists>k \<in> set ks. is_input k \<Longrightarrow> route ks \<noteq> [] \<and> is_input (hd (route ks))"
proof (induction ks rule: rev_induct)
  case (snoc k ks)
  then show ?case by (cases "is_input k") auto
qed simp

text \<open>The chains of \<open>init\<close> with a list whose last filter is an output.\<close>

lemma topo_typed:
  assumes "topo env c (Some l) ks" and "is_output (last ks)" and "\<exists>k \<in> set ks. is_input k"
  shows "typed_chain c"
proof -
  from assms obtain s where s: "start_filter c = Some s" "s \<le> l" "Suc l = length ks"
    "\<forall>i. s \<le> i \<and> i < l \<longrightarrow> snd (objects c ! i) = Some (Suc i)" "snd (objects c ! l) = None" "drop s ks = route ks"
    and o: "map fst (objects c) = map (make_obj env) ks"
    and sl: "\<And>k i. slot c k = Some i \<longleftrightarrow> i < length ks \<and> ks ! i = k \<and> k \<notin> set (drop (Suc i) ks)"
    by (auto simp: topo_def)
  have n: "length (objects c) = length ks" using o by (metis length_map)
  have kind: "kind_at c i = ks ! i" if "i < length ks" for i
    using arg_cong [OF o, of "\<lambda>xs. xs ! i"] that n by (simp add: kind_at_def)
  have p: "chain_path c = [s ..< length ks]"
    unfolding chain_path_def s(1) n by (subst follow_consecutive [of s l]) (use s in auto)
  have len: "length ks = Suc l" and range: "s < length ks" using s(2,3) by simp_all
  have ends: "last [s ..< length ks] = l" "hd [s ..< length ks] = s"
    using s(2) len by simp (rule hd_upt [OF range])
  have "hd (drop s ks) = ks ! s" by (rule hd_drop_conv_nth [OF range])
  then have inp: "is_input (ks ! s)" using route_input [OF assms(3)] s(6) by simp
  have "last ks = ks ! l" using len last_conv_nth [of ks] by fastforce
  then have out: "is_output (ks ! l)" using assms(2) by simp
  have nxt: "snd (objects c ! i) = None \<longleftrightarrow> i = l" if "s \<le> i" "i < length ks" for i
    using len s(4) [rule_format, of i] s(5) that by (cases "i = l") auto
  have "typed_path c"
    unfolding typed_path_def p n ends using range len kind inp out nxt s(2) by simp
  moreover have "typed_members c" using sl kind by (auto simp: typed_members_def n)
  ultimately show ?thesis by (simp add: typed_chain_def)
qed

end
