(* ===== verification/Main_Runs.thy ===== *)
theory Main_Runs
  imports Main_Options Chain_Types
begin

text \<open>
  The program from its options to the packets and verdicts: the pointers of the router that
  \<open>main\<close> starts, and \<open>execute\<close>, whose loop makes the packets that run through the chain.
\<close>

section \<open>The pointers of a started router\<close>

lemma default_typed:
  assumes "Router_init env4 env6 ext Router_new = Inr (True, r)"
  shows "typed_chain (chain4 r)" and "typed_chain (chain6 r)"
proof -
  show "typed_chain (chain4 r)"
    using assms
    by (auto simp: router_eval typed_chain_def typed_members_def typed_path_def kind_at_def chain_path_def
        numeral_eq_Suc is_output_def split: if_splits)
  show "typed_chain (chain6 r)"
    using assms
    by (auto simp: router_eval typed_chain_def typed_members_def typed_path_def kind_at_def chain_path_def
        numeral_eq_Suc is_output_def split: if_splits)
qed

lemma main_filters_output:
  assumes "main_filters vm = Some fs"
  shows "\<exists>k. kind_of (last fs) = Some k \<and> is_output k \<and> List.map_filter kind_of fs \<noteq> []
    \<and> last (List.map_filter kind_of fs) = k"
proof -
  from assms obtain gs f where fs: "fs = gs @ [f]" and f: "f = ''Output'' \<or> f = ''OutputLibnet''"
    by (auto simp: main_filters_def split: if_splits option.splits)
  then obtain k where k: "kind_of f = Some k" "is_output k" by (auto simp: kind_of_def is_output_def)
  have "List.map_filter kind_of fs = List.map_filter kind_of gs @ [k]"
    by (simp add: fs List.map_filter_def k(1))
  then show ?thesis using k fs by simp
qed

lemma main_init_typed:
  assumes "main_init env4 env6 ext vm = Inr (True, r)"
  shows "typed_chain (chain4 r) \<and> typed_chain (chain6 r)"
proof (cases "main_filters vm")
  case None
  then show ?thesis using assms default_typed by (simp add: main_init_def)
next
  case (Some fs)
  then obtain k ks where fs: "List.map_filter kind_of fs = k # ks" "is_input k" using main_filters_input by blast
  from router_chains_aux [OF this, of env4 env6 ext] assms Some
  obtain l4 l6 where t: "topo env4 (chain4 r) (Some l4) (k # ks)"
    "topo env6 (chain6 r) (Some l6) (filter (\<lambda>x. x \<noteq> KNat) (k # ks))" by (auto simp: main_init_def)
  have o: "is_output (last (k # ks))" using main_filters_output [OF Some] fs by auto
  then have n: "last (k # ks) \<noteq> KNat" by (auto simp: is_output_def)
  have "last (filter (\<lambda>x. x \<noteq> KNat) (k # ks)) = last (k # ks)"
    using n by (cases "k # ks" rule: rev_cases) auto
  moreover have "\<exists>x \<in> set (filter (\<lambda>x. x \<noteq> KNat) (k # ks)). is_input x"
    using fs(2) by (intro bexI [of _ k]) (auto simp: is_input_def)
  ultimately show ?thesis using topo_typed [OF t(1) o] topo_typed [OF t(2)] o fs(2) by simp
qed

text \<open>
  C5. The pointers of a router that \<open>main\<close> starts are well typed, whatever the options: in both
  chains each member points to an object of its class, the start is an input filter, and the
  \<open>next_\<close> pointers lead from it through different objects to an output, the only one without a
  next, so that no packet reaches a null pointer; the initialisation of the filters keeps this.
\<close>

theorem main_pointers:
  assumes "main inet_network env4 env6 (Some vm) = Inr (e, r)" and "e = Execute \<or> e = Execute6"
  shows "typed_chain (chain4 r) \<and> typed_chain (chain6 r)
    \<and> (initFilters env r = Inr (b, out, r') \<longrightarrow> typed_chain (chain4 r') \<and> chain6 r' = chain6 r)
    \<and> (init6Filters env r = Inr (b6, out6, r6) \<longrightarrow> typed_chain (chain6 r6) \<and> chain4 r6 = chain4 r)"
proof -
  from conf_main [OF assms] obtain ext r0
    where r0: "main_init env4 env6 ext vm = Inr (True, r0)" "conf r0 r" by blast
  then have t: "typed_chain (chain4 r)" "typed_chain (chain6 r)"
    using main_init_typed [OF r0(1)] typed_same_shape configured_shape unfolding conf_def by blast+
  moreover have "typed_chain (chain4 r') \<and> chain6 r' = chain6 r" if "initFilters env r = Inr (b, out, r')"
    using that typed_same_shape [OF init_slots_shape t(1)] by (auto simp: initFilters_def try_bind_Inr_iff)
  moreover have "typed_chain (chain6 r6) \<and> chain4 r6 = chain4 r" if "init6Filters env r = Inr (b6, out6, r6)"
    using that typed_same_shape [OF init_slots_shape t(2)] by (auto simp: init6Filters_def try_bind_Inr_iff)
  ultimately show ?thesis by blast
qed

lemma main_pointers_witness:
  "\<exists>r r'. main (\<lambda>s. 0) example_env example_env (Some example_options) = Inr (Execute, r)
     \<and> initFilters example_init_env r = Inr (True, [], r') \<and> chain_objs (chain4 r') = [FInput, FOutput]
     \<and> typed_chain (chain4 r')"
proof -
  obtain r r' where r: "main (\<lambda>s. 0) example_env example_env (Some example_options) = Inr (Execute, r)"
    "initFilters example_init_env r = Inr (True, [], r')" "chain_objs (chain4 r') = [FInput, FOutput]"
    using example_main by (elim exE conjE)
  from main_pointers [OF r(1), of example_init_env True "[]" r'] r show ?thesis by blast
qed

section \<open>The packets that \<open>execute\<close> makes\<close>

text \<open>The messages that the loop handles: those of positive results, before the first 0.\<close>

fun delivered :: "(int \<times> 'p delivery) list \<Rightarrow> 'p delivery" where
  "delivered [] = []"
| "delivered ((rv, ms) # rest) =
     (if rv = 0 then [] else if rv \<ge> 0 then ms @ delivered rest else delivered rest)"

definition msg_ident :: "string \<Rightarrow> int \<times> nfq_data \<times> 'p \<Rightarrow> ident" where
  "msg_ident ext m =
     (case m of (now, nfa, raw) \<Rightarrow>
        (packet_id nfa, (case indev nfa of None \<Rightarrow> '''' | Some i \<Rightarrow> i) = ext))"

lemma handle_messages_all:
  "handle_messages new ms = Inr xs \<Longrightarrow> list_all2 (\<lambda>(now, nfa, raw) x. new now nfa raw = Inr x) ms xs"
  by (induction new ms arbitrary: xs rule: handle_messages.induct) (auto simp: try_bind_Inr_iff)

lemma recv_loop_all:
  "recv_loop new rs = Inr (e, xs) \<Longrightarrow> list_all2 (\<lambda>(now, nfa, raw) x. new now nfa raw = Inr x) (delivered rs) xs"
proof (induction new rs arbitrary: e xs rule: recv_loop.induct)
  case (2 new rv ms rest)
  then show ?case
    by (auto simp: try_bind_Inr_iff intro!: list_all2_appendI dest: handle_messages_all split: if_splits)
qed simp

lemma decode_fields:
  "decodeTransportProtocol pr mem off p = Inr q \<Longrightarrow> nfqID q = nfqID p \<and> verdictSet q = verdictSet p
     \<and> strInboundInterface q = strInboundInterface p"
  by (auto simp: decodeTransportProtocol_def try_bind_Inr_iff split: if_splits)

lemma newPacket_made:
  assumes "newPacket now nfa raw r = Inr (p, i)"
  shows "ident p = msg_ident (extIf r) (now, nfa, raw) \<and> \<not> verdictSet p \<and> start_filter (chain4 r) = Some i"
  using assms
  by (auto simp: newPacket_def Packet_new_def try_bind_Inr_iff Let_def ident_def msg_ident_def
      dest!: decode_fields split: option.splits if_splits)

lemma newPacket6_made:
  assumes "newPacket6 now nfa raw r = Inr (p, i)"
  shows "ident p = msg_ident (extIf r) (now, nfa, raw) \<and> \<not> verdictSet p \<and> start_filter (chain6 r) = Some i"
  using assms
  by (auto simp: newPacket6_def Packet6_new_def try_bind_Inr_iff Let_def ident_def msg_ident_def
      dest!: decode_fields split: option.splits if_splits)

text \<open>What the packets of a list of messages have in common with them.\<close>

lemma packets_made:
  assumes "list_all2 (\<lambda>(now, nfa, raw) x. new now nfa raw = Inr x) ms ps"
    and "\<And>now nfa raw p i. new now nfa raw = Inr (p, i) \<Longrightarrow>
      ident p = msg_ident ext (now, nfa, raw) \<and> \<not> verdictSet p \<and> st = Some (i :: nat)"
  shows "map ident (map fst ps) = map (msg_ident ext) ms \<and> (\<forall>p \<in> set (map fst ps). \<not> verdictSet p)
    \<and> (\<forall>i \<in> set (map snd ps). st = Some i)"
  using assms(1)
proof (induction ms ps rule: list_all2_induct)
  case (Cons m ms x ps)
  obtain now nfa raw p i where e: "m = (now, nfa, raw)" "x = (p, i)" by (cases m; cases x)
  with assms(2) [of now nfa raw p i] Cons show ?case by simp
qed simp

lemma ids_of_idents: "map nfqID ps = map fst (map ident ps)"
  by (induction ps) (simp_all add: ident_def)

section \<open>From the options to the verdicts\<close>

lemma execute_made:
  assumes "Router_execute env nfq received r = Inr (e, ps, r')" and "e \<noteq> Returned_with False"
  obtains b out where "initFilters env r = Inr (b, out, r')"
    and "list_all2 (\<lambda>(now, nfa, raw) x. newPacket now nfa raw r' = Inr x) (delivered received) ps"
  using assms that by (auto simp: Router_execute_def try_bind_Inr_iff dest!: recv_loop_all split: if_splits)

lemma execute6_made:
  assumes "Router_execute6 env nfq received r = Inr (e, ps, r')" and "e \<noteq> Returned_with False"
  obtains b out where "init6Filters env r = Inr (b, out, r')"
    and "list_all2 (\<lambda>(now, nfa, raw) x. newPacket6 now nfa raw r' = Inr x) (delivered received) ps"
  using assms that by (auto simp: Router_execute6_def try_bind_Inr_iff dest!: recv_loop_all split: if_splits)

text \<open>The id under which netfilter knows a message.\<close>

definition msg_id :: "int \<times> nfq_data \<times> 'p \<Rightarrow> int" where
  "msg_id m = packet_id (fst (snd m))"

lemma fst_msg_ident: "map fst (map (msg_ident ext) ms) = map msg_id ms"
  by (induction ms) (auto simp: msg_ident_def msg_id_def)

lemma ids_made: "map ident ps = map (msg_ident ext) ms \<Longrightarrow> map nfqID ps = map msg_id ms"
  unfolding ids_of_idents fst_msg_ident [symmetric, where ext = ext] by (rule arg_cong)

text \<open>
  C3. The program in IPv4 mode, from its options to the verdicts: when \<open>execute\<close> has set up the
  queue, every packet that netfilter delivers goes to the start of the chain, ingoing if it
  arrived at the external interface. Whatever the timing in the chain, what the router sends is sent
  of delivered packets, of each at most once, and, if the chain has no burst filter, in the order of
  delivery for each direction; netfilter gets at most one verdict for each packet it delivered, and
  in drop mode exactly the drops, in that order.
\<close>

theorem main_runs:
  assumes "main inet_network env4 env6 (Some vm) = Inr (Execute, r)" and "one_of_each vm"
    and "Router_execute env nfq received r = Inr (e, ps, r')" and "e \<noteq> Returned_with False"
    and "stage_run (chain_step (traced_step nat_filter_step) (traced_sink OutputLibnet_build) n)
      (untraced (chain_objs (chain4 r'))) (map fst ps) outs fs"
  shows "(\<forall>i \<in> set (map snd ps). start_filter (chain4 r') = Some i)
    \<and> mset (map sent_ident outs) \<subseteq># mset (map (msg_ident (the (ext_if vm))) (delivered received))
    \<and> (KBurst \<notin> set (map obj_kind (chain_objs (chain4 r'))) \<longrightarrow>
        subseq (of_dir d (map sent_ident outs)) (of_dir d (map (msg_ident (the (ext_if vm))) (delivered received))))
    \<and> mset (map fst (concat (map snd fs))) \<subseteq># mset (map msg_id (delivered received))
    \<and> (drop_mode vm \<longrightarrow> concat (map snd fs) = map (\<lambda>m. (msg_id m, False)) (delivered received))"
proof -
  from execute_made [OF assms(3,4)] obtain b out where i: "initFilters env r = Inr (b, out, r')"
    and l: "list_all2 (\<lambda>(now, nfa, raw) x. newPacket now nfa raw r' = Inr x) (delivered received) ps" .
  obtain ext r0 where r0: "main_init env4 env6 ext vm = Inr (True, r0)" and x: "ext_if vm = Some ext" "extIf r' = ext"
    and ok: "list_all obj_ok (chain_objs (chain4 r'))" "\<forall>y \<in> set (chain_objs (chain4 r')). \<forall>d. obj_held d y = []"
    and k: "map obj_kind (chain_objs (chain4 r')) = map obj_kind (chain_objs (chain4 r0))"
    by (rule main_ready [OF assms(1,2) i, where d = d]) (rule that, assumption+)
  have m: "map ident (map fst ps) = map (msg_ident (the (ext_if vm))) (delivered received)"
    "\<forall>p \<in> set (map fst ps). \<not> verdictSet p" "\<forall>i \<in> set (map snd ps). start_filter (chain4 r') = Some i"
    using packets_made [OF l, of ext "start_filter (chain4 r')"] newPacket_made [of _ _ _ r'] by (simp_all add: x)
  note V = verdicts4.chain_verdicts [OF assms(5) ok m(2), unfolded ids_made [OF m(1)]]
  note O = ipv4.chain_sent_once [OF traced_run_plain [OF assms(5)] ok, unfolded m(1)]
    ipv4.chain_order [OF traced_run_plain [OF assms(5)] ok, of d, unfolded m(1)]
  have "concat (map snd fs) = map (\<lambda>m. (msg_id m, False)) (delivered received)" if d: "drop_mode vm"
  proof -
    obtain xs where "chain_objs (chain4 r') = FInputDrop # xs"
      using drop_mode_head(1) [OF r0 d] unfolding k [symmetric] by (auto dest: kind_input_drop)
    with V have "concat (map snd fs) = map (\<lambda>p. (nfqID p, False)) (map fst ps)" by blast
    also have "\<dots> = map (\<lambda>i. (i, False)) (map nfqID (map fst ps))" by simp
    finally show ?thesis unfolding ids_made [OF m(1)] by simp
  qed
  then show ?thesis using m(3) V O by blast
qed

text \<open>
  C16. The same in IPv6 mode, where drop mode needs a list of filters: every packet goes to
  the start of the chain; the router sends of each at most once and, without burst filter, in
  order for each direction; netfilter gets at most one verdict for each, in drop mode exactly the drops.
\<close>

theorem main6_runs:
  assumes "main inet_network env4 env6 (Some vm) = Inr (Execute6, r)" and "one_of_each vm"
    and "Router_execute6 env nfq received r = Inr (e, ps, r')" and "e \<noteq> Returned_with False"
    and "stage_run (chain_step (traced_step (\<lambda>n i out n'. False)) (traced_sink Output6Libnet_build) n)
      (untraced (chain_objs (chain6 r'))) (map fst ps) outs fs"
  shows "(\<forall>i \<in> set (map snd ps). start_filter (chain6 r') = Some i)
    \<and> mset (map sent_ident outs) \<subseteq># mset (map (msg_ident (the (ext_if vm))) (delivered received))
    \<and> (KBurst \<notin> set (map obj_kind (chain_objs (chain6 r'))) \<longrightarrow>
        subseq (of_dir d (map sent_ident outs)) (of_dir d (map (msg_ident (the (ext_if vm))) (delivered received))))
    \<and> mset (map fst (concat (map snd fs))) \<subseteq># mset (map msg_id (delivered received))
    \<and> (drop_mode vm \<and> filters vm \<noteq> None \<longrightarrow>
        concat (map snd fs) = map (\<lambda>m. (msg_id m, False)) (delivered received))"
proof -
  from execute6_made [OF assms(3,4)] obtain b out where i: "init6Filters env r = Inr (b, out, r')"
    and l: "list_all2 (\<lambda>(now, nfa, raw) x. newPacket6 now nfa raw r' = Inr x) (delivered received) ps" .
  obtain ext r0 where r0: "main_init env4 env6 ext vm = Inr (True, r0)" and x: "ext_if vm = Some ext" "extIf r' = ext"
    and ok: "list_all obj_ok (chain_objs (chain6 r'))" "\<forall>y \<in> set (chain_objs (chain6 r')). \<forall>d. obj_held d y = []"
    and k: "map obj_kind (chain_objs (chain6 r')) = map obj_kind (chain_objs (chain6 r0))"
    by (rule main_ready6 [OF assms(1,2) i, where d = d]) (rule that, assumption+)
  have m: "map ident (map fst ps) = map (msg_ident (the (ext_if vm))) (delivered received)"
    "\<forall>p \<in> set (map fst ps). \<not> verdictSet p" "\<forall>i \<in> set (map snd ps). start_filter (chain6 r') = Some i"
    using packets_made [OF l, of ext "start_filter (chain6 r')"] newPacket6_made [of _ _ _ r'] by (simp_all add: x)
  note V = verdicts6.chain_verdicts [OF assms(5) ok m(2), unfolded ids_made [OF m(1)]]
  note O = ipv6.chain_sent_once [OF traced_run_plain [OF assms(5)] ok, unfolded m(1)]
    ipv6.chain_order [OF traced_run_plain [OF assms(5)] ok, of d, unfolded m(1)]
  have "concat (map snd fs) = map (\<lambda>m. (msg_id m, False)) (delivered received)" if d: "drop_mode vm" "filters vm \<noteq> None"
  proof -
    obtain xs where "chain_objs (chain6 r') = FInputDrop # xs"
      using drop_mode_head(2) [OF r0 d] unfolding k [symmetric] by (auto dest: kind_input_drop)
    with V have "concat (map snd fs) = map (\<lambda>p. (nfqID p, False)) (map fst ps)" by blast
    also have "\<dots> = map (\<lambda>i. (i, False)) (map nfqID (map fst ps))" by simp
    finally show ?thesis unfolding ids_made [OF m(1)] by simp
  qed
  then show ?thesis using m(3) V O by blast
qed

section \<open>Runs of the program\<close>

definition example_msg :: "int \<Rightarrow> nfq_data" where
  "example_msg i = \<lparr>packet_id = i, payload = Some (69 # replicate 39 0), indev = Some ''eth0'', outdev = None\<rparr>"

definition example_nfq :: nfq_env where
  "example_nfq = \<lparr>nfq_opened = True, nfq_bound = True, nfq_created = True, nfq_copy_mode = True\<rparr>"

text \<open>Two results of \<open>recv\<close> with one message each, a negative one between them.\<close>

definition example_received :: "'p \<Rightarrow> (int \<times> 'p delivery) list" where
  "example_received raw = [(84, [(0, example_msg 3, raw)]), (-1, []), (84, [(9, example_msg 4, raw)])]"

lemma example_execute:
  "\<exists>r r' s p q. main (\<lambda>s. 0) example_env example_env (Some (example_options\<lparr>accept_mode := False\<rparr>)) = Inr (Execute, r)
     \<and> Router_execute example_init_env example_nfq (example_received (example_packet True 1 2 3 4)) r =
         Inr (Running, [(p, 0), (q, 0)], r')
     \<and> chain_objs (chain4 r') = [FInputDrop, FOutputLibnet s]"
  by (simp add: router_eval main_def example_options_def main_init_def main_filters_def Let_def main_rest_def
      main_dyn_delays_def main_dyn_losses_def main_ports_def main_settings_def given_def Router_setIPs_def
      chain_objs_def chain_path_def OutputLibnet_init_def Router_execute_def example_nfq_def example_received_def
      newPacket_def Packet_new_def example_msg_def load16_def load8_def load32_def decodeTransportProtocol_def
      ipproto_defs nth_Cons')

lemma main_runs_witness:
  "\<exists>r r' ps fs. main (\<lambda>s. 0) example_env example_env (Some (example_options\<lparr>accept_mode := False\<rparr>)) = Inr (Execute, r)
     \<and> Router_execute example_init_env example_nfq (example_received (example_packet True 1 2 3 4)) r = Inr (Running, ps, r')
     \<and> stage_run (chain_step (traced_step nat_filter_step) (traced_sink OutputLibnet_build) 2)
         (untraced (chain_objs (chain4 r'))) (map fst ps) [] fs
     \<and> length ps = 2 \<and> concat (map snd fs) = [(3, False), (4, False)]"
proof -
  let ?vm = "example_options\<lparr>accept_mode := False\<rparr>"
  obtain r r' s p q where r: "main (\<lambda>s. 0) example_env example_env (Some ?vm) = Inr (Execute, r)"
    "Router_execute example_init_env example_nfq (example_received (example_packet True 1 2 3 4)) r =
       Inr (Running, [(p, 0), (q, 0)], r')"
    "chain_objs (chain4 r') = [FInputDrop, FOutputLibnet s]"
    using example_execute by (elim exE conjE)
  note more = stage_run.more [where step = "chain_step (traced_step nat_filter_step) (traced_sink OutputLibnet_build) 2"]
  obtain fs where run: "stage_run (chain_step (traced_step nat_filter_step) (traced_sink OutputLibnet_build) 2)
      (untraced (chain_objs (chain4 r'))) (map fst [(p, 0 :: nat), (q, 0)]) [] fs"
    using more [OF more [OF stage_run.empty example_drop_step [of _ _ "[]" s "[]" p]] example_drop_step [of _ _ _ _ _ q]]
    by (auto simp: r(3))
  have o: "one_of_each ?vm" "drop_mode ?vm"
    by (simp_all add: one_of_each_def drop_mode_def main_filters_def example_options_def map_filter_simps kind_of_def)
  have "concat (map snd fs) = [(3, False), (4, False)]"
    using main_runs [OF r(1) o(1) r(2) _ run] o(2)
    by (simp add: example_received_def msg_id_def example_msg_def)
  then show ?thesis using r(1,2) run by (intro exI conjI) (assumption | simp)+
qed

text \<open>IPv6 with an accepting output.\<close>

definition example_msg6 :: "int \<Rightarrow> nfq_data" where
  "example_msg6 i = \<lparr>packet_id = i, payload = Some (96 # replicate 39 0), indev = Some ''eth0'', outdev = None\<rparr>"

definition example_packet6 :: packet6 where
  "example_packet6 =
     \<lparr>stamp = 0, isIngoing = True, verdictSet = False, nfqID = 0, packetDataLen = 40, packetData = [],
      strInboundInterface = [], strOutboundInterface = [], sport = 1, dport = 2, icmpId = 0,
      flow = 0, plen = 0, nxt = 17, hlim = 64, srcIp6 = replicate 16 1, dstIp6 = replicate 16 2\<rparr>"

lemma example_execute6:
  "\<exists>r r' p. main (\<lambda>s. 0) example_env example_env (Some (example_options\<lparr>ipv6 := True\<rparr>)) = Inr (Execute6, r)
     \<and> Router_execute6 example_init_env example_nfq [(84, [(0, example_msg6 3, example_packet6)])] r =
         Inr (Running, [(p, 0)], r')
     \<and> chain_objs (chain6 r') = [FInput, FOutput] \<and> \<not> verdictSet p"
  by (simp add: router_eval main_def example_options_def main_init_def main_filters_def Let_def main_rest_def
      main_dyn_delays_def main_dyn_losses_def main_ports_def main_settings_def given_def Router_setIPs_def
      chain_objs_def chain_path_def Router_execute6_def example_nfq_def
      newPacket6_def Packet6_new_def example_msg6_def load16_def load8_def load32_def load_in6_def
      decodeTransportProtocol_def ipproto_defs nth_Cons')

lemma example_accept_step:
  assumes "\<not> verdictSet p"
  shows "chain_step (traced_step nt) (traced_sink build) 2 [(FInput, t), (FOutput, u)] [p] [accepted p]
     [(FInput, t), (FOutput, u @ snd (setVerdict True p))]"
proof -
  have i: "traced_step nt (FInput, t) [p] [p] (FInput, t)"
    using obj_vstep.input [of p "[p]" "[]" nt] by (simp add: traced_step_def Input_handlePacket_def)
  have "traced_sink build (FOutput, u) [p] [accepted p] (FOutput, u @ snd (setVerdict True p))"
    using send_accepted [OF assms] by (simp add: traced_sink_def)
  then have "chain_step (traced_step nt) (traced_sink build) (Suc 0) [(FOutput, u)] [p] [accepted p]
      [(FOutput, u @ snd (setVerdict True p))]" by (rule chain_sent)
  then show ?thesis unfolding numeral_2_eq_2 by (rule chain_passes [where step = "traced_step nt", OF i])
qed

lemma main6_runs_witness:
  "\<exists>r r' p fs. main (\<lambda>s. 0) example_env example_env (Some (example_options\<lparr>ipv6 := True\<rparr>)) = Inr (Execute6, r)
     \<and> Router_execute6 example_init_env example_nfq [(84, [(0, example_msg6 3, example_packet6)])] r =
         Inr (Running, [(p, 0)], r')
     \<and> stage_run (chain_step (traced_step (\<lambda>n i out n'. False)) (traced_sink Output6Libnet_build) 2)
         (untraced (chain_objs (chain6 r'))) [p] [accepted p] fs
     \<and> subseq (of_dir True [sent_ident (accepted p)]) [(3, True)] \<and> mset (map fst (concat (map snd fs))) \<subseteq># {#3#}"
proof -
  let ?vm = "example_options\<lparr>ipv6 := True\<rparr>"
  obtain r r' p where r: "main (\<lambda>s. 0) example_env example_env (Some ?vm) = Inr (Execute6, r)"
    "Router_execute6 example_init_env example_nfq [(84, [(0, example_msg6 3, example_packet6)])] r =
       Inr (Running, [(p, 0)], r')"
    "chain_objs (chain6 r') = [FInput, FOutput]" and new: "\<not> verdictSet p"
    using example_execute6 by (elim exE conjE)
  obtain fs where run: "stage_run (chain_step (traced_step (\<lambda>n i out n'. False)) (traced_sink Output6Libnet_build) 2)
      (untraced (chain_objs (chain6 r'))) (map fst [(p, 0 :: nat)]) [accepted p] fs"
    using stage_run_one [where step = "chain_step (traced_step (\<lambda>n i out n'. False)) (traced_sink Output6Libnet_build) 2",
      OF example_accept_step [OF new, of _ _ "[]" "[]"]] by (auto simp: r(3))
  have o: "one_of_each ?vm"
    by (simp add: one_of_each_def main_filters_def example_options_def map_filter_simps kind_of_def)
  have "subseq (of_dir True [sent_ident (accepted p)]) [(3, True)] \<and> mset (map fst (concat (map snd fs))) \<subseteq># {#3#}"
    using main6_runs [OF r(1) o r(2) _ run, of True] r(3)
    by (simp add: msg_id_def msg_ident_def example_msg6_def example_options_def of_dir_def)
  then show ?thesis using r(1,2) run by (intro exI conjI) (assumption | simp)+
qed

end
