(* ===== verification/Main_Origin.thy ===== *)
theory Main_Origin
  imports Router_Origin Main_Runs
begin

text \<open>
  Where the packets come from that leave the router that \<open>main\<close> starts: the address
  translation of its chain has the configuration that the options give, and what is sent
  goes back to packets that came in.
\<close>

section \<open>The filters of a started router\<close>

lemma route_suffix: "\<exists>us. ks = us @ route ks"
proof (induction ks rule: rev_induct)
  case (snoc k ks)
  then show ?case by (cases "is_input k") auto
qed simp

lemma main_init_kinds:
  assumes "main_init env4 env6 ext vm = Inr (True, r)" and "one_of_each vm"
  shows "distinct (map obj_kind (chain_objs (chain4 r)))"
    and "KNat \<notin> set (map obj_kind (chain_objs (chain6 r)))"
proof -
  have "distinct (map obj_kind (chain_objs (chain4 r))) \<and> KNat \<notin> set (map obj_kind (chain_objs (chain6 r)))"
  proof (cases "main_filters vm")
    case None
    then show ?thesis using assms(1) default_chains [of env4 env6 ext] by (auto simp: main_init_def)
  next
    case (Some fs)
    then obtain k ks where fs: "List.map_filter kind_of fs = k # ks" "is_input k" using main_filters_input by blast
    from router_chains_aux [OF this, of env4 env6 ext] assms(1) Some
    obtain l4 l6 where t: "topo env4 (chain4 r) (Some l4) (k # ks)"
      "topo env6 (chain6 r) (Some l6) (filter (\<lambda>x. x \<noteq> KNat) (k # ks))" by (auto simp: main_init_def)
    obtain us vs where u: "k # ks = us @ route (k # ks)"
      "filter (\<lambda>x. x \<noteq> KNat) (k # ks) = vs @ route (filter (\<lambda>x. x \<noteq> KNat) (k # ks))"
      using route_suffix by metis
    have "distinct (k # ks)" using assms(2) Some fs by (simp add: one_of_each_def)
    then have "distinct (route (k # ks))" by (metis u(1) distinct_append)
    moreover have "KNat \<notin> set (route (filter (\<lambda>x. x \<noteq> KNat) (k # ks)))"
      using arg_cong [OF u(2), of set] by (auto split: if_splits)
    ultimately show ?thesis using topo_path(1) [OF t(1)] topo_path(1) [OF t(2)] by (simp add: comp_def)
  qed
  then show "distinct (map obj_kind (chain_objs (chain4 r)))" "KNat \<notin> set (map obj_kind (chain_objs (chain6 r)))"
    by blast+
qed

lemma drop_mode_last:
  assumes "main_init env4 env6 ext vm = Inr (True, r)" and "drop_mode vm"
  shows "\<exists>ks. map obj_kind (chain_objs (chain4 r)) = ks @ [KOutputLibnet]"
proof (cases "filters vm")
  case None
  then show ?thesis using assms(1) default_chains [of env4 env6 ext]
    by (auto simp: main_init_def main_filters_def)
next
  case (Some fs)
  have m: "main_filters vm = Some (''InputDrop'' # fs @ [''OutputLibnet''])"
    using assms(2) Some by (simp add: drop_mode_def main_filters_def)
  let ?ks = "List.map_filter kind_of (fs @ [''OutputLibnet''])"
  have mf: "List.map_filter kind_of (''InputDrop'' # fs @ [''OutputLibnet'']) = KInputDrop # ?ks"
    by (simp add: map_filter_simps kind_of_def)
  from router_chains_aux [OF mf, of env4 env6 ext] assms(1) m
  obtain l4 where "topo env4 (chain4 r) (Some l4) (KInputDrop # ?ks)" by (auto simp: main_init_def is_input_def)
  from topo_path(1) [OF this] have r: "map obj_kind (chain_objs (chain4 r)) = route (KInputDrop # ?ks)" by (simp add: comp_def)
  have ne: "route (KInputDrop # ?ks) \<noteq> []" using route_input [of "KInputDrop # ?ks"] by (simp add: is_input_def)
  obtain us where "KInputDrop # ?ks = us @ route (KInputDrop # ?ks)" using route_suffix by blast
  then have "last (KInputDrop # ?ks) = last (route (KInputDrop # ?ks))" using ne by (metis last_appendR)
  moreover have "last (KInputDrop # ?ks) = KOutputLibnet" by (simp add: List.map_filter_def kind_of_def)
  ultimately show ?thesis unfolding r using ne by (metis append_butlast_last_id)
qed

section \<open>The configuration of the address translation\<close>

definition nat_of :: "packet chain \<Rightarrow> nat_handler option" where
  "nat_of c = (case slot c KNat of None \<Rightarrow> None
     | Some i \<Rightarrow> (case fst (objects c ! i) of FNat n \<Rightarrow> Some n | _ \<Rightarrow> None))"

lemma nat_of_other:
  assumes "slots_fit c" and "slot c k = Some i" and "k \<noteq> KNat"
  shows "nat_of (c\<lparr>objects := (objects c)[i := x]\<rparr>) = nat_of c"
proof (cases "slot c KNat")
  case (Some j)
  have "obj_kind (fst (objects c ! i)) = k" "obj_kind (fst (objects c ! j)) = KNat"
    using assms(1,2) Some by (simp_all add: slots_fit_def)
  then have "j \<noteq> i" using assms(3) by auto
  then show ?thesis using Some by (simp add: nat_of_def)
qed (simp add: nat_of_def)

lemma nat_of_update_other: "slots_fit c \<Longrightarrow> k \<noteq> KNat \<Longrightarrow> nat_of (update_slot k f c) = nat_of c"
  by (auto simp: update_slot_def nat_of_other split: option.split)

lemma nat_of_update_nat: "slots_fit c \<Longrightarrow> nat_of (update_slot KNat (on_nat h) c) = map_option h (nat_of c)"
  by (auto simp: update_slot_def nat_of_def slots_fit_def split: option.split stage_obj.split)

text \<open>A call of the router that does \<open>g\<close> to the address translation.\<close>

definition nat_conf :: "(nat_handler \<Rightarrow> nat_handler) \<Rightarrow> router \<Rightarrow> router \<Rightarrow> bool" where
  "nat_conf g r r' \<longleftrightarrow> conf r r' \<and> (slots_fit (chain4 r) \<longrightarrow> nat_of (chain4 r') = map_option g (nat_of (chain4 r)))"

lemma nat_conf_trans:
  assumes "nat_conf g r r'" and "nat_conf h r' r''"
  shows "nat_conf (h \<circ> g) r r''"
proof -
  have c: "conf r r'" "conf r' r''" using assms by (simp_all add: nat_conf_def)
  have "slots_fit (chain4 r')" if "slots_fit (chain4 r)"
    using c(1) that configured_shape same_shape_fit unfolding conf_def by blast
  then show ?thesis using assms conf_trans [OF c] by (simp add: nat_conf_def option.map_comp)
qed

lemma nat_conf_refl: "nat_conf id r r"
  by (simp add: nat_conf_def option.map_id)

lemma nat_conf_both: "config_call f \<Longrightarrow> config_call g \<Longrightarrow> k \<noteq> KNat \<Longrightarrow> nat_conf id r (both k f g r)"
  by (simp add: nat_conf_def conf_both option.map_id) (simp add: both_def nat_of_update_other)

lemma nat_conf_only4: "nat_conf h r (only4 KNat (on_nat h) r)"
  by (simp add: nat_conf_def conf_only4 config_calls) (simp add: only4_def nat_of_update_nat)

lemma nat_conf_comp:
  assumes "\<And>r. nat_conf h r (f r)" and "\<And>r. nat_conf h' r (f' r)"
  shows "nat_conf (h \<circ> h') r ((f \<circ> f') r)"
  using nat_conf_trans [OF assms(2,1)] by simp

lemma nat_conf_given:
  "(\<And>x r. nat_conf id r (f x r)) \<Longrightarrow> nat_conf id r (given v f r)"
  "(\<And>x r. nat_conf (h x) r (f' x r)) \<Longrightarrow> nat_conf (case v of None \<Rightarrow> id | Some x \<Rightarrow> h x) r (given v f' r)"
  by (auto simp: given_def nat_conf_refl split: option.split)

lemma nat_conf_setters:
  "nat_conf id r (Router_setDelay d r)" "nat_conf id r (Router_setLoss l r)"
  "nat_conf id r (Router_setBurstDuration d r)" "nat_conf id r (Router_setSleepDuration d r)"
  "nat_conf id r (setTbfInRateLimit w r)" "nat_conf id r (setTbfInMaxTokens w r)"
  "nat_conf id r (setTbfInMaxPackets w r)" "nat_conf id r (setTbfInRedStart w r)"
  "nat_conf id r (setTbfOutRateLimit w r)" "nat_conf id r (setTbfOutMaxTokens w r)"
  "nat_conf id r (setTbfOutMaxPackets w r)" "nat_conf id r (setTbfOutRedStart w r)"
  "nat_conf id r (setDynamicLosses ts ls r)"
  unfolding router_setter_defs
  by (intro nat_conf_both config_calls tbf_fresh_setters; simp)+

lemma nat_conf_nat_setters:
  "nat_conf (Nat_setIPs inet e i) r (Router_setIPs inet e i r)"
  "nat_conf (Nat_setDnatRule inet ip x y) r (Router_setDnatRule inet ip x y r)"
  "nat_conf (Nat_setNatType t) r (Router_setNatType t r)" "nat_conf (Nat_setTimeout to) r (Router_setNatTimeout to r)"
  unfolding router_setter_defs by (rule nat_conf_only4)+

text \<open>What the options make of the address translation.\<close>

definition nat_options :: "(string \<Rightarrow> u32) \<Rightarrow> options \<Rightarrow> nat_handler \<Rightarrow> nat_handler" where
  "nat_options inet vm =
     (case main_ports vm of Inl code \<Rightarrow> id
      | Inr ports \<Rightarrow> fold (\<lambda>(e, i). Nat_setDnatRule inet (the_ip (nat_int_ip vm)) e i) ports)
     \<circ> (case nat_timeout vm of None \<Rightarrow> id | Some to \<Rightarrow> Nat_setTimeout to)
     \<circ> (case nat_type_opt vm of None \<Rightarrow> id | Some t \<Rightarrow> Nat_setNatType t)
     \<circ> Nat_setIPs inet (the_ip (nat_ext_ip vm)) (the_ip (nat_int_ip vm))"

lemma nat_conf_settings:
  "nat_conf ((case nat_timeout vm of None \<Rightarrow> id | Some to \<Rightarrow> Nat_setTimeout to)
      \<circ> (case nat_type_opt vm of None \<Rightarrow> id | Some t \<Rightarrow> Nat_setNatType t)
      \<circ> Nat_setIPs inet (the_ip (nat_ext_ip vm)) (the_ip (nat_int_ip vm))) r (main_settings inet vm r)"
proof -
  note S = nat_conf_given(1) [OF nat_conf_setters(1)] nat_conf_given(1) [OF nat_conf_setters(2)]
    nat_conf_given(1) [OF nat_conf_setters(3)] nat_conf_given(1) [OF nat_conf_setters(4)]
    nat_conf_given(1) [OF nat_conf_setters(5)] nat_conf_given(1) [OF nat_conf_setters(6)]
    nat_conf_given(1) [OF nat_conf_setters(7)] nat_conf_given(1) [OF nat_conf_setters(8)]
    nat_conf_given(1) [OF nat_conf_setters(9)] nat_conf_given(1) [OF nat_conf_setters(10)]
    nat_conf_given(1) [OF nat_conf_setters(11)] nat_conf_given(1) [OF nat_conf_setters(12)]
  have "nat_conf (id \<circ> (id \<circ> (id \<circ> (id \<circ> (id \<circ> (id \<circ> (id \<circ> (id \<circ> (id \<circ> (id \<circ> (id \<circ> (id \<circ>
      ((case nat_timeout vm of None \<Rightarrow> id | Some to \<Rightarrow> Nat_setTimeout to)
      \<circ> ((case nat_type_opt vm of None \<Rightarrow> id | Some t \<Rightarrow> Nat_setNatType t)
      \<circ> Nat_setIPs inet (the_ip (nat_ext_ip vm)) (the_ip (nat_int_ip vm)))))))))))))))) r (main_settings inet vm r)"
    unfolding main_settings_def comp_assoc
    by (rule nat_conf_comp, rule S | rule nat_conf_comp, rule nat_conf_given(2), rule nat_conf_nat_setters
        | rule nat_conf_nat_setters)+
  then show ?thesis by (simp add: comp_assoc)
qed

lemma nat_conf_dyn_delays:
  assumes "main_dyn_delays vm r = Inr (Inr r')"
  shows "nat_conf id r r'"
proof -
  have "nat_of c' = nat_of c" if "chain_setDelays d res c = Inr c'" "slots_fit c" for d res c c'
    using that by (auto simp: chain_setDelays_def try_bind_Inr_iff nat_of_other split: option.splits prod.splits stage_obj.splits)
  then show ?thesis using assms conf_dyn_delays [OF assms]
    by (auto simp: main_dyn_delays_def setDynamicDelays_def try_bind_Inr_iff nat_conf_def option.map_id split: option.splits)
qed

lemma nat_conf_dyn_losses: "main_dyn_losses vm r = Inr r' \<Longrightarrow> nat_conf id r r'"
  by (auto simp: main_dyn_losses_def nat_conf_setters nat_conf_refl split: option.splits if_splits)

lemma nat_conf_fold:
  "(\<And>x r. nat_conf (h x) r (f x r)) \<Longrightarrow> nat_conf (fold h xs) r (fold f xs r)"
proof (induction xs arbitrary: r)
  case (Cons x xs)
  from nat_conf_trans [OF Cons.prems Cons.IH [OF Cons.prems]] show ?case by (simp add: comp_def)
qed (simp add: nat_conf_refl)

lemma nat_conf_main:
  assumes "main inet env4 env6 (Some vm) = Inr (e, r)" and "e = Execute \<or> e = Execute6"
  obtains ext r0 where "main_init env4 env6 ext vm = Inr (True, r0)" and "nat_conf (nat_options inet vm) r0 r"
proof -
  from assms obtain ext b r0 where m: "main_init env4 env6 ext vm = Inr (b, r0)"
    "main_rest inet vm (main_settings inet vm r0) = Inr (e, r)"
    by (auto simp: main_def try_bind_Inr_iff split: if_splits option.splits)
  then have b by (auto simp: main_init_def Router_init_def Router_init_filters_def try_bind_Inr_iff split: option.splits)
  let ?r = "main_settings inet vm r0"
  have "e \<noteq> Exit code" for code using assms(2) by auto
  with m(2) obtain r1 r2 ports where
    r1: "main_dyn_delays vm (main_settings inet vm r0) = Inr (Inr r1)" and r2: "main_dyn_losses vm r1 = Inr r2"
    and p: "main_ports vm = Inr ports"
    and r: "r = fold (\<lambda>(e, i). Router_setDnatRule inet (the_ip (nat_int_ip vm)) e i) ports r2"
    by (cases "main_dyn_delays vm ?r"; cases "projr (main_dyn_delays vm ?r)";
        cases "main_dyn_losses vm (projr (projr (main_dyn_delays vm ?r)))"; cases "main_ports vm")
      (auto simp: main_rest_def)
  have "nat_conf (fold (\<lambda>(e, i). Nat_setDnatRule inet (the_ip (nat_int_ip vm)) e i) ports) r2 r"
    unfolding r by (rule nat_conf_fold) (auto simp: nat_conf_nat_setters)
  from nat_conf_trans [OF nat_conf_trans [OF nat_conf_trans [OF nat_conf_settings nat_conf_dyn_delays [OF r1]]
      nat_conf_dyn_losses [OF r2]] this]
  have "nat_conf (nat_options inet vm) r0 r" by (simp add: nat_options_def p comp_assoc)
  with m(1) \<open>b\<close> that show ?thesis by simp
qed

text \<open>\<open>initFilters\<close> makes the mapper and the filter.\<close>

lemma slots_fitD: "slots_fit c \<Longrightarrow> slot c k = Some i \<Longrightarrow> i < length (objects c) \<and> obj_kind (fst (objects c ! i)) = k"
  by (simp add: slots_fit_def)

lemma slots_fit_init:
  assumes "slots_fit c" and "obj_init env (fst (objects c ! i)) = Inr (b, out, x)"
  shows "slots_fit (c\<lparr>objects := (objects c)[i := (x, snd (objects c ! i))]\<rparr>)"
  unfolding slots_fit_def
proof (intro allI impI)
  fix k j
  assume "slot (c\<lparr>objects := (objects c)[i := (x, snd (objects c ! i))]\<rparr>) k = Some j"
  then have "j < length (objects c) \<and> obj_kind (fst (objects c ! j)) = k" using slots_fitD [OF assms(1)] by simp
  then show "j < length (objects (c\<lparr>objects := (objects c)[i := (x, snd (objects c ! i))]\<rparr>)) \<and>
      obj_kind (fst (objects (c\<lparr>objects := (objects c)[i := (x, snd (objects c ! i))]\<rparr>) ! j)) = k"
    using obj_init_kind [OF assms(2)] by (cases "j = i") simp_all
qed

lemma kind_nat: "obj_kind x = KNat \<Longrightarrow> \<exists>n. x = FNat n"
  by (cases x) simp_all

lemma init_slots_nat_other:
  assumes "init_slots env ok ks c = Inr (b, out, c')" and "slots_fit c" and "KNat \<notin> set ks"
  shows "nat_of c' = nat_of c"
  using assms
proof (induction env ok ks c arbitrary: b out c' rule: init_slots.induct)
  case (2 env ok k ks c)
  show ?case
  proof (cases "slot c k")
    case None
    then show ?thesis using 2 by auto
  next
    case (Some i)
    obtain b1 o1 x where x: "obj_init env (fst (objects c ! i)) = Inr (b1, o1, x)"
      using 2(3) Some by (auto simp: try_bind_Inr_iff split: if_splits)
    let ?c = "c\<lparr>objects := (objects c)[i := (x, snd (objects c ! i))]\<rparr>"
    have n: "nat_of ?c = nat_of c" using 2(5) by (intro nat_of_other [OF 2(4) Some]) auto
    have f: "slots_fit ?c" by (rule slots_fit_init [OF 2(4) x])
    show ?thesis
      using 2 Some x n f by (auto simp: try_bind_Inr_iff Let_def split: if_splits)
  qed
qed simp

lemma init_slots_nat:
  assumes "init_slots env ok ks c = Inr (True, out, c')" and "slots_fit c" and "distinct ks" and "KNat \<in> set ks"
  shows "nat_of c' = map_option (\<lambda>n. snd (Nat_init n)) (nat_of c)"
  using assms
proof (induction env ok ks c arbitrary: out c' rule: init_slots.induct)
  case (2 env ok k ks c)
  show ?case
  proof (cases "slot c k")
    case None
    then show ?thesis using 2 init_slots_nat_other [of env ok ks c] by (cases "k = KNat") (auto simp: nat_of_def)
  next
    case (Some i)
    then obtain b1 o1 x o2 where x: "obj_init env (fst (objects c ! i)) = Inr (b1, o1, x)"
      and r: "init_slots env ok ks (c\<lparr>objects := (objects c)[i := (x, snd (objects c ! i))]\<rparr>) = Inr (True, o2, c')" "b1"
      using 2(3) by (auto simp: try_bind_Inr_iff Let_def split: if_splits)
    let ?c = "c\<lparr>objects := (objects c)[i := (x, snd (objects c ! i))]\<rparr>"
    have f: "slots_fit ?c" by (rule slots_fit_init [OF 2(4) x])
    show ?thesis
    proof (cases "k = KNat")
      case True
      then obtain n where n: "fst (objects c ! i) = FNat n" "i < length (objects c)"
        using slots_fitD [OF 2(4) Some] kind_nat by blast
      then have "nat_of ?c = map_option (\<lambda>n. snd (Nat_init n)) (nat_of c)"
        using x Some True by (auto simp: nat_of_def split: prod.splits)
      then show ?thesis using init_slots_nat_other [OF r(1) f] 2(5) True by simp
    next
      case False
      then have "nat_of c' = map_option (\<lambda>n. snd (Nat_init n)) (nat_of ?c)"
        using 2 Some x r f by (auto simp: Let_def split: if_splits)
      then show ?thesis using nat_of_other [OF 2(4) Some False] by simp
    qed
  qed
qed simp

text \<open>From the options to the object in the running chain.\<close>

lemma main_init_nat:
  assumes "main_init env4 env6 ext vm = Inr (True, r)" and "nat_of (chain4 r) = Some n"
  shows "n = Nat_new (ctor_nat env4)"
proof (cases "main_filters vm")
  case None
  then have "Router_init env4 env6 ext Router_new = Inr (True, r)" using assms(1) by (simp add: main_init_def)
  then show ?thesis using assms(2) by (auto simp: router_eval nat_of_def)
next
  case (Some fs)
  then obtain k ks where fs: "List.map_filter kind_of fs = k # ks" "is_input k" using main_filters_input by blast
  from router_chains_aux [OF this, of env4 env6 ext] assms(1) Some
  obtain l4 where t: "topo env4 (chain4 r) (Some l4) (k # ks)" by (auto simp: main_init_def)
  then have o: "map fst (objects (chain4 r)) = map (make_obj env4) (k # ks)" unfolding topo_def by blast
  from assms(2) obtain i where i: "slot (chain4 r) KNat = Some i" "fst (objects (chain4 r) ! i) = FNat n"
    by (auto simp: nat_of_def split: option.splits stage_obj.splits)
  then have "i < length (k # ks)" using t unfolding topo_def by blast
  moreover have "length (objects (chain4 r)) = length (k # ks)" using o by (metis length_map)
  ultimately have "FNat n = (make_obj env4 ((k # ks) ! i) :: packet stage_obj)"
    using arg_cong [OF o, of "\<lambda>xs. xs ! i"] i(2) nth_map [of i "k # ks" "make_obj env4"] by (simp del: nth_Cons list.map)
  then show ?thesis by (cases "(k # ks) ! i") auto
qed

lemma main_nat:
  assumes "main inet env4 env6 (Some vm) = Inr (Execute, r)" and "one_of_each vm"
    and "initFilters env r = Inr (b, out, r')" and "FNat n \<in> set (chain_objs (chain4 r'))"
  shows "n = snd (Nat_init (nat_options inet vm (Nat_new (ctor_nat env4))))"
proof -
  obtain ext r0 where r0: "main_init env4 env6 ext vm = Inr (True, r0)" "nat_conf (nat_options inet vm) r0 r"
    by (rule nat_conf_main [OF assms(1)]) simp_all
  have b by (rule main_ready [OF assms(1-3), where d = True]) (assumption+)
  with assms(3) obtain c' where i: "init_slots env (\<lambda>k. True) init_order4 (chain4 r) = Inr (True, out, c')" "chain4 r' = c'"
    by (auto simp: initFilters_def try_bind_Inr_iff)
  note R = main_init_ready [OF r0(1) assms(2)]
  have c: "same_shape (chain4 r0) (chain4 r)" using r0(2) configured_shape unfolding nat_conf_def conf_def by blast
  then have s: "same_shape (chain4 r0) c'" using same_shape_trans init_slots_shape [OF i(1)] by blast
  have p: "chain_path c' = chain_path (chain4 r0)"
    by (rule same_shape_path [OF s]) (use R(1,3) in \<open>auto simp: slots_fit_def\<close>)
  from assms(4) obtain j where j: "j \<in> set (chain_path c')" "fst (objects c' ! j) = FNat n"
    unfolding i(2) chain_objs_def by auto
  obtain k where "slot (chain4 r0) k = Some j" using R(3) j(1) p by auto
  then have k: "slot c' k = Some j" using s by (simp add: same_shape_def)
  with slots_fitD [OF same_shape_fit [OF s R(1)]] j(2) have "k = KNat" by fastforce
  with k j(2) have n: "nat_of c' = Some n" by (simp add: nat_of_def)
  have "nat_of c' = map_option (\<lambda>n. snd (Nat_init n)) (nat_of (chain4 r))"
    by (rule init_slots_nat [OF i(1) same_shape_fit [OF c R(1)] distinct_init_order4 set_init_order4])
  also have "nat_of (chain4 r) = map_option (nat_options inet vm) (nat_of (chain4 r0))"
    using r0(2) R(1) by (simp add: nat_conf_def)
  finally obtain m where "nat_of (chain4 r0) = Some m" "n = snd (Nat_init (nat_options inet vm m))"
    using n by (cases "nat_of (chain4 r0)") auto
  with main_init_nat [OF r0(1)] show ?thesis by simp
qed

definition type_named :: "string option \<Rightarrow> nat_type" where
  "type_named t =
     (if t = Some ''addrr'' then ADDR_R_NAT else if t = Some ''symnat'' then SYM_NAT
      else if t = Some ''fullcone'' then FULL_CONE_NAT else PORT_R_NAT)"

lemma rules_fold:
  "smap_find (<) (natRules (fold (\<lambda>(e, i). Nat_setDnatRule inet ip e i) ports n)) p =
     (case map_of (rev ports) p of None \<Rightarrow> smap_find (<) (natRules n) p
      | Some i \<Rightarrow> Some (ConnectionTuple 0 (inet ip) 0 i 0))"
proof (induction ports arbitrary: n)
  case (Cons x ports)
  obtain e i where "x = (e, i)" by (cases x)
  then show ?case using Cons by (auto simp: Nat_setDnatRule_def map_add_def split: option.split)
qed simp

lemma rules_fold_same:
  "natType (fold (\<lambda>(e, i). Nat_setDnatRule inet ip e i) ports n) = natType n"
  "natIpExt (fold (\<lambda>(e, i). Nat_setDnatRule inet ip e i) ports n) = natIpExt n"
  "natIpInt (fold (\<lambda>(e, i). Nat_setDnatRule inet ip e i) ports n) = natIpInt n"
  "natTimeout (fold (\<lambda>(e, i). Nat_setDnatRule inet ip e i) ports n) = natTimeout n"
  by (induction ports arbitrary: n) (auto simp: Nat_setDnatRule_def)

lemma nat_init_fields:
  "natType (snd (Nat_init n)) = natType n" "natIpExt (snd (Nat_init n)) = natIpExt n"
  "natIpInt (snd (Nat_init n)) = natIpInt n" "natTimeout (snd (Nat_init n)) = natTimeout n"
  "natRules (snd (Nat_init n)) = natRules n"
  by (simp_all add: Nat_init_def Let_def split: nat_type.split)

lemmas nat_cfg_setters = Nat_new_def Nat_setIPs_def Nat_setNatType_def Nat_setTimeout_def

lemma main_nat_fields:
  assumes "main inet env4 env6 (Some vm) = Inr (Execute, r)" and "one_of_each vm"
    and "initFilters env r = Inr (b, out, r')" and "FNat n \<in> set (chain_objs (chain4 r'))"
    and "main_ports vm = Inr ports"
  shows "natType n = type_named (nat_type_opt vm)
    \<and> natIpExt n = inet (the_ip (nat_ext_ip vm)) \<and> natIpInt n = inet (the_ip (nat_int_ip vm))
    \<and> natTimeout n = (case nat_timeout vm of None \<Rightarrow> 600 | Some to \<Rightarrow> to)
    \<and> smap_find (<) (natRules n) p =
        map_option (\<lambda>i. ConnectionTuple 0 (inet (the_ip (nat_int_ip vm))) 0 i 0) (map_of (rev ports) p)"
proof -
  define base where "base = (case nat_timeout vm of None \<Rightarrow> id | Some to \<Rightarrow> Nat_setTimeout to)
    ((case nat_type_opt vm of None \<Rightarrow> id | Some t \<Rightarrow> Nat_setNatType t)
      (Nat_setIPs inet (the_ip (nat_ext_ip vm)) (the_ip (nat_int_ip vm)) (Nat_new (ctor_nat env4))))"
  have base: "natType base = type_named (nat_type_opt vm)" "natRules base = []"
    "natIpExt base = inet (the_ip (nat_ext_ip vm))" "natIpInt base = inet (the_ip (nat_int_ip vm))"
    "natTimeout base = (case nat_timeout vm of None \<Rightarrow> 600 | Some to \<Rightarrow> to)"
    unfolding base_def by (cases "nat_type_opt vm"; cases "nat_timeout vm"; simp add: nat_cfg_setters type_named_def)+
  have "n = snd (Nat_init (fold (\<lambda>(e, i). Nat_setDnatRule inet (the_ip (nat_int_ip vm)) e i) ports base))"
    using main_nat [OF assms(1-4)] by (simp add: nat_options_def assms(5) base_def)
  then show ?thesis
    using base by (auto simp: nat_init_fields rules_fold rules_fold_same split: option.split)
qed

text \<open>
  C11. The options configure the address translation: when \<open>main\<close> runs the router in IPv4 mode
  with no filter listed twice, the address translation in its chain, if there is one, is a new
  \<open>Nat\<close> with the addresses, the type, the timeout and the forwarding rules of the options, with
  the mapper and the filter that \<open>init\<close> makes of them; the type is the one named, port restricted
  without a known name, and of several rules for an external port the last one counts.
\<close>

theorem main_configures_nat:
  assumes "main inet env4 env6 (Some vm) = Inr (Execute, r)" and "one_of_each vm"
    and "initFilters env r = Inr (b, out, r')" and "FNat n \<in> set (chain_objs (chain4 r'))"
    and "main_ports vm = Inr ports"
  shows "natType n = type_named (nat_type_opt vm)
    \<and> natIpExt n = inet (the_ip (nat_ext_ip vm)) \<and> natIpInt n = inet (the_ip (nat_int_ip vm))
    \<and> natTimeout n = (case nat_timeout vm of None \<Rightarrow> 600 | Some to \<Rightarrow> to)
    \<and> smap_find (<) (natRules n) p =
        map_option (\<lambda>i. ConnectionTuple 0 (inet (the_ip (nat_int_ip vm))) 0 i 0) (map_of (rev ports) p)
    \<and> (\<exists>cfg. n = snd (Nat_init cfg) \<and> natRules cfg = natRules n)"
  using main_nat_fields [OF assms] main_nat [OF assms(1-4)] nat_init_fields(5) by metis

section \<open>Where the packets come from\<close>

lemma nat_sends_packets:
  assumes "bare q \<in> nat_sends n (bare ` H)"
  shows "\<exists>p \<in> H. ident q = ident p
    \<and> (if isIngoing p then
         (case smap_find (<) (natRules n) (dport p) of
            Some rule \<Rightarrow> bare q = bare (p\<lparr>dstIp := getDstIP rule, dport := getDport rule\<rparr>)
          | None \<Rightarrow> (\<exists>h \<in> H. \<not> isIngoing h \<and> bare q = bare (p\<lparr>dstIp := srcIp h, dport := sport h\<rparr>)
                \<and> (natType n \<noteq> SYM_NAT \<longrightarrow> sport h = dport p))
              \<and> (natType n = FULL_CONE_NAT \<or> dstIp p = natIpExt n
                \<and> (\<exists>h \<in> H. \<not> isIngoing h \<and> answers (natType n) p h \<and> transProt p = transProt h)))
       else \<exists>s. bare q = bare (p\<lparr>srcIp := natIpExt n, sport := s\<rparr>))"
proof -
  from assms obtain p where p: "p \<in> H" "isIngoing q = isIngoing p"
    "if isIngoing p then let_in n (bare ` H) (bare p) (bare q) else \<exists>s. bare q = (bare p)\<lparr>srcIp := natIpExt n, sport := s\<rparr>"
    by (auto simp: nat_sends_def)
  have id: "ident q = ident p" if "bare q = r" "nfqID r = nfqID p" for r
    using that p(2) by (auto simp: ident_def)
  have ans: "answers (natType n) p (bare h) = answers (natType n) p h" for h
    by (simp add: answers_def cong: nat_type.case_cong)
  show ?thesis
  proof (cases "isIngoing p")
    case False
    then obtain s where "bare q = bare (p\<lparr>srcIp := natIpExt n, sport := s\<rparr>)" using p(3) by auto
    then show ?thesis using p(1) False id by (intro bexI [of _ p]) auto
  next
    case inc: True
    then have l: "let_in n (bare ` H) (bare p) (bare q)" using p(3) by simp
    show ?thesis
    proof (cases "smap_find (<) (natRules n) (dport p)")
      case (Some rule)
      then have "bare q = bare (p\<lparr>dstIp := getDstIP rule, dport := getDport rule\<rparr>)" using l by (simp add: let_in_def)
      then show ?thesis using p(1) inc id Some by (intro bexI [of _ p]) auto
    next
      case None
      then have v: "via_connection n (bare ` H) (bare p) (bare q)" and k: "known_remote n (bare ` H) p"
        using l by (simp_all add: let_in_def)
      from v obtain h where h: "h \<in> H" "\<not> isIngoing h" "bare q = bare (p\<lparr>dstIp := srcIp h, dport := sport h\<rparr>)"
        "natType n \<noteq> SYM_NAT \<longrightarrow> sport h = dport p"
        by (auto simp: via_connection_def)
      have "natType n = FULL_CONE_NAT \<or> dstIp p = natIpExt n
          \<and> (\<exists>h \<in> H. \<not> isIngoing h \<and> answers (natType n) p h \<and> transProt p = transProt h)"
        using k ans by (auto simp: known_remote_def)
      then show ?thesis using p(1) inc id h None by (intro bexI [of _ p]) auto
    qed
  qed
qed

text \<open>
  C4. What the NAT lets through the whole router: let \<open>main\<close> run it in IPv4 mode and drop mode,
  which a NAT needs (in accept mode the kernel sends its own copy of the packet), with no filter
  listed twice and a \<open>Nat\<close> among the filters, wherever it is in the chain. Then in every run,
  with any timing of packets, timers, handlers and burst sections and any behaviour of libnet,
  whatever is written with libnet is what the output builds of some packet \<open>q\<close>, and \<open>q\<close> is one that
  came in with only these fields rewritten (and stamp and
  verdict flag): outgoing, the source is now the external address; ingoing, to a port with a
  forwarding rule of the options, the destination is the internal address and the port of the
  rule; ingoing to any other port, it goes to the source of an outgoing packet of the run and,
  unless the NAT is a full cone, it came to the external address from the remote end that an
  outgoing packet of the run with its protocol was sent to: the same address, and for the port
  restricted and the symmetric type the same port. With the run up to the moment when the packet
  is written, these outgoing packets came in before. Calls of the address translation are one
  at a time here; Nat\_Mapper\_Threads has them interleaved.
\<close>

theorem main_nat_solicited:
  assumes "main inet env4 env6 (Some vm) = Inr (Execute, r)" and "one_of_each vm"
    and "initFilters env r = Inr (b, out, r')" and "FNat n \<in> set (chain_objs (chain4 r'))"
    and "main_ports vm = Inr ports" and "drop_mode vm"
    and "stage_run (chain_step (obj_step nat_filter_step) (obj_sink OutputLibnet_build) k)
      (chain_objs (chain4 r')) ins outs fs"
    and "(q, Written calls) \<in> set outs"
  defines "ty \<equiv> type_named (nat_type_opt vm)" and "outside \<equiv> inet (the_ip (nat_ext_ip vm))"
    and "inside \<equiv> inet (the_ip (nat_int_ip vm))"
  shows "(\<exists>lib. OutputLibnet_build lib q = (calls, Inr ()))
    \<and> (\<exists>p \<in> set ins. ident q = ident p
      \<and> (if isIngoing p then
           (case map_of (rev ports) (dport p) of
              Some port \<Rightarrow> bare q = bare (p\<lparr>dstIp := inside, dport := port\<rparr>)
            | None \<Rightarrow> (\<exists>h \<in> set ins. \<not> isIngoing h \<and> bare q = bare (p\<lparr>dstIp := srcIp h, dport := sport h\<rparr>)
                  \<and> (ty \<noteq> SYM_NAT \<longrightarrow> sport h = dport p))
                \<and> (ty = FULL_CONE_NAT \<or> dstIp p = outside
                  \<and> (\<exists>h \<in> set ins. \<not> isIngoing h \<and> answers ty p h \<and> transProt p = transProt h)))
         else \<exists>s. bare q = bare (p\<lparr>srcIp := outside, sport := s\<rparr>)))"
proof -
  obtain e r0 where r0: "main_init env4 env6 e vm = Inr (True, r0)"
    and st: "\<forall>x \<in> set (chain_objs (chain4 r')). obj_started x"
    and ks: "map obj_kind (chain_objs (chain4 r')) = map obj_kind (chain_objs (chain4 r0))"
    by (rule main_ready [OF assms(1-3), where d = True]) (rule that, assumption+)
  have d: "distinct (map obj_kind (chain_objs (chain4 r')))" using main_init_kinds(1) [OF r0 assms(2)] ks by simp
  from drop_mode_last [OF r0 assms(6)] ks obtain xs x where xs: "chain_objs (chain4 r') = xs @ [x]"
    "obj_kind x = KOutputLibnet" by (auto simp: map_eq_append_conv)
  then have x: "nats [x] = []" "KOutputLibnet \<notin> set (map obj_kind xs)" using d by (auto intro: nats_none)
  have "nats xs = [n]" using nats_one [OF assms(4) d] x(1) by (simp only: xs(1) nats_append append_Nil2)
  with origin4.chain_written [OF assms(7) [unfolded xs(1)] st [unfolded xs(1)] nat_from_started xs(2) x(2) assms(8)]
  have w: "bare q \<in> nat_sends n (bare ` set ins)" "\<exists>lib. OutputLibnet_build lib q = (calls, Inr ())" by simp_all
  note O = nat_sends_packets [OF w(1)]
  note C = main_nat_fields [OF assms(1-5)]
  have c: "natType n = ty" "natIpExt n = outside"
    "smap_find (<) (natRules n) p = map_option (\<lambda>i. ConnectionTuple 0 inside 0 i 0) (map_of (rev ports) p)" for p
    using C by (auto simp: ty_def outside_def inside_def)
  show ?thesis using w(2) O unfolding c case_map_option comp_def connection_tuple.sel by (rule conjI)
qed

text \<open>
  C18. A router without NAT changes nothing that it sends: when \<open>main\<close> runs it in IPv4 mode with no
  filter listed twice and no \<open>Nat\<close> in the chain, then everything sent in any run is sent of a packet
  that came in and that no filter has changed but for stamp and verdict flag: either the
  accept verdict for its id, by which the kernel sends the packet as it was received, or exactly
  the libnet calls that the output builds of the packet as it came in (what these keep and lose of
  a packet is stated in Output\_Properties).
\<close>

theorem main_sends_as_arrived:
  assumes "main inet env4 env6 (Some vm) = Inr (Execute, r)" and "one_of_each vm"
    and "initFilters env r = Inr (b, out, r')" and "KNat \<notin> set (map obj_kind (chain_objs (chain4 r')))"
    and "stage_run (chain_step (obj_step nat_filter_step) (obj_sink OutputLibnet_build) k)
      (chain_objs (chain4 r')) ins outs fs"
    and "(q, e) \<in> set outs"
  shows "\<exists>p \<in> set ins. bare q = bare p \<and> (case e of Accepted i \<Rightarrow> i = nfqID p
    | Written calls \<Rightarrow> \<exists>lib. OutputLibnet_build lib p = (calls, Inr ()))"
proof -
  obtain ext r0 where st: "\<forall>x \<in> set (chain_objs (chain4 r')). obj_started x"
    by (rule main_ready [OF assms(1-3), where d = True]) (rule that, assumption+)
  show ?thesis by (rule origin4.chain_plain [OF assms(5) st nat_from_started nats_none [OF assms(4)] assms(6)])
qed

text \<open>In IPv6 mode there is no address translation.\<close>

lemma main6_sends_as_arrived:
  assumes "main inet env4 env6 (Some vm) = Inr (Execute6, r)" and "one_of_each vm"
    and "init6Filters env r = Inr (b, out, r')"
    and "stage_run (chain_step (obj_step (\<lambda>n i out n'. False)) (obj_sink Output6Libnet_build) k)
      (chain_objs (chain6 r')) ins outs fs"
    and "(q, e) \<in> set outs"
  shows "\<exists>p \<in> set ins. bare q = bare p \<and> (case e of Accepted i \<Rightarrow> i = nfqID p
    | Written calls \<Rightarrow> \<exists>lib. Output6Libnet_build lib p = (calls, Inr ()))"
proof -
  obtain ext r0 where r0: "main_init env4 env6 ext vm = Inr (True, r0)"
    and st: "\<forall>x \<in> set (chain_objs (chain6 r')). obj_started x"
    and ks: "map obj_kind (chain_objs (chain6 r')) = map obj_kind (chain_objs (chain6 r0))"
    by (rule main_ready6 [OF assms(1-3), where d = True]) (rule that, assumption+)
  have n: "nats (chain_objs (chain6 r')) = []"
    by (rule nats_none) (unfold ks, rule main_init_kinds(2) [OF r0 assms(2)])
  show ?thesis by (rule origin6.chain_plain [OF assms(4) st TrueI n assms(5)])
qed

section \<open>A run with a NAT\<close>

definition example_inet :: "string \<Rightarrow> u32" where
  "example_inet s = (if s = ''2'' then 2 else 10)"

definition example_nat_options :: options where
  "example_nat_options = example_options\<lparr>nat_ext_ip := Some ''2'', filters := Some [''Nat''], accept_mode := False\<rparr>"

text \<open>The output with libnet as it is after the initialisation.\<close>

definition example_out :: "packet libnet_out" where
  "example_out = libnet_asyncPop (libnet_out_new True)"

lemma example_nat_main:
  "\<exists>r r'. main example_inet example_env example_env (Some example_nat_options) = Inr (Execute, r)
     \<and> initFilters example_init_env r = Inr (True, [], r')
     \<and> chain_objs (chain4 r') = [FInputDrop, FNat (snd (Nat_init (example_nat PORT_R_NAT))), FOutputLibnet example_out]"
  by (simp add: router_eval main_def example_nat_options_def example_options_def main_init_def main_filters_def Let_def
      main_rest_def main_dyn_delays_def main_dyn_losses_def main_ports_def main_settings_def given_def Router_setIPs_def
      chain_objs_def chain_path_def example_inet_def the_ip_def nat_cfg_setters example_nat_def example_env_def Nat_init_def
      OutputLibnet_init_def example_out_def)

text \<open>A packet with an IP header, as the input of the drop mode passes it on.\<close>

definition example_ip :: "bool \<Rightarrow> u32 \<Rightarrow> u32 \<Rightarrow> u16 \<Rightarrow> u16 \<Rightarrow> packet" where
  "example_ip ing src dst sp dp = (example_packet ing src dst sp dp)\<lparr>packetData := 69 # replicate 39 0\<rparr>"

abbreviation dropped :: "packet \<Rightarrow> packet" where
  "dropped p \<equiv> fst (setVerdict False p)"

lemma example_translation:
  "\<exists>n'. Nat_handlePacket 0 (dropped (example_ip False 10 9 1000 80)) (snd (Nat_init (example_nat PORT_R_NAT))) =
      Inr (Some (dropped (example_ip False 2 9 1000 80)), n')
     \<and> Nat_handlePacket 5 (dropped (example_ip True 9 2 80 1000)) n' = Inr (Some (dropped (example_ip True 9 10 80 1000)), n')"
  by (simp add: Nat_handlePacket_def Nat_init_def example_nat_def filter_run_simps nat_cfg_defs example_ip_def setVerdict_def
      mapPacket_def filterPacket_def NatMapper_mapPacket_def checkDnat_def NatMapper_makeNewConn_def
      NatMapper_new_def setDnatRules_def)

text \<open>The calls of libnet for such a packet, all successful.\<close>

definition example_calls :: "packet \<Rightarrow> libnet_call list" where
  "example_calls p = fst (OutputLibnet_build (\<lambda>c. 1) p)"

lemma example_build:
  "OutputLibnet_build (\<lambda>c. 1) (dropped (example_ip ing src dst sp dp)) = (example_calls (dropped (example_ip ing src dst sp dp)), Inr ())"
  unfolding example_calls_def
  by (simp add: OutputLibnet_build_def example_ip_def example_packet_def setVerdict_def load8_def load16_def ipproto_defs
      prod_eq_iff Let_def lcall_def)

lemma example_arrival:
  assumes "Nat_handlePacket now (dropped p) n = Inr (Some q, n')"
  shows "chain_step (obj_step nat_filter_step) (obj_sink build) 3 [FInputDrop, FNat n, FOutputLibnet s] [p] []
    [FInputDrop, FNat n', FOutputLibnet (OutputLibnet_handlePacket q s)]"
proof -
  have i: "obj_step nat_filter_step FInputDrop [p] [dropped p] FInputDrop"
    by (rule obj_step.input_drop [of p _ "snd (setVerdict False p)"]) (simp add: InputDrop_handlePacket_def split: prod.splits)
  have n: "obj_step nat_filter_step (FNat n) [dropped p] [q] (FNat n')"
    using nat_filter_step.handle [OF assms] by (intro obj_step.nat) simp
  have "obj_sink build (FOutputLibnet s) [q] [] (FOutputLibnet (OutputLibnet_handlePacket q s))"
    using obj_send.arrive [of build s q] by (auto simp: obj_sink_def)
  then have "chain_step (obj_step nat_filter_step) (obj_sink build) (Suc 0) [FOutputLibnet s] [q] []
      [FOutputLibnet (OutputLibnet_handlePacket q s)]" by (rule chain_sent)
  then show ?thesis unfolding numeral_3_eq_3
    by (intro chain_passes [where step = "obj_step nat_filter_step", OF i] chain_passes [where step = "obj_step nat_filter_step", OF n])
qed

lemma example_written:
  assumes "OutputLibnet_build (\<lambda>c. 1) q = (calls, Inr ())"
  shows "chain_step (obj_step nat_filter_step) (obj_sink OutputLibnet_build) 3
    [x, y, FOutputLibnet (OutputLibnet_handlePacket q example_out)] [] [(q, Written calls)] [x, y, FOutputLibnet example_out]"
proof -
  let ?s = "OutputLibnet_handlePacket q example_out"
  have p: "outPosted ?s = [((), Ok, Some q)]"
    and h: "libnet_popHandler (OutputLibnet_build (\<lambda>c. 1)) True Ok (Some q) (?s\<lparr>outPosted := []\<rparr>) = (calls, Inr example_out)"
    using assms by (simp_all add: example_out_def libnet_out_new_def libnet_asyncPop_def OutputLibnet_handlePacket_def
        libnet_popHandler_def AsyncQueue_def asyncPop_def push_def push_locked_def tryPop_def tryPop_take_def tryPop_nice_def Let_def)
  have w: "Write_packet \<in> set calls"
    using libnet4.completes [of "\<lambda>c. 1" q] assms by simp
  have "obj_send OutputLibnet_build (FOutputLibnet ?s) [] [(q, Written calls)] [] (FOutputLibnet example_out)"
    by (rule obj_send.pop [where k = 0 and lib = "\<lambda>c. 1" and reinit = True and calls = calls and ec = Ok and d = "Some q"]) (simp_all add: p h w drop_nth_def)
  then have "obj_sink OutputLibnet_build (FOutputLibnet ?s) [] [(q, Written calls)] (FOutputLibnet example_out)"
    unfolding obj_sink_def by (rule exI)
  then show ?thesis unfolding numeral_3_eq_3 by (intro chain_behind) (rule chain_sent)
qed

text \<open>A host asks, the server answers, and the answer gets back to the host.\<close>

abbreviation example_ins :: "packet list" where
  "example_ins \<equiv> [example_ip False 10 9 1000 80, example_ip True 9 2 80 1000]"

abbreviation example_outs :: "packet sent list" where
  "example_outs \<equiv> map (\<lambda>q. (q, Written (example_calls q)))
     [dropped (example_ip False 2 9 1000 80), dropped (example_ip True 9 10 80 1000)]"

lemma example_nat_run:
  obtains r r' n' where "main example_inet example_env example_env (Some example_nat_options) = Inr (Execute, r)"
    and "one_of_each example_nat_options" and "initFilters example_init_env r = Inr (True, [], r')"
    and "FNat (snd (Nat_init (example_nat PORT_R_NAT))) \<in> set (chain_objs (chain4 r'))"
    and "stage_run (chain_step (obj_step nat_filter_step) (obj_sink OutputLibnet_build) 3) (chain_objs (chain4 r'))
      example_ins example_outs [FInputDrop, FNat n', FOutputLibnet example_out]"
proof -
  obtain r r' where r: "main example_inet example_env example_env (Some example_nat_options) = Inr (Execute, r)"
    "initFilters example_init_env r = Inr (True, [], r')"
    "chain_objs (chain4 r') = [FInputDrop, FNat (snd (Nat_init (example_nat PORT_R_NAT))), FOutputLibnet example_out]"
    using example_nat_main by (elim exE conjE)
  obtain n' where n': "Nat_handlePacket 0 (dropped (example_ip False 10 9 1000 80)) (snd (Nat_init (example_nat PORT_R_NAT))) =
      Inr (Some (dropped (example_ip False 2 9 1000 80)), n')"
    "Nat_handlePacket 5 (dropped (example_ip True 9 2 80 1000)) n' = Inr (Some (dropped (example_ip True 9 10 80 1000)), n')"
    using example_translation by (elim exE conjE)
  note more = stage_run.more [where step = "chain_step (obj_step nat_filter_step) (obj_sink OutputLibnet_build) 3"]
  from more [OF more [OF more [OF more [OF stage_run.empty example_arrival [OF n'(1)]] example_written [OF example_build]]
      example_arrival [OF n'(2)]] example_written [OF example_build]]
  have run: "stage_run (chain_step (obj_step nat_filter_step) (obj_sink OutputLibnet_build) 3) (chain_objs (chain4 r'))
      example_ins example_outs [FInputDrop, FNat n', FOutputLibnet example_out]" by (simp add: r(3))
  have o: "one_of_each example_nat_options"
    by (simp add: one_of_each_def main_filters_def example_nat_options_def example_options_def map_filter_simps kind_of_def)
  have "FNat (snd (Nat_init (example_nat PORT_R_NAT))) \<in> set (chain_objs (chain4 r'))" by (simp add: r(3))
  from that [OF r(1) o r(2) this run] show ?thesis .
qed

lemma example_nat_ports: "main_ports example_nat_options = Inr []"
  by (simp add: main_ports_def example_nat_options_def example_options_def)

lemma main_configures_nat_witness:
  "\<exists>r r' n. main example_inet example_env example_env (Some example_nat_options) = Inr (Execute, r)
     \<and> initFilters example_init_env r = Inr (True, [], r') \<and> FNat n \<in> set (chain_objs (chain4 r'))
     \<and> natType n = PORT_R_NAT \<and> natIpExt n = 2 \<and> smap_find (<) (natRules n) 80 = None"
proof (rule example_nat_run)
  fix r r' n'
  assume r: "main example_inet example_env example_env (Some example_nat_options) = Inr (Execute, r)"
    "one_of_each example_nat_options" "initFilters example_init_env r = Inr (True, [], r')"
    "FNat (snd (Nat_init (example_nat PORT_R_NAT))) \<in> set (chain_objs (chain4 r'))"
  from main_configures_nat [OF r example_nat_ports, of 80] r(1,3,4) show ?thesis
    by (intro exI conjI) (assumption | simp add: example_nat_options_def example_options_def type_named_def
      the_ip_def example_inet_def)+
qed

lemma main_nat_solicited_witness:
  "\<exists>r r' fs. main example_inet example_env example_env (Some example_nat_options) = Inr (Execute, r)
     \<and> initFilters example_init_env r = Inr (True, [], r')
     \<and> stage_run (chain_step (obj_step nat_filter_step) (obj_sink OutputLibnet_build) 3) (chain_objs (chain4 r'))
         example_ins example_outs fs
     \<and> (\<exists>h \<in> set example_ins. \<not> isIngoing h \<and> srcIp h = 10)"
proof (rule example_nat_run)
  fix r r' n'
  assume r: "main example_inet example_env example_env (Some example_nat_options) = Inr (Execute, r)"
    "one_of_each example_nat_options" "initFilters example_init_env r = Inr (True, [], r')"
    "FNat (snd (Nat_init (example_nat PORT_R_NAT))) \<in> set (chain_objs (chain4 r'))"
    and run: "stage_run (chain_step (obj_step nat_filter_step) (obj_sink OutputLibnet_build) 3) (chain_objs (chain4 r'))
      example_ins example_outs [FInputDrop, FNat n', FOutputLibnet example_out]"
  let ?q = "dropped (example_ip True 9 10 80 1000)"
  have "drop_mode example_nat_options"
    by (simp add: drop_mode_def example_nat_options_def example_options_def)
  from main_nat_solicited [OF r example_nat_ports this run, of ?q "example_calls ?q"]
  have "\<exists>h \<in> set example_ins. \<not> isIngoing h \<and> srcIp h = 10"
    by (auto simp: example_ip_def example_packet_def bare_def ident_def setVerdict_def)
  with r(1,3) run show ?thesis by blast
qed

lemma main_sends_as_arrived_witness:
  "\<exists>r r' p. main (\<lambda>s. 0) example_env example_env (Some example_options) = Inr (Execute, r)
     \<and> initFilters example_init_env r = Inr (True, [], r')
     \<and> stage_run (chain_step (obj_step nat_filter_step) (obj_sink OutputLibnet_build) 2) (chain_objs (chain4 r'))
         [p] [accepted p] [FInput, FOutput]
     \<and> bare (fst (accepted p)) = bare p \<and> snd (accepted p) = Accepted (nfqID p)"
proof -
  obtain r r' where r: "main (\<lambda>s. 0) example_env example_env (Some example_options) = Inr (Execute, r)"
    "initFilters example_init_env r = Inr (True, [], r')" "chain_objs (chain4 r') = [FInput, FOutput]"
    using example_main by (elim exE conjE)
  let ?p = "example_packet True 1 2 3 4"
  have "\<not> verdictSet ?p" by (simp add: example_packet_def)
  then have run: "stage_run (chain_step (obj_step nat_filter_step) (obj_sink OutputLibnet_build) 2) (chain_objs (chain4 r'))
      [?p] [accepted ?p] [FInput, FOutput]"
    using stage_run_one [where step = "chain_step (obj_step nat_filter_step) (obj_sink OutputLibnet_build) 2", OF example_pass]
    by (simp add: r(3))
  have "one_of_each example_options"
    by (simp add: one_of_each_def main_filters_def example_options_def map_filter_simps kind_of_def)
  from main_sends_as_arrived [OF r(1) this r(2) _ run, of "fst (accepted ?p)" "snd (accepted ?p)"]
  have "bare (fst (accepted ?p)) = bare ?p \<and> snd (accepted ?p) = Accepted (nfqID ?p)"
    by (auto simp: r(3) accepted_def)
  with r run show ?thesis by blast
qed

end
