(* ===== verification/Main_Lossless.thy ===== *)
theory Main_Lossless
  imports Main_Origin
begin

text \<open>
  A router that loses nothing: with the inputs and outputs of the accept mode, the delays and the
  burst filter, every packet has been sent or is held by one of the filters.
\<close>

section \<open>A router that loses nothing\<close>

lemma main_init_objs:
  assumes "main_init env4 env6 ext vm = Inr (True, r)" and "filters vm = Some fs" and "accept_mode vm"
  shows "set (map obj_kind (chain_objs (chain4 r))) \<subseteq> {KInput, KOutput} \<union> set (List.map_filter kind_of fs)"
proof -
  let ?ks = "List.map_filter kind_of (''Input'' # fs @ [''Output''])"
  have m: "main_filters vm = Some (''Input'' # fs @ [''Output''])" using assms(2,3) by (simp add: main_filters_def)
  then obtain k ks where fs: "?ks = k # ks" "is_input k" using main_filters_input by blast
  from router_chains_aux [OF this, of env4 env6 ext] assms(1) m
  obtain l4 where "topo env4 (chain4 r) (Some l4) (k # ks)" by (auto simp: main_init_def)
  from topo_path(1) [OF this] have "map obj_kind (chain_objs (chain4 r)) = route ?ks" unfolding fs(1) by (simp add: comp_def)
  moreover obtain us where "?ks = us @ route ?ks" using route_suffix by blast
  then have "set (route ?ks) \<subseteq> set ?ks" by (metis set_append sup_ge2)
  moreover have "set ?ks = {KInput, KOutput} \<union> set (List.map_filter kind_of fs)"
    by (auto simp: set_map_filter kind_of_def)
  ultimately show ?thesis by simp
qed

text \<open>
  C10. A router of delays and bursts loses nothing: when \<open>main\<close> runs it in IPv4 mode with
  \<open>accept-mode\<close>, no filter listed twice, and only static delay, dynamic delay and burst
  among the listed filters, then in every run, with any timing of packets, timers, handlers and
  critical sections of the burst filter, the packets that came in are those that have been sent
  and those that the filters still hold, each once. Without burst filter also their order is
  the same: the packets of a direction that came in are those sent, followed by those held.
\<close>

theorem main_lossless:
  assumes "main inet env4 env6 (Some vm) = Inr (Execute, r)" and "one_of_each vm"
    and "filters vm = Some fs" and "accept_mode vm"
    and "set (List.map_filter kind_of fs) \<subseteq> {KStaticDelay, KDynamicDelay, KBurst}"
    and "initFilters env r = Inr (b, out, r')"
    and "stage_run (chain_step (obj_step nat_filter_step) (obj_sink OutputLibnet_build) n)
      (chain_objs (chain4 r')) ins outs ss"
    and "\<forall>p \<in> set ins. \<not> verdictSet p"
  shows "mset (map ident ins) = mset (map sent_ident outs) + mset (map ident (concat (map obj_packets ss)))
    \<and> (KBurst \<notin> set (List.map_filter kind_of fs) \<longrightarrow>
        of_dir d (map ident ins) = of_dir d (map sent_ident outs) @ chain_held obj_held d ss)"
proof -
  obtain e r0 where r0: "main_init env4 env6 e vm = Inr (True, r0)"
    and ok: "list_all obj_ok (chain_objs (chain4 r'))" "\<forall>x \<in> set (chain_objs (chain4 r')). \<forall>d. obj_held d x = []"
    and k: "map obj_kind (chain_objs (chain4 r')) = map obj_kind (chain_objs (chain4 r0))"
    by (rule main_ready [OF assms(1,2,6), where d = d]) (rule that, assumption+)
  note kinds = main_init_objs [OF r0 assms(3,4), folded k]
  then have "set (map obj_kind (chain_objs (chain4 r'))) \<subseteq> lossless_kinds"
    using assms(5) unfolding lossless_kinds_def by auto
  then have keeps: "list_all obj_keeps (chain_objs (chain4 r'))"
    using ok(1) by (auto simp: list_all_iff obj_keeps_def)
  have "weigh held_idents ss = mset (map ident (concat (map obj_packets ss)))"
    by (induction ss) (simp_all add: held_idents_def)
  with ipv4.chain_keeps [OF assms(7) keeps ok(2) assms(8)]
  have "mset (map ident ins) = mset (map sent_ident outs) + mset (map ident (concat (map obj_packets ss)))" by simp
  moreover have "of_dir d (map ident ins) = of_dir d (map sent_ident outs) @ chain_held obj_held d ss"
    if "KBurst \<notin> set (List.map_filter kind_of fs)"
  proof -
    have "KBurst \<notin> set (map obj_kind (chain_objs (chain4 r')))" using kinds that by auto
    from ipv4.chain_keeps_order [OF assms(7) keeps ok(2) assms(8) this] show ?thesis .
  qed
  ultimately show ?thesis by blast
qed

section \<open>A run with a delay\<close>

definition example_delay_options :: options where
  "example_delay_options = example_options\<lparr>filters := Some [''StaticDelay'']\<rparr>"

lemma example_delay_main:
  "\<exists>r r' s. main (\<lambda>s. 0) example_env example_env (Some example_delay_options) = Inr (Execute, r)
     \<and> initFilters example_init_env r = Inr (True, [], r')
     \<and> chain_objs (chain4 r') = [FInput, FStaticDelay s, FOutput]"
  by (simp add: router_eval main_def example_delay_options_def example_options_def main_init_def main_filters_def
      Let_def main_rest_def main_dyn_delays_def main_dyn_losses_def main_ports_def main_settings_def given_def
      Router_setIPs_def chain_objs_def chain_path_def StaticDelay_init_def)

lemma main_lossless_witness:
  "\<exists>r r' s p. main (\<lambda>s. 0) example_env example_env (Some example_delay_options) = Inr (Execute, r)
     \<and> initFilters example_init_env r = Inr (True, [], r')
     \<and> stage_run (chain_step (obj_step nat_filter_step) (obj_sink OutputLibnet_build) 3) (chain_objs (chain4 r')) [p] []
         [FInput, FStaticDelay s, FOutput]
     \<and> mset (map ident [p]) = mset (map ident (concat (map obj_packets [FInput, FStaticDelay s, FOutput])))
     \<and> of_dir True (map ident [p]) = chain_held obj_held True [FInput, FStaticDelay s, FOutput]"
proof -
  obtain r r' s where r: "main (\<lambda>s. 0) example_env example_env (Some example_delay_options) = Inr (Execute, r)"
    "initFilters example_init_env r = Inr (True, [], r')" "chain_objs (chain4 r') = [FInput, FStaticDelay s, FOutput]"
    using example_delay_main by (elim exE conjE)
  let ?p = "example_packet True 1 2 3 4" and ?st = "obj_step nat_filter_step" and ?sk = "obj_sink OutputLibnet_build"
  let ?s = "delay_handlePacket ?p s"
  have i: "?st FInput [?p] [?p] FInput" by (rule obj_step.input) (simp add: Input_handlePacket_def)
  have "?st (FStaticDelay s) [?p] [] (FStaticDelay ?s)" by (rule obj_step.static_delay) (rule delay_step.arrive)
  then have "chain_step ?st ?sk (Suc (Suc 0)) [FStaticDelay s, FOutput] [?p] [] [FStaticDelay ?s, FOutput]"
    by (rule chain_holds)
  then have "chain_step ?st ?sk 3 [FInput, FStaticDelay s, FOutput] [?p] [] [FInput, FStaticDelay ?s, FOutput]"
    unfolding numeral_3_eq_3 by (rule chain_passes [where step = ?st, OF i])
  then have run: "stage_run (chain_step ?st ?sk 3) (chain_objs (chain4 r')) [?p] [] [FInput, FStaticDelay ?s, FOutput]"
    using stage_run_one [where step = "chain_step ?st ?sk 3"] by (simp add: r(3))
  have o: "one_of_each example_delay_options" "\<not> verdictSet ?p"
    by (simp_all add: one_of_each_def main_filters_def example_delay_options_def example_options_def map_filter_simps kind_of_def
        example_packet_def)
  have f: "filters example_delay_options = Some [''StaticDelay'']" "accept_mode example_delay_options"
    by (simp_all add: example_delay_options_def example_options_def)
  from main_lossless [OF r(1) o(1) f _ r(2) run, of True] o(2)
  have "mset (map ident [?p]) = mset (map ident (concat (map obj_packets [FInput, FStaticDelay ?s, FOutput])))
      \<and> of_dir True (map ident [?p]) = chain_held obj_held True [FInput, FStaticDelay ?s, FOutput]"
    by (simp add: map_filter_simps kind_of_def split: if_splits)
  then show ?thesis using r(1,2) run by blast
qed

end
