(* ===== verification/Nat_Table.thy ===== *)
theory Nat_Table
  imports Nat_Handler
begin

text \<open>
  The specification of the port-preserving NAT types and the proof that \<open>Nat\<close> implements it.
  The specification has no connection objects, weak pointers or port maps: its state is a
  table of the inside host behind every port, and a table of the remote ends that have been
  sent to, each with the time at which the row is dropped. When every deleter runs as soon as
  its entry's timer expires, \<open>handlePacket\<close> on the objects of nat.cpp, nat\_mapper.cpp and
  nat\_filters.cpp is \<open>spec_handle\<close> on the tables, and a timer drops a row that is due.
\<close>

section \<open>The mapper with prompt deleters\<close>

inductive nm_due :: "nat_mapper \<Rightarrow> nat_mapper \<Rightarrow> bool" where
  nm_due: "store_expire now i (entries m) = Some st \<Longrightarrow> store_reap 0 st = Some ((i, e), st') \<Longrightarrow>
    nm_due m (NatMapper_removeFromMaps (intTuple e) (extTuple e) (m\<lparr>entries := st'\<rparr>))"

definition nm_prompt_inv :: "nat_mapper \<Rightarrow> bool" where
  "nm_prompt_inv m \<longleftrightarrow> nm_inv m \<and> dying (entries m) = []
     \<and> (\<forall>p i. smap_find (<) (intPortMap m) p = Some i \<longrightarrow> live (entries m) i \<noteq> None)
     \<and> (\<forall>i e. live (entries m) i = Some e \<longrightarrow>
          smap_find (<) (intPortMap m) (getSport (intTuple e)) = Some i
          \<and> timeout e = sint (connectionTimeout m))"

lemma nm_prompt_invD:
  assumes "nm_prompt_inv m"
  shows "nm_inv m" and "dying (entries m) = []"
    and "smap_find (<) (intPortMap m) p = Some i \<Longrightarrow> \<exists>e. live (entries m) i = Some e"
    and "live (entries m) i = Some e \<Longrightarrow>
      smap_find (<) (intPortMap m) (getSport (intTuple e)) = Some i"
    and "live (entries m) i = Some e \<Longrightarrow> timeout e = sint (connectionTimeout m)"
  using assms by (auto simp: nm_prompt_inv_def)

text \<open>The abstraction: the host behind a port and the end of its connection.\<close>

definition hosts_of :: "nat_mapper \<Rightarrow> u16 \<Rightarrow> (u32 \<times> int) option" where
  "hosts_of m p =
     (case find_entry (<) (intPortMap m) (entries m) p of
        None \<Rightarrow> None
      | Some (i, e) \<Rightarrow> Some (getSrcIP (intTuple e), the (timer e)))"

lemma nm_prompt_new: "nm_prompt_inv (setDnatRules r (NatMapper_new a b c))"
  by (simp add: nm_prompt_inv_def) (simp add: setDnatRules_def NatMapper_new_def empty_store_def)

lemma hosts_new: "hosts_of (setDnatRules r (NatMapper_new a b c)) = (\<lambda>p. None)"
  by (simp add: fun_eq_iff hosts_of_def find_entry_def setDnatRules_def NatMapper_new_def)

lemma hosts_live:
  assumes "nm_prompt_inv m"
  shows "hosts_of m p =
    (case smap_find (<) (intPortMap m) p of
       None \<Rightarrow> None
     | Some i \<Rightarrow> Some (getSrcIP (intTuple (the (live (entries m) i))), the (timer (the (live (entries m) i)))))"
  using nm_prompt_invD(3) [OF assms, of p]
  by (auto simp: hosts_of_def find_entry_def lock_def split: option.split)

text \<open>A port's key and its entry determine each other.\<close>

lemma nm_key_iff:
  assumes inv: "nm_prompt_inv m" and l: "live (entries m) i = Some e"
  shows "smap_find (<) (intPortMap m) p = Some i \<longleftrightarrow> p = getSport (intTuple e)"
proof
  show "p = getSport (intTuple e)" if "smap_find (<) (intPortMap m) p = Some i"
    using nm_invD(4) [OF nm_prompt_invD(1) [OF inv] that live_present [OF l]] by simp
qed (simp add: nm_prompt_invD(4) [OF inv l])

lemma nm_prompt_known:
  assumes inv: "nm_prompt_inv m"
    and f: "find_entry (<) (intPortMap m) (entries m) p = Some (i, e)"
  shows "nm_prompt_inv (m\<lparr>entries := store_rearm now i (entries m)\<rparr>)"
    and "hosts_of (m\<lparr>entries := store_rearm now i (entries m)\<rparr>) =
      (hosts_of m)(p \<mapsto> (getSrcIP (intTuple e), now + sint (connectionTimeout m) * 1000000))"
proof -
  note P = nm_prompt_invD [OF inv]
  from f have m: "smap_find (<) (intPortMap m) p = Some i" "live (entries m) i = Some e"
    by (simp_all add: find_entry_Some)
  show inv': "nm_prompt_inv (m\<lparr>entries := store_rearm now i (entries m)\<rparr>)"
    unfolding nm_prompt_inv_def using nm_inv_rearm [OF P(1)] P(2-5)
    by (auto simp: live_rearm split: if_splits)
  show "hosts_of (m\<lparr>entries := store_rearm now i (entries m)\<rparr>) =
      (hosts_of m)(p \<mapsto> (getSrcIP (intTuple e), now + sint (connectionTimeout m) * 1000000))"
  proof
    fix q
    have "smap_find (<) (intPortMap m) q = Some i \<longleftrightarrow> q = p"
      using nm_key_iff [OF inv m(2)] m(1) by simp
    then show "hosts_of (m\<lparr>entries := store_rearm now i (entries m)\<rparr>) q =
        ((hosts_of m)(p \<mapsto> (getSrcIP (intTuple e), now + sint (connectionTimeout m) * 1000000))) q"
      using m P(5) [OF m(2)] hosts_live [OF inv', of q] hosts_live [OF inv, of q]
      by (cases "smap_find (<) (intPortMap m) q") (auto simp: live_rearm)
  qed
qed

lemma nm_prompt_fresh:
  assumes inv: "nm_prompt_inv m"
    and f: "find_entry (<) (intPortMap m) (entries m) (sport pkt) = None"
  shows "nm_prompt_inv (NatMapper_makeNewConn now
      (ConnectionTuple d (ipExt m) dp (sport pkt) pr) (tuple_of pkt) m)" (is "nm_prompt_inv ?m")
    and "hosts_of (NatMapper_makeNewConn now
      (ConnectionTuple d (ipExt m) dp (sport pkt) pr) (tuple_of pkt) m) =
      (hosts_of m)(sport pkt \<mapsto> (srcIp pkt, now + sint (connectionTimeout m) * 1000000))"
proof -
  note P = nm_prompt_invD [OF inv]
  have none: "smap_find (<) (intPortMap m) (sport pkt) = None"
    using f P(3) [of "sport pkt"] by (fastforce simp: find_entry_def lock_def split: option.splits)
  have sp: "getSport (tuple_of pkt) = sport pkt" "getSrcIP (tuple_of pkt) = srcIp pkt"
    by (simp_all add: tuple_of_def)
  have lt: "live (entries m) i = Some e \<Longrightarrow> i \<noteq> next_entry (entries m)" for i e
    using nm_invD(1) [OF P(1)] by (auto simp: store_ok_def)
  have key: "smap_find (<) (intPortMap m) q = Some i \<Longrightarrow> i \<noteq> next_entry (entries m)" for q i
    using nm_invD(3) [OF P(1), of q i] by blast
  have other: "live (entries m) i = Some e \<Longrightarrow> getSport (intTuple e) \<noteq> sport pkt" for i e
    using P(4) [of i e] none by auto
  have ct: "connectionTimeout ?m = connectionTimeout m" "dying (entries ?m) = []"
    by (simp_all add: NatMapper_makeNewConn_def store_add_def P(2))
  show inv': "nm_prompt_inv ?m"
    unfolding nm_prompt_inv_def makeNewConn_maps ct
    using nm_inv_makeNewConn [OF P(1)] P(2-5) lt other
    by (auto simp: live_add sp split: if_splits)
  show "hosts_of ?m = (hosts_of m)(sport pkt \<mapsto> (srcIp pkt, now + sint (connectionTimeout m) * 1000000))"
    unfolding fun_eq_iff hosts_live [OF inv'] fun_upd_apply hosts_live [OF inv] makeNewConn_maps
    using key by (auto simp: live_add sp split: option.split)
qed

lemma nm_prompt_expire:
  assumes inv: "nm_prompt_inv m" and ex: "store_expire now i (entries m) = Some st"
    and re: "store_reap 0 st = Some ((i, e), st')"
    and m': "m' = NatMapper_removeFromMaps (intTuple e) (extTuple e) (m\<lparr>entries := st'\<rparr>)"
  shows "nm_prompt_inv m'" and "live (entries m) i = Some e"
    and "\<exists>h d. hosts_of m (getSport (intTuple e)) = Some (h, d) \<and> d \<le> now"
    and "hosts_of m' = (hosts_of m)(getSport (intTuple e) := None)"
proof -
  note P = nm_prompt_invD [OF inv]
  from store_expireD [OF ex] re P(2) obtain d
    where l: "live (entries m) i = Some e" and d: "timer e = Some d" "d \<le> now"
      and st': "st' = (entries m)\<lparr>live := (live (entries m))(i := None)\<rparr>"
    by (auto simp: store_reap_def)
  note K = nm_key_iff [OF inv l]
  let ?p = "getSport (intTuple e)"
  have other: "live (entries m) j = Some f \<Longrightarrow> j \<noteq> i \<Longrightarrow> getSport (intTuple f) \<noteq> ?p" for j f
    using P(4) [of j f] P(4) [OF l] by auto
  have I: "nm_inv m'"
    using nm_inv_delete [OF nm_inv_expire [OF P(1) ex], of 0 i e st'] m' re by simp
  have eqs: "intPortMap m' = smap_erase (<) ?p (intPortMap m)" "entries m' = st'"
    "connectionTimeout m' = connectionTimeout m"
    by (simp_all add: m' NatMapper_removeFromMaps_def)
  show inv': "nm_prompt_inv m'"
    unfolding nm_prompt_inv_def eqs using I P(2-5) K other by (auto simp: st')
  show "hosts_of m' = (hosts_of m)(?p := None)"
    unfolding fun_eq_iff hosts_live [OF inv'] fun_upd_apply hosts_live [OF inv] eqs
    using K by (auto simp: st' split: option.split)
  show "\<exists>h d. hosts_of m ?p = Some (h, d) \<and> d \<le> now"
    unfolding hosts_live [OF inv] P(4) [OF l] using d by (simp add: l)
  show "live (entries m) i = Some e" by (rule l)
qed

lemma nm_prompt_due:
  assumes inv: "nm_prompt_inv m" and due: "nm_due m m'"
  shows "nm_prompt_inv m' \<and> (\<exists>p h d now. hosts_of m p = Some (h, d) \<and> d \<le> now \<and> hosts_of m' = (hosts_of m)(p := None))"
  using due
proof cases
  case (nm_due now i st e st')
  note E = nm_prompt_expire [OF inv nm_due(2,3,1)]
  then show ?thesis by blast
qed

text \<open>Every row that is due has a timer that fires.\<close>

lemma store_expires:
  assumes "live st i = Some e" and "timer e = Some d" and "d \<le> now" and "dying st = []"
  obtains st1 st2 where "store_expire now i st = Some st1" and "store_reap 0 st1 = Some ((i, e), st2)"
  using assms by (simp add: store_expire_def store_reap_def)

lemma nm_due_complete:
  assumes inv: "nm_prompt_inv m" and h: "hosts_of m p = Some (h, d)" and d: "d \<le> now"
  shows "\<exists>m'. nm_due m m' \<and> hosts_of m' = (hosts_of m)(p := None)"
proof -
  note P = nm_prompt_invD [OF inv]
  from h obtain i e where f: "smap_find (<) (intPortMap m) p = Some i" "live (entries m) i = Some e"
    and t: "d = the (timer e)"
    by (auto simp: hosts_of_def find_entry_Some split: option.splits)
  have "timer e \<noteq> None" using nm_invD(1) [OF P(1)] f(2) by (auto simp: store_ok_def)
  with t have "timer e = Some d" by auto
  from store_expires [OF f(2) this d P(2)] obtain st1 st2
    where s: "store_expire now i (entries m) = Some st1" "store_reap 0 st1 = Some ((i, e), st2)" .
  have "p = getSport (intTuple e)" using nm_key_iff [OF inv f(2)] f(1) by simp
  then show ?thesis using nm_due.intros [OF s] nm_prompt_expire(4) [OF inv s refl] by blast
qed

section \<open>The specification\<close>

record nat_table =
  host_at :: "u16 \<Rightarrow> (u32 \<times> int) option"
  sent_to :: "connection_tuple \<Rightarrow> int option"

definition empty_table :: nat_table where
  "empty_table = \<lparr>host_at = (\<lambda>p. None), sent_to = (\<lambda>t. None)\<rparr>"

text \<open>Which remote ends count as the same: none are recorded by the full cone type.\<close>

definition same_key :: "nat_type \<Rightarrow> connection_tuple \<Rightarrow> connection_tuple \<Rightarrow> bool" where
  "same_key ty a b =
     (case ty of FULL_CONE_NAT \<Rightarrow> False | ADDR_R_NAT \<Rightarrow> addrr_eq a b | _ \<Rightarrow> a = b)"

definition spec_in :: "nat_handler \<Rightarrow> packet \<Rightarrow> nat_table \<Rightarrow> packet option" where
  "spec_in cfg pkt T =
     (case smap_find (<) (natRules cfg) (dport pkt) of
        Some rule \<Rightarrow> Some (pkt\<lparr>dstIp := getDstIP rule, dport := getDport rule\<rparr>)
      | None \<Rightarrow>
          (if natType cfg = FULL_CONE_NAT \<or> sent_to T (tuple_of pkt) \<noteq> None
           then (case host_at T (dport pkt) of None \<Rightarrow> None | Some (h, d) \<Rightarrow> Some (pkt\<lparr>dstIp := h\<rparr>))
           else None))"

text \<open>A packet out takes its port if nobody has it, and keeps host and remote end alive.\<close>

definition spec_out :: "nat_handler \<Rightarrow> int \<Rightarrow> packet \<Rightarrow> nat_table \<Rightarrow> packet \<times> nat_table" where
  "spec_out cfg now pkt T =
     (let due = now + sint (natTimeout cfg) * 1000000;
          pkt' = pkt\<lparr>srcIp := natIpExt cfg\<rparr>;
          host = (case host_at T (sport pkt) of None \<Rightarrow> srcIp pkt | Some (h, d) \<Rightarrow> h)
      in (pkt', \<lparr>host_at = (if smap_find (<) (natRules cfg) (sport pkt) = None
                           then (host_at T)(sport pkt \<mapsto> (host, due)) else host_at T),
                sent_to = (\<lambda>t. if same_key (natType cfg) t (extTup_of pkt') then Some due
                              else sent_to T t)\<rparr>))"

definition spec_handle :: "nat_handler \<Rightarrow> int \<Rightarrow> packet \<Rightarrow> nat_table \<Rightarrow> packet option \<times> nat_table" where
  "spec_handle cfg now pkt T =
     (if isIngoing pkt then (spec_in cfg pkt T, T)
      else let (pkt', T') = spec_out cfg now pkt T in (Some pkt', T'))"

text \<open>A row is dropped at its time.\<close>

inductive spec_due :: "nat_handler \<Rightarrow> nat_table \<Rightarrow> nat_table \<Rightarrow> bool" for cfg where
  host_due: "host_at T p = Some (h, d) \<Longrightarrow> d \<le> now \<Longrightarrow>
    spec_due cfg T (T\<lparr>host_at := (host_at T)(p := None)\<rparr>)"
| sent_due: "sent_to T k = Some d \<Longrightarrow> d \<le> now \<Longrightarrow>
    spec_due cfg T (T\<lparr>sent_to := (\<lambda>t. if same_key (natType cfg) t k then None else sent_to T t)\<rparr>)"

section \<open>The NAT with prompt deleters\<close>

inductive rf_due ::
  "(connection_tuple \<Rightarrow> connection_tuple \<Rightarrow> bool) \<Rightarrow> restricted_filter \<Rightarrow> restricted_filter \<Rightarrow> bool" for lt where
  rf_due: "store_expire now i (connEntries f) = Some st \<Longrightarrow> store_reap 0 st = Some ((i, e), st') \<Longrightarrow>
    rf_due lt f (restricted_removeFromMaps lt (extTuple e) (f\<lparr>connEntries := st'\<rparr>))"

inductive sn_due :: "sym_nat_mapper \<Rightarrow> sym_nat_mapper \<Rightarrow> bool" where
  sn_due: "store_expire now i (sym_entries m) = Some st \<Longrightarrow> store_reap 0 st = Some ((i, e), st') \<Longrightarrow>
    sn_due m (SymNatMapper_removeFromMaps (intTuple e) (extTuple e) (m\<lparr>sym_entries := st'\<rparr>))"

inductive nat_due :: "nat_handler \<Rightarrow> nat_handler \<Rightarrow> bool" where
  mapper_due: "natMapper n = Some (PlainMapper m) \<Longrightarrow> nm_due m m' \<Longrightarrow>
    nat_due n (n\<lparr>natMapper := Some (PlainMapper m')\<rparr>)"
| sym_due: "natMapper n = Some (SymMapper s) \<Longrightarrow> sn_due s s' \<Longrightarrow>
    nat_due n (n\<lparr>natMapper := Some (SymMapper s')\<rparr>)"
| portr_due: "natFilter n = Some (PortrSymFilter f) \<Longrightarrow> rf_due ct_less f f' \<Longrightarrow>
    nat_due n (n\<lparr>natFilter := Some (PortrSymFilter f')\<rparr>)"
| addrr_due: "natFilter n = Some (AddrrFilter f) \<Longrightarrow> rf_due addrr_less f f' \<Longrightarrow>
    nat_due n (n\<lparr>natFilter := Some (AddrrFilter f')\<rparr>)"

inductive nat_prompt :: "nat_handler \<Rightarrow> nat_handler \<Rightarrow> bool" for n0 where
  start: "nat_prompt n0 n0"
| handled: "nat_prompt n0 n \<Longrightarrow> Nat_handlePacket now pkt n = Inr (res, n') \<Longrightarrow> nat_prompt n0 n'"
| timed: "nat_prompt n0 n \<Longrightarrow> nat_due n n' \<Longrightarrow> nat_prompt n0 n'"

text \<open>The tables that a handler stands for.\<close>

definition sent_of :: "filter_obj \<Rightarrow> connection_tuple \<Rightarrow> int option" where
  "sent_of f =
     (case f of
        PortrSymFilter p \<Rightarrow> deadlines ct_less p
      | AddrrFilter a \<Rightarrow> deadlines addrr_less a
      | FullconeFilter c \<Rightarrow> (\<lambda>t. None))"

definition nat_table_of :: "nat_handler \<Rightarrow> nat_table" where
  "nat_table_of n =
     \<lparr>host_at = (case natMapper n of Some (PlainMapper m) \<Rightarrow> hosts_of m | _ \<Rightarrow> (\<lambda>p. None)),
      sent_to = (case natFilter n of Some f \<Rightarrow> sent_of f | None \<Rightarrow> (\<lambda>t. None))\<rparr>"

definition plain_impl :: "nat_handler \<Rightarrow> nat_mapper \<Rightarrow> bool" where
  "plain_impl cfg m \<longleftrightarrow> nm_prompt_inv m \<and> dnatRules m = natRules cfg \<and> ipExt m = natIpExt cfg
     \<and> connectionTimeout m = natTimeout cfg"

definition rf_impl ::
  "nat_handler \<Rightarrow> (connection_tuple \<Rightarrow> connection_tuple \<Rightarrow> bool) \<Rightarrow> restricted_filter \<Rightarrow> bool" where
  "rf_impl cfg lt f \<longleftrightarrow> rf_prompt_inv lt f \<and> nf_dnatRules f = natRules cfg
     \<and> nf_connectionTimeout f = natTimeout cfg"

definition filter_impl :: "nat_handler \<Rightarrow> filter_obj \<Rightarrow> bool" where
  "filter_impl cfg f =
     (case f of
        PortrSymFilter p \<Rightarrow> natType cfg = PORT_R_NAT \<and> rf_impl cfg ct_less p
      | AddrrFilter a \<Rightarrow> natType cfg = ADDR_R_NAT \<and> rf_impl cfg addrr_less a
      | FullconeFilter c \<Rightarrow> natType cfg = FULL_CONE_NAT)"

definition nat_impl :: "nat_handler \<Rightarrow> nat_handler \<Rightarrow> bool" where
  "nat_impl cfg n \<longleftrightarrow> (\<exists>m f. natMapper n = Some (PlainMapper m) \<and> plain_impl cfg m
     \<and> natFilter n = Some f \<and> filter_impl cfg f)"

lemma nat_impl_init:
  assumes "natType cfg \<noteq> SYM_NAT"
  shows "nat_impl cfg (snd (Nat_init cfg)) \<and> nat_table_of (snd (Nat_init cfg)) = empty_table"
proof -
  have new: "deadlines lt (nf_setDnatRules r (restricted_filter_new to)) = (\<lambda>t. None)" for lt r to
    by (simp add: fun_eq_iff deadlines_def find_entry_def nf_setDnatRules_def restricted_filter_new_def)
  have "plain_impl cfg (setDnatRules (natRules cfg)
      (NatMapper_new (natIpInt cfg) (natIpExt cfg) (natTimeout cfg)))"
    using nm_prompt_new by (simp add: plain_impl_def) (simp add: setDnatRules_def NatMapper_new_def)
  moreover have "rf_impl cfg lt (nf_setDnatRules (natRules cfg) (restricted_filter_new (natTimeout cfg)))" for lt
    by (simp add: rf_impl_def) (simp add: nf_setDnatRules_def restricted_filter_new_def)
  ultimately show ?thesis using assms
    by (cases "natType cfg")
      (auto simp: nat_impl_def Nat_init_def Let_def mapper_setDnatRules_def filter_setDnatRules_def
        filter_impl_def nat_table_of_def empty_table_def hosts_new sent_of_def new)
qed

section \<open>Each call refines the specification\<close>

lemma portr_impl_in:
  assumes "rf_impl cfg ct_less p" and "isIngoing pkt"
  shows "filterPacket now pkt (Some (PortrSymFilter p)) = Inr (deadlines ct_less p (tuple_of pkt) \<noteq> None
    \<or> smap_find (<) (natRules cfg) (dport pkt) \<noteq> None, PortrSymFilter p)"
  using assms portr.prompt_accepts [OF _ assms(2), of _ now]
  by (auto simp: rf_impl_def filterPacket_def PortrSymNatFilter_filterPacket_def)

lemma portr_impl_out:
  assumes f: "rf_impl cfg ct_less p" and out: "\<not> isIngoing pkt"
  obtains p' where "filterPacket now pkt (Some (PortrSymFilter p)) = Inr (True, PortrSymFilter p')"
    and "rf_impl cfg ct_less p'"
    and "deadlines ct_less p' = (\<lambda>t. if t = extTup_of pkt
      then Some (now + sint (natTimeout cfg) * 1000000) else deadlines ct_less p t)"
proof -
  obtain p' where p': "restricted_filterPacket ct_less now pkt p = (True, p')"
    using rf_outgoing_passes [OF out, of ct_less now p] by (metis prod.collapse)
  have I: "rf_prompt_inv ct_less p" and to: "nf_connectionTimeout p = natTimeout cfg"
    using f by (simp_all add: rf_impl_def)
  note P = portr.prompt_outgoing [OF I out p', unfolded to]
  show ?thesis
    by (rule that [of p']) (use P rf_rules [of ct_less now pkt p p'] f in
      \<open>auto simp: filterPacket_def PortrSymNatFilter_filterPacket_def p' rf_impl_def\<close>)
qed

lemma filter_impl_in:
  assumes "filter_impl cfg f" and "isIngoing pkt"
  shows "filterPacket now pkt (Some f) = Inr (natType cfg = FULL_CONE_NAT \<or>
    sent_of f (tuple_of pkt) \<noteq> None \<or> smap_find (<) (natRules cfg) (dport pkt) \<noteq> None, f)"
  using assms portr_impl_in [OF _ assms(2), of cfg _ now] addrr.prompt_accepts [OF _ assms(2), of _ now]
  by (auto simp: filter_impl_def rf_impl_def sent_of_def filterPacket_def AddrrNatFilter_filterPacket_def
      FullconeNatFilter_filterPacket_def split: filter_obj.splits)

lemma filter_impl_out:
  assumes f: "filter_impl cfg f" and out: "\<not> isIngoing pkt"
  shows "\<exists>f'. filterPacket now pkt (Some f) = Inr (True, f') \<and> filter_impl cfg f' \<and> sent_of f' =
    (\<lambda>t. if same_key (natType cfg) t (extTup_of pkt)
         then Some (now + sint (natTimeout cfg) * 1000000) else sent_of f t)"
proof (cases f)
  case (PortrSymFilter p)
  have "rf_impl cfg ct_less p" using f PortrSymFilter by (simp add: filter_impl_def)
  from portr_impl_out [OF this out, of now] obtain p' where
    "filterPacket now pkt (Some (PortrSymFilter p)) = Inr (True, PortrSymFilter p')" "rf_impl cfg ct_less p'"
    "deadlines ct_less p' = (\<lambda>t. if t = extTup_of pkt
      then Some (now + sint (natTimeout cfg) * 1000000) else deadlines ct_less p t)" .
  then show ?thesis using f
    by (auto simp: PortrSymFilter filter_impl_def sent_of_def same_key_def)
next
  case (AddrrFilter p)
  obtain p' where p': "restricted_filterPacket addrr_less now pkt p = (True, p')"
    using rf_outgoing_passes [OF out, of addrr_less now p] by (metis prod.collapse)
  have "rf_prompt_inv addrr_less p" using f AddrrFilter by (simp add: filter_impl_def rf_impl_def)
  from addrr.prompt_outgoing [OF this out p'] rf_rules [of addrr_less now pkt p p'] f show ?thesis
    by (auto simp: AddrrFilter filterPacket_def AddrrNatFilter_filterPacket_def p'
        filter_impl_def rf_impl_def sent_of_def same_key_def equiv_addrr_less)
next
  case (FullconeFilter c)
  then show ?thesis using f
    by (auto simp: filterPacket_def FullconeNatFilter_filterPacket_def filter_impl_def sent_of_def
        same_key_def)
qed

lemma plain_impl_in:
  assumes m: "plain_impl cfg m" and inc: "isIngoing pkt"
    and adm: "natType cfg = FULL_CONE_NAT \<or> sent_to T (tuple_of pkt) \<noteq> None
      \<or> smap_find (<) (natRules cfg) (dport pkt) \<noteq> None"
    and T: "host_at T = hosts_of m"
  shows "\<exists>b q. NatMapper_mapPacket now pkt m = (b, q, m) \<and> (if b then Some q else None) = spec_in cfg pkt T"
proof (cases "smap_find (<) (natRules cfg) (dport pkt)")
  case (Some rule)
  then have "checkDnat m pkt = (True, pkt\<lparr>dstIp := getDstIP rule, dport := getDport rule\<rparr>)"
    using m inc by (simp add: checkDnat_def plain_impl_def)
  then show ?thesis using Some by (intro exI [of _ True]) (simp add: mapPacket_forwarded spec_in_def)
next
  case None
  have I: "nm_prompt_inv m" "nm_inv m" using m nm_prompt_invD(1) by (simp_all add: plain_impl_def)
  have "\<not> fst (checkDnat m pkt)" using m inc None by (simp add: checkDnat_ingoing plain_impl_def)
  note mp = mapPacket_in [OF this inc, of now]
  have fe: "find_entry (<) (extPortMap m) (entries m) p = find_entry (<) (intPortMap m) (entries m) p" for p
    using nm_invD(2) [OF I(2)] by (simp add: find_entry_def)
  show ?thesis
  proof (cases "find_entry (<) (intPortMap m) (entries m) (dport pkt)")
    case n: None
    then show ?thesis using None mp
      by (intro exI [of _ False]) (simp add: fe spec_in_def T hosts_of_def)
  next
    case (Some ie)
    then obtain i e where ie: "find_entry (<) (intPortMap m) (entries m) (dport pkt) = Some (i, e)"
      by (cases ie) simp
    then have "getSport (intTuple e) = dport pkt"
      using nm_invD(4) [OF I(2) _ live_present] by (auto simp: find_entry_Some)
    then show ?thesis using None mp ie adm
      by (intro exI [of _ True]) (simp add: fe spec_in_def T hosts_of_def)
  qed
qed

lemma plain_impl_out:
  assumes m: "plain_impl cfg m" and out: "\<not> isIngoing pkt" and T: "host_at T = hosts_of m"
  shows "\<exists>m'. NatMapper_mapPacket now pkt m = (True, pkt\<lparr>srcIp := natIpExt cfg\<rparr>, m')
    \<and> plain_impl cfg m' \<and> hosts_of m' = host_at (snd (spec_out cfg now pkt T))"
proof (cases "smap_find (<) (natRules cfg) (sport pkt)")
  case (Some rule)
  then have "checkDnat m pkt = (True, pkt\<lparr>srcIp := natIpExt cfg\<rparr>)"
    using m out by (simp add: checkDnat_def plain_impl_def)
  then show ?thesis using Some m by (simp add: mapPacket_forwarded spec_out_def Let_def T)
next
  case None
  have I: "nm_prompt_inv m" "nm_inv m" using m nm_prompt_invD(1) by (simp_all add: plain_impl_def)
  have nf: "\<not> fst (checkDnat m pkt)" using m out None by (simp add: checkDnat_outgoing plain_impl_def)
  show ?thesis
  proof (cases "find_entry (<) (intPortMap m) (entries m) (sport pkt)")
    case f: None
    have "hosts_of m (sport pkt) = None" using f by (simp add: hosts_of_def)
    then show ?thesis
      using mapPacket_out_new [OF nf out f, of now] nm_prompt_fresh [OF I(1) f] m None
      by (simp add: plain_impl_def spec_out_def Let_def T)
        (simp add: NatMapper_makeNewConn_def store_add_def)
  next
    case (Some ie)
    then obtain i e where f: "find_entry (<) (intPortMap m) (entries m) (sport pkt) = Some (i, e)"
      by (cases ie) simp
    then have l: "smap_find (<) (intPortMap m) (sport pkt) = Some i" "present (entries m) i e"
      by (simp_all add: find_entry_Some live_present)
    have "getDport (extTuple e) = sport pkt" "getDstIP (extTuple e) = natIpExt cfg"
      using nm_invD(4) [OF I(2) l] nm_invD(5,6) [OF I(2) l(2)] m by (simp_all add: plain_impl_def)
    then show ?thesis
      using mapPacket_out_known [OF nf out f, of now] nm_prompt_known [OF I(1) f] m None f
      by (simp add: plain_impl_def spec_out_def Let_def T hosts_of_def)
  qed
qed

lemma nat_impl_handle:
  assumes "nat_impl cfg n"
  shows "\<exists>n'. Nat_handlePacket now pkt n = Inr (fst (spec_handle cfg now pkt (nat_table_of n)), n')
    \<and> nat_table_of n' = snd (spec_handle cfg now pkt (nat_table_of n)) \<and> nat_impl cfg n'"
proof -
  obtain m f where m: "natMapper n = Some (PlainMapper m)" "plain_impl cfg m"
    and f: "natFilter n = Some f" "filter_impl cfg f" using assms by (auto simp: nat_impl_def)
  let ?T = "nat_table_of n"
  have T: "host_at ?T = hosts_of m" "sent_to ?T = sent_of f" by (simp_all add: nat_table_of_def m f)
  show ?thesis
  proof (cases "isIngoing pkt")
    case inc: True
    let ?adm = "natType cfg = FULL_CONE_NAT \<or> sent_of f (tuple_of pkt) \<noteq> None
      \<or> smap_find (<) (natRules cfg) (dport pkt) \<noteq> None"
    note fp = filter_impl_in [OF f(2) inc, of now]
    let ?n = "n\<lparr>natFilter := Some f, natMapper := Some (PlainMapper m)\<rparr>"
    have same: "nat_impl cfg ?n" "nat_table_of ?n = ?T"
      "nat_impl cfg (n\<lparr>natFilter := Some f\<rparr>)" "nat_table_of (n\<lparr>natFilter := Some f\<rparr>) = ?T"
      using m f by (simp_all add: nat_impl_def nat_table_of_def)
    show ?thesis
    proof (cases ?adm)
      case adm: True
      from plain_impl_in [OF m(2) inc, of ?T now] adm obtain b q
        where "NatMapper_mapPacket now pkt m = (b, q, m)" "(if b then Some q else None) = spec_in cfg pkt ?T"
        by (auto simp: T)
      then show ?thesis using inc fp adm same
        by (simp add: Nat_handlePacket_def m(1) f(1) mapPacket_def spec_handle_def)
    next
      case False
      then have "spec_in cfg pkt ?T = None" by (simp add: spec_in_def T)
      then show ?thesis using inc fp False same
        by (simp add: Nat_handlePacket_def f(1) spec_handle_def)
    qed
  next
    case out: False
    let ?p = "pkt\<lparr>srcIp := natIpExt cfg\<rparr>"
    from plain_impl_out [OF m(2) out T(1), of now] obtain m'
      where m': "NatMapper_mapPacket now pkt m = (True, ?p, m')" "plain_impl cfg m'"
        "hosts_of m' = host_at (snd (spec_out cfg now pkt ?T))" by blast
    from filter_impl_out [OF f(2), of ?p now] out obtain f'
      where f': "filterPacket now ?p (Some f) = Inr (True, f')" "filter_impl cfg f'"
        "sent_of f' = (\<lambda>t. if same_key (natType cfg) t (extTup_of ?p)
           then Some (now + sint (natTimeout cfg) * 1000000) else sent_of f t)" by auto
    have "nat_impl cfg (n\<lparr>natFilter := Some f', natMapper := Some (PlainMapper m')\<rparr>)"
      using m'(2) f'(2) by (simp add: nat_impl_def)
    moreover have "nat_table_of (n\<lparr>natFilter := Some f', natMapper := Some (PlainMapper m')\<rparr>) =
        snd (spec_out cfg now pkt ?T)"
      using m'(3) f'(3) by (simp add: nat_table_of_def m f spec_out_def Let_def cong: if_cong)
    ultimately show ?thesis using out m'(1) f'(1)
      by (simp add: Nat_handlePacket_def m(1) f(1) mapPacket_def spec_handle_def split_def)
        (simp add: spec_out_def Let_def)
  qed
qed

lemma rf_impl_due:
  assumes "rf_due ct_less f f' \<and> lt = ct_less \<or> rf_due addrr_less f f' \<and> lt = addrr_less"
    and "rf_impl cfg lt f"
  shows "rf_impl cfg lt f' \<and> (\<exists>k d now. deadlines lt f k = Some d \<and> d \<le> now \<and>
    deadlines lt f' = (\<lambda>t. if equiv_key lt t k then None else deadlines lt f t))"
proof -
  have "rf_due lt f f'" and lt: "lt = ct_less \<or> lt = addrr_less" using assms(1) by auto
  then obtain now i st e st' where s: "store_expire now i (connEntries f) = Some st"
    "store_reap 0 st = Some ((i, e), st')"
    and f': "f' = restricted_removeFromMaps lt (extTuple e) (f\<lparr>connEntries := st'\<rparr>)"
    by (auto elim: rf_due.cases)
  have I: "rf_prompt_inv lt f" using assms(2) by (simp add: rf_impl_def)
  have D: "rf_prompt_inv lt f'" "\<exists>d. deadlines lt f (extTuple e) = Some d \<and> d \<le> now"
    "deadlines lt f' = (\<lambda>t. if equiv_key lt t (extTuple e) then None else deadlines lt f t)"
    using lt portr.inv_expire [OF _ s] addrr.inv_expire [OF _ s] portr.deadlines_expire [OF _ s]
      addrr.deadlines_expire [OF _ s] I unfolding f' by blast+
  have "rf_impl cfg lt f'"
    using assms(2) D(1) by (simp add: rf_impl_def f' restricted_removeFromMaps_def)
  then show ?thesis using D(2,3) by blast
qed

lemma nat_impl_due:
  assumes "nat_due n n'" and "nat_impl cfg n"
  shows "nat_impl cfg n' \<and> spec_due cfg (nat_table_of n) (nat_table_of n')"
  using assms
proof (induction rule: nat_due.induct)
  case (mapper_due n m m')
  then obtain f where m: "plain_impl cfg m" and f: "natFilter n = Some f" "filter_impl cfg f"
    by (auto simp: nat_impl_def)
  then have "nm_prompt_inv m" by (simp add: plain_impl_def)
  from nm_prompt_due [OF this mapper_due(2)] obtain p h d now
    where inv: "nm_prompt_inv m'" and h: "hosts_of m p = Some (h, d)" "d \<le> now"
      and m': "hosts_of m' = (hosts_of m)(p := None)" by blast
  have "plain_impl cfg m'" using m inv mapper_due(2)
    by (auto simp: plain_impl_def NatMapper_removeFromMaps_def elim!: nm_due.cases)
  moreover have "nat_table_of (n\<lparr>natMapper := Some (PlainMapper m')\<rparr>) =
      (nat_table_of n)\<lparr>host_at := (host_at (nat_table_of n))(p := None)\<rparr>"
    by (simp add: nat_table_of_def mapper_due(1) m')
  moreover have "host_at (nat_table_of n) p = Some (h, d)"
    by (simp add: nat_table_of_def mapper_due(1) h(1))
  ultimately show ?case using f spec_due.host_due [of "nat_table_of n" p h d now cfg] h(2)
    by (simp add: nat_impl_def)
next
  case (sym_due n s s')
  then show ?case by (simp add: nat_impl_def)
next
  case (portr_due n f f')
  then obtain m where m: "natMapper n = Some (PlainMapper m)" "plain_impl cfg m"
    and f: "rf_impl cfg ct_less f" and ty: "natType cfg = PORT_R_NAT"
    by (auto simp: nat_impl_def filter_impl_def)
  from rf_impl_due [OF disjI1 [OF conjI [OF portr_due(2) refl]] f] obtain k d now
    where f': "rf_impl cfg ct_less f'" "deadlines ct_less f k = Some d" "d \<le> now"
      "deadlines ct_less f' = (\<lambda>t. if equiv_key ct_less t k then None else deadlines ct_less f t)" by blast
  have "nat_table_of (n\<lparr>natFilter := Some (PortrSymFilter f')\<rparr>) = (nat_table_of n)\<lparr>sent_to :=
      (\<lambda>t. if same_key (natType cfg) t k then None else sent_to (nat_table_of n) t)\<rparr>"
    by (simp add: nat_table_of_def portr_due(1) sent_of_def f'(4) same_key_def ty cong: if_cong)
  moreover have "sent_to (nat_table_of n) k = Some d"
    by (simp add: nat_table_of_def portr_due(1) sent_of_def f'(2))
  ultimately show ?case using m f'(1,3) ty spec_due.sent_due [of "nat_table_of n" k d now cfg]
    by (simp add: nat_impl_def filter_impl_def)
next
  case (addrr_due n f f')
  then obtain m where m: "natMapper n = Some (PlainMapper m)" "plain_impl cfg m"
    and f: "rf_impl cfg addrr_less f" and ty: "natType cfg = ADDR_R_NAT"
    by (auto simp: nat_impl_def filter_impl_def)
  from rf_impl_due [OF disjI2 [OF conjI [OF addrr_due(2) refl]] f] obtain k d now
    where f': "rf_impl cfg addrr_less f'" "deadlines addrr_less f k = Some d" "d \<le> now"
      "deadlines addrr_less f' = (\<lambda>t. if equiv_key addrr_less t k then None else deadlines addrr_less f t)" by blast
  have "nat_table_of (n\<lparr>natFilter := Some (AddrrFilter f')\<rparr>) = (nat_table_of n)\<lparr>sent_to :=
      (\<lambda>t. if same_key (natType cfg) t k then None else sent_to (nat_table_of n) t)\<rparr>"
    by (simp add: nat_table_of_def addrr_due(1) sent_of_def f'(4) same_key_def ty equiv_addrr_less
        cong: if_cong)
  moreover have "sent_to (nat_table_of n) k = Some d"
    by (simp add: nat_table_of_def addrr_due(1) sent_of_def f'(2))
  ultimately show ?case using m f'(1,3) ty spec_due.sent_due [of "nat_table_of n" k d now cfg]
    by (simp add: nat_impl_def filter_impl_def)
qed

lemma nat_prompt_impl:
  assumes "nat_prompt (snd (Nat_init cfg)) n" and "natType cfg \<noteq> SYM_NAT"
  shows "nat_impl cfg n"
  using assms
proof (induction rule: nat_prompt.induct)
  case (handled n now pkt res n')
  then show ?case using nat_impl_handle [of cfg n now pkt] by auto
qed (use nat_impl_init nat_impl_due in blast)+

text \<open>Conversely, what is due in the specification can happen in the implementation.\<close>

lemma rf_due_complete:
  assumes lt: "lt = ct_less \<or> lt = addrr_less" and f: "rf_impl cfg lt f"
    and k: "deadlines lt f k = Some d" and d: "d \<le> now"
  shows "\<exists>f'. rf_due lt f f' \<and>
    deadlines lt f' = (\<lambda>t. if equiv_key lt t k then None else deadlines lt f t)"
proof -
  have I: "rf_prompt_inv lt f" using f by (simp add: rf_impl_def)
  from k obtain i e where ie: "smap_find lt (connMap f) k = Some i" "live (connEntries f) i = Some e"
    "timer e = Some d" by (auto simp: deadlines_def find_entry_Some split: option.splits)
  from store_expires [OF ie(2,3) d rf_prompt_invD(2) [OF I]] obtain st1 st2
    where s: "store_expire now i (connEntries f) = Some st1" "store_reap 0 st1 = Some ((i, e), st2)" .
  have D: "deadlines lt (restricted_removeFromMaps lt (extTuple e) (f\<lparr>connEntries := st2\<rparr>)) =
      (\<lambda>t. if equiv_key lt t (extTuple e) then None else deadlines lt f t)"
    using lt portr.deadlines_expire(1) [OF _ s] addrr.deadlines_expire(1) [OF _ s] I by blast
  have "equiv_key lt k (extTuple e)" using rf_prompt_invD(3) [OF I ie(1)] ie(2) by auto
  then have "equiv_key lt t (extTuple e) \<longleftrightarrow> equiv_key lt t k" for t
    using lt by (auto simp: equiv_addrr_less addrr_eq_def)
  then show ?thesis using rf_due.intros [OF s, of lt] D by auto
qed

lemma spec_due_complete:
  assumes "spec_due cfg (nat_table_of n) T" and "nat_impl cfg n"
  shows "\<exists>n'. nat_due n n' \<and> nat_table_of n' = T"
proof -
  obtain m f where m: "natMapper n = Some (PlainMapper m)" "plain_impl cfg m"
    and f: "natFilter n = Some f" "filter_impl cfg f" using assms(2) by (auto simp: nat_impl_def)
  have T: "host_at (nat_table_of n) = hosts_of m" "sent_to (nat_table_of n) = sent_of f"
    by (simp_all add: nat_table_of_def m f)
  from assms(1) show ?thesis
  proof cases
    case (host_due p h d now)
    from nm_due_complete [of m p h d now] host_due(2,3) m(2) obtain m'
      where "nm_due m m'" "hosts_of m' = (hosts_of m)(p := None)" by (auto simp: T plain_impl_def)
    then show ?thesis using nat_due.mapper_due [OF m(1)] host_due(1)
      by (intro exI [of _ "n\<lparr>natMapper := Some (PlainMapper m')\<rparr>"]) (simp add: nat_table_of_def m f)
  next
    case (sent_due k d now)
    show ?thesis
    proof (cases f)
      case (PortrSymFilter p)
      with sent_due(2) f(2) have p: "deadlines ct_less p k = Some d" "rf_impl cfg ct_less p"
        "natType cfg = PORT_R_NAT" by (simp_all add: T sent_of_def filter_impl_def)
      from rf_due_complete [OF disjI1 [OF refl] p(2,1) sent_due(3)] obtain p' where "rf_due ct_less p p'"
        "deadlines ct_less p' = (\<lambda>t. if equiv_key ct_less t k then None else deadlines ct_less p t)" by blast
      then show ?thesis using nat_due.portr_due [of n p p'] f(1) sent_due(1) PortrSymFilter p(3)
        by (intro exI [of _ "n\<lparr>natFilter := Some (PortrSymFilter p')\<rparr>"])
          (simp add: nat_table_of_def sent_of_def same_key_def cong: if_cong)
    next
      case (AddrrFilter p)
      with sent_due(2) f(2) have p: "deadlines addrr_less p k = Some d" "rf_impl cfg addrr_less p"
        "natType cfg = ADDR_R_NAT" by (simp_all add: T sent_of_def filter_impl_def)
      from rf_due_complete [OF disjI2 [OF refl] p(2,1) sent_due(3)] obtain p' where "rf_due addrr_less p p'"
        "deadlines addrr_less p' = (\<lambda>t. if equiv_key addrr_less t k then None else deadlines addrr_less p t)"
        by blast
      then show ?thesis using nat_due.addrr_due [of n p p'] f(1) sent_due(1) AddrrFilter p(3)
        by (intro exI [of _ "n\<lparr>natFilter := Some (AddrrFilter p')\<rparr>"])
          (simp add: nat_table_of_def sent_of_def same_key_def equiv_addrr_less cong: if_cong)
    next
      case (FullconeFilter c)
      then show ?thesis using sent_due(2) by (simp add: T sent_of_def)
    qed
  qed
qed

text \<open>
  C2. The port-preserving NAT types are bisimilar to the specification, with prompt deleters:
  from the empty table on, \<open>handlePacket\<close> never faults, sends on what \<open>spec_handle\<close> says and
  leaves the tables as it says; a timer with its deleter drops a row that is due, and for
  every row that is due there is a timer that drops it.
\<close>

theorem nat_refines_spec:
  assumes ty: "natType cfg \<noteq> SYM_NAT" and n: "nat_prompt (snd (Nat_init cfg)) n"
  shows "nat_table_of (snd (Nat_init cfg)) = empty_table
    \<and> (\<exists>n'. Nat_handlePacket now pkt n = Inr (fst (spec_handle cfg now pkt (nat_table_of n)), n')
         \<and> nat_table_of n' = snd (spec_handle cfg now pkt (nat_table_of n)))
    \<and> (\<forall>T. (\<exists>n'. nat_due n n' \<and> nat_table_of n' = T) \<longleftrightarrow> spec_due cfg (nat_table_of n) T)"
proof -
  have n: "nat_impl cfg n" using nat_prompt_impl [OF n ty] .
  show ?thesis
    using nat_impl_init [OF ty] nat_impl_handle [OF n, of now pkt] nat_impl_due [OF _ n]
      spec_due_complete [OF _ n] by blast
qed

lemma nat_refines_spec_witness:
  "\<exists>n' n''. Nat_handlePacket 0 (example_packet False 10 9 1000 80) (snd (Nat_init (example_nat ADDR_R_NAT))) =
      Inr (Some (example_packet False 2 9 1000 80), n')
     \<and> host_at (nat_table_of n') 1000 = Some (10, 600000000)
     \<and> Nat_handlePacket 5 (example_packet True 9 2 81 1000) n' = Inr (Some (example_packet True 9 10 81 1000), n'')"
proof -
  let ?c = "example_nat ADDR_R_NAT" and ?p = "example_packet False 10 9 1000 80"
  have ty: "natType ?c \<noteq> SYM_NAT" by (simp add: example_nat_def)
  note R0 = nat_refines_spec [OF ty nat_prompt.start, of 0 ?p]
  then obtain n' where n': "Nat_handlePacket 0 ?p (snd (Nat_init ?c)) = Inr (fst (spec_handle ?c 0 ?p empty_table), n')"
    "nat_table_of n' = snd (spec_handle ?c 0 ?p empty_table)" by auto
  have run: "nat_prompt (snd (Nat_init ?c)) n'" by (rule nat_prompt.handled [OF nat_prompt.start n'(1)])
  from nat_refines_spec [OF ty run, of 5 "example_packet True 9 2 81 1000"] obtain n''
    where "Nat_handlePacket 5 (example_packet True 9 2 81 1000) n' =
      Inr (fst (spec_handle ?c 5 (example_packet True 9 2 81 1000) (nat_table_of n')), n'')" by blast
  then show ?thesis using n'
    by (simp add: spec_handle_def spec_out_def spec_in_def empty_table_def example_packet_def example_nat_def
        same_key_def extTup_of_def tuple_of_def addrr_eq_def tie_addrr_def Let_def)
qed

end
