(* ===== verification/Nat_Table_Sym.thy ===== *)
theory Nat_Table_Sym
  imports Nat_Table
begin

text \<open>
  The specification of the symmetric NAT type and the proof that \<open>Nat\<close> implements it, in the
  manner of Nat\_Table. A session is a connection tuple of an inside host; it has an external
  port of its own. The table has the session at every port and the remote ends that have been
  sent to, each with the time at which the row is dropped. A packet out of a new session takes
  the first port, from its own on, that has no session; if every port has one, the call does
  not return.
\<close>

section \<open>The symmetric mapper with prompt deleters\<close>

definition sn_prompt_inv :: "sym_nat_mapper \<Rightarrow> bool" where
  "sn_prompt_inv m \<longleftrightarrow> sn_inv m \<and> dying (sym_entries m) = []
     \<and> (\<forall>t i. smap_find ct_less (sym_intPortMap m) t = Some i \<longrightarrow> live (sym_entries m) i \<noteq> None)
     \<and> (\<forall>i e. live (sym_entries m) i = Some e \<longrightarrow>
          smap_find ct_less (sym_intPortMap m) (intTuple e) = Some i
          \<and> timeout e = sint (connectionTimeout m))"

lemma sn_prompt_invD:
  assumes "sn_prompt_inv m"
  shows "sn_inv m" and "dying (sym_entries m) = []"
    and "smap_find ct_less (sym_intPortMap m) t = Some i \<Longrightarrow> \<exists>e. live (sym_entries m) i = Some e \<and> intTuple e = t"
    and "live (sym_entries m) i = Some e \<Longrightarrow> smap_find ct_less (sym_intPortMap m) (intTuple e) = Some i"
    and "live (sym_entries m) i = Some e \<Longrightarrow> timeout e = sint (connectionTimeout m)"
    and "smap_find (<) (sym_extPortMap m) q = Some i \<longleftrightarrow>
      (\<exists>e. live (sym_entries m) i = Some e \<and> getDport (extTuple e) = q)"
    and "live (sym_entries m) i = Some e \<Longrightarrow> timer e \<noteq> None"
    and "live (sym_entries m) i = Some e \<Longrightarrow> i \<noteq> next_entry (sym_entries m)"
proof -
  have I: "sn_inv m" and d: "dying (sym_entries m) = []" using assms by (simp_all add: sn_prompt_inv_def)
  then have pr: "present (sym_entries m) i e \<longleftrightarrow> live (sym_entries m) i = Some e" for i e
    by (simp add: present_def)
  show "sn_inv m" "dying (sym_entries m) = []" by (rule I, rule d)
  show "\<exists>e. live (sym_entries m) i = Some e \<and> intTuple e = t"
    if k: "smap_find ct_less (sym_intPortMap m) t = Some i"
  proof -
    obtain e where "live (sym_entries m) i = Some e"
      using k assms unfolding sn_prompt_inv_def by blast
    then show ?thesis using sn_invD(4) [OF I k, of e] by (simp add: pr)
  qed
  show "smap_find ct_less (sym_intPortMap m) (intTuple e) = Some i" "timeout e = sint (connectionTimeout m)"
    if "live (sym_entries m) i = Some e" using that assms by (simp_all add: sn_prompt_inv_def)
  show "smap_find (<) (sym_extPortMap m) q = Some i \<longleftrightarrow>
      (\<exists>e. live (sym_entries m) i = Some e \<and> getDport (extTuple e) = q)"
    using sn_invD(2) [OF I] by (simp add: pr)
  show "timer e \<noteq> None" "i \<noteq> next_entry (sym_entries m)" if "live (sym_entries m) i = Some e"
    using that sn_invD(1) [OF I] by (auto simp: store_ok_def)
qed

text \<open>The abstraction: the session at a port and the end of its connection.\<close>

definition sessions_of :: "sym_nat_mapper \<Rightarrow> u16 \<Rightarrow> (connection_tuple \<times> int) option" where
  "sessions_of m p =
     (case find_entry (<) (sym_extPortMap m) (sym_entries m) p of
        None \<Rightarrow> None
      | Some (i, e) \<Rightarrow> Some (intTuple e, the (timer e)))"

lemma sn_prompt_new: "sn_prompt_inv (setDnatRules r (SymNatMapper_new a b c))"
  by (simp add: sn_prompt_inv_def) (simp add: setDnatRules_def SymNatMapper_new_def empty_store_def)

lemma sessions_new: "sessions_of (setDnatRules r (SymNatMapper_new a b c)) = (\<lambda>p. None)"
  by (simp add: fun_eq_iff sessions_of_def find_entry_def setDnatRules_def SymNatMapper_new_def)

lemma sessions_None:
  assumes "sn_prompt_inv m"
  shows "sessions_of m p = None \<longleftrightarrow> smap_find (<) (sym_extPortMap m) p = None"
proof (cases "smap_find (<) (sym_extPortMap m) p")
  case (Some i)
  then obtain e where "live (sym_entries m) i = Some e" using sn_prompt_invD(6) [OF assms, of p i] by auto
  then show ?thesis using Some by (simp add: sessions_of_def find_entry_def lock_def)
qed (simp add: sessions_of_def find_entry_def)

lemma sessions_iff:
  assumes "sn_prompt_inv m"
  shows "sessions_of m p = Some (t, d) \<longleftrightarrow>
    (\<exists>i e. live (sym_entries m) i = Some e \<and> getDport (extTuple e) = p \<and> intTuple e = t \<and> timer e = Some d)"
  (is "?L \<longleftrightarrow> ?R")
proof
  assume ?L
  then obtain i e where "smap_find (<) (sym_extPortMap m) p = Some i" and l: "live (sym_entries m) i = Some e"
    and td: "intTuple e = t" "the (timer e) = d"
    by (auto simp: sessions_of_def find_entry_Some split: option.splits)
  then have "getDport (extTuple e) = p" using sn_prompt_invD(6) [OF assms, of p i] by auto
  moreover have "timer e = Some d" using sn_prompt_invD(7) [OF assms l] td(2) by auto
  ultimately show ?R using l td(1) by blast
next
  assume ?R
  then obtain i e where l: "live (sym_entries m) i = Some e" and e: "getDport (extTuple e) = p"
    "intTuple e = t" "timer e = Some d" by blast
  then have "smap_find (<) (sym_extPortMap m) p = Some i" using sn_prompt_invD(6) [OF assms, of p i] by blast
  then show ?L using l e by (simp add: sessions_of_def find_entry_def lock_def)
qed

lemma rows_eqI:
  assumes "\<And>p t d. f p = Some (t, d) \<longleftrightarrow> g p = Some (t, d)"
  shows "f = g"
proof
  show "f p = g p" for p
    using assms [of p] by (cases "f p"; cases "g p") auto
qed

text \<open>The live entries and the sessions determine each other.\<close>

lemma entry_of_session:
  assumes inv: "sn_prompt_inv m" and l: "live (sym_entries m) i = Some e" "live (sym_entries m) j = Some f"
    and eq: "intTuple e = intTuple f \<or> getDport (extTuple e) = getDport (extTuple f)"
  shows "j = i \<and> f = e"
  using eq
proof
  assume "intTuple e = intTuple f"
  then have "j = i" using sn_prompt_invD(4) [OF inv l(1)] sn_prompt_invD(4) [OF inv l(2)] by simp
  then show ?thesis using l by simp
next
  assume "getDport (extTuple e) = getDport (extTuple f)"
  then have "j = i" using sn_inv_ports [OF sn_prompt_invD(1) [OF inv] live_present [OF l(2)] live_present [OF l(1)]]
    by simp
  then show ?thesis using l by simp
qed

lemma session_known:
  assumes inv: "sn_prompt_inv m"
    and f: "find_entry ct_less (sym_intPortMap m) (sym_entries m) t = Some (i, e)"
  shows "live (sym_entries m) i = Some e" and "intTuple e = t"
    and "(\<exists>d. sessions_of m p = Some (t, d)) \<longleftrightarrow> p = getDport (extTuple e)"
proof -
  from f have m: "smap_find ct_less (sym_intPortMap m) t = Some i" and l: "live (sym_entries m) i = Some e"
    by (simp_all add: find_entry_Some)
  show "live (sym_entries m) i = Some e" by (rule l)
  show t: "intTuple e = t" using sn_prompt_invD(3) [OF inv m] l by auto
  obtain d where "timer e = Some d" using sn_prompt_invD(7) [OF inv l] by auto
  then show "(\<exists>d. sessions_of m p = Some (t, d)) \<longleftrightarrow> p = getDport (extTuple e)"
    unfolding sessions_iff [OF inv] using entry_of_session [OF inv l] l t by blast
qed

lemma session_absent:
  assumes inv: "sn_prompt_inv m"
    and f: "find_entry ct_less (sym_intPortMap m) (sym_entries m) t = None"
  shows "smap_find ct_less (sym_intPortMap m) t = None" and "sessions_of m p \<noteq> Some (t, d)"
proof -
  show n: "smap_find ct_less (sym_intPortMap m) t = None"
    using f sn_prompt_invD(3) [OF inv, of t] by (fastforce simp: find_entry_def lock_def split: option.splits)
  show "sessions_of m p \<noteq> Some (t, d)"
    unfolding sessions_iff [OF inv] using sn_prompt_invD(4) [OF inv] n by fastforce
qed

section \<open>What the operations do to the sessions\<close>

text \<open>An entry that is made or changed, and one that goes.\<close>

lemma ex_put:
  "(\<exists>j f. (if j = i then Some e else L j) = Some f \<and> Q f) \<longleftrightarrow> Q e \<or> (\<exists>j f. j \<noteq> i \<and> L j = Some f \<and> Q f)"
  (is "?A \<longleftrightarrow> ?B")
proof
  show "?A \<Longrightarrow> ?B" by (auto split: if_splits)
  assume ?B
  then show ?A
  proof
    assume "Q e" then show ?A by (intro exI [of _ i] exI [of _ e]) simp
  next
    assume "\<exists>j f. j \<noteq> i \<and> L j = Some f \<and> Q f"
    then obtain j f where "j \<noteq> i" "L j = Some f" "Q f" by blast
    then show ?A by (intro exI [of _ j] exI [of _ f]) simp
  qed
qed

lemma sessions_put:
  assumes inv: "sn_prompt_inv m" "sn_prompt_inv m'"
    and l: "\<And>j. live (sym_entries m') j = (if j = i then Some e else live (sym_entries m) j)"
    and d: "timer e = Some d"
    and P: "\<And>j f. live (sym_entries m) j = Some f \<Longrightarrow> getDport (extTuple f) = getDport (extTuple e) \<longleftrightarrow> j = i"
  shows "sessions_of m' = (sessions_of m)(getDport (extTuple e) \<mapsto> (intTuple e, d))"
proof (rule rows_eqI)
  fix p u x
  let ?Q = "\<lambda>f. getDport (extTuple f) = p \<and> intTuple f = u \<and> timer f = Some x"
  have "sessions_of m' p = Some (u, x) \<longleftrightarrow> ?Q e \<or> (\<exists>j f. j \<noteq> i \<and> live (sym_entries m) j = Some f \<and> ?Q f)"
    unfolding sessions_iff [OF inv(2)] l by (rule ex_put)
  also have "\<dots> \<longleftrightarrow> ?Q e \<or> p \<noteq> getDport (extTuple e) \<and> (\<exists>j f. live (sym_entries m) j = Some f \<and> ?Q f)"
    using P by metis
  also have "\<dots> \<longleftrightarrow> ((sessions_of m)(getDport (extTuple e) \<mapsto> (intTuple e, d))) p = Some (u, x)"
    unfolding sessions_iff [OF inv(1), symmetric] using d by auto
  finally show "sessions_of m' p = Some (u, x) \<longleftrightarrow> \<dots>" .
qed

lemma sessions_drop:
  assumes inv: "sn_prompt_inv m" "sn_prompt_inv m'"
    and l: "\<And>j. live (sym_entries m') j = (if j = i then None else live (sym_entries m) j)"
    and P: "\<And>j f. live (sym_entries m) j = Some f \<Longrightarrow> getDport (extTuple f) = P \<longleftrightarrow> j = i"
  shows "sessions_of m' = (sessions_of m)(P := None)"
proof (rule rows_eqI)
  fix p u x
  have "sessions_of m' p = Some (u, x) \<longleftrightarrow> p \<noteq> P \<and> (\<exists>j f. live (sym_entries m) j = Some f
      \<and> getDport (extTuple f) = p \<and> intTuple f = u \<and> timer f = Some x)"
    unfolding sessions_iff [OF inv(2)] l using P by (metis option.distinct(1))
  then show "sessions_of m' p = Some (u, x) \<longleftrightarrow> ((sessions_of m)(P := None)) p = Some (u, x)"
    unfolding sessions_iff [OF inv(1), symmetric] by simp
qed

lemma sn_prompt_known:
  assumes inv: "sn_prompt_inv m"
    and f: "find_entry ct_less (sym_intPortMap m) (sym_entries m) t = Some (i, e)"
  shows "sn_prompt_inv (m\<lparr>sym_entries := store_rearm now i (sym_entries m)\<rparr>)" (is "sn_prompt_inv ?m")
    and "sessions_of (m\<lparr>sym_entries := store_rearm now i (sym_entries m)\<rparr>) =
      (sessions_of m)(getDport (extTuple e) \<mapsto> (t, now + sint (connectionTimeout m) * 1000000))"
proof -
  note P = sn_prompt_invD [OF inv] and K = session_known [OF inv f]
  have l: "live (sym_entries ?m) j = (if j = i then Some (rearm now e) else live (sym_entries m) j)" for j
    using K(1) by (simp add: live_rearm)
  have "\<exists>f. live (sym_entries m) j = Some f \<Longrightarrow> live (sym_entries ?m) j \<noteq> None" for j
    unfolding l by auto
  moreover have "smap_find ct_less (sym_intPortMap m) (intTuple f) = Some j \<and> timeout f = sint (connectionTimeout m)"
    if "live (sym_entries ?m) j = Some f" for j f
    using that P(4,5) [OF K(1)] P(4,5) [of j f] unfolding l by (auto split: if_splits)
  ultimately show inv': "sn_prompt_inv ?m"
    unfolding sn_prompt_inv_def using sn_inv_rearm [OF P(1)] P(2) P(3) by simp blast
  have "getDport (extTuple f) = getDport (extTuple (rearm now e)) \<longleftrightarrow> j = i"
    if "live (sym_entries m) j = Some f" for j f
    using entry_of_session [OF inv K(1) that] that K(1) by auto
  from sessions_put [OF inv inv' l _ this, where d = "now + sint (connectionTimeout m) * 1000000"]
  show "sessions_of ?m = (sessions_of m)(getDport (extTuple e) \<mapsto> (t, now + sint (connectionTimeout m) * 1000000))"
    using K(2) P(5) [OF K(1)] by simp
qed

lemma sn_prompt_fresh:
  assumes inv: "sn_prompt_inv m"
    and f: "find_entry ct_less (sym_intPortMap m) (sym_entries m) t = None"
    and p: "smap_find (<) (sym_extPortMap m) port = None"
  shows "sn_prompt_inv (SymNatMapper_makeNewConn now (ConnectionTuple d (ipExt m) dp port pr) t m)"
      (is "sn_prompt_inv ?m")
    and "sessions_of (SymNatMapper_makeNewConn now (ConnectionTuple d (ipExt m) dp port pr) t m) =
      (sessions_of m)(port \<mapsto> (t, now + sint (connectionTimeout m) * 1000000))"
proof -
  note P = sn_prompt_invD [OF inv] and none = session_absent(1) [OF inv f]
  define e where "e = start now (ConnectionEntry_new (connectionTimeout m)
    (ConnectionTuple d (ipExt m) dp port pr) t)"
  have e: "intTuple e = t" "getDport (extTuple e) = port" "timeout e = sint (connectionTimeout m)"
    "timer e = Some (now + sint (connectionTimeout m) * 1000000)" by (simp_all add: e_def)
  let ?n = "next_entry (sym_entries m)"
  have m: "sym_intPortMap ?m = smap_insert ct_less t ?n (sym_intPortMap m)"
    "dying (sym_entries ?m) = []" "connectionTimeout ?m = connectionTimeout m"
    by (simp_all add: SymNatMapper_makeNewConn_def store_add_def P(2))
  have l: "live (sym_entries ?m) j = (if j = ?n then Some e else live (sym_entries m) j)" for j
    by (simp add: SymNatMapper_makeNewConn_def e_def store_add_def)
  have "live (sym_entries ?m) j \<noteq> None" if "smap_find ct_less (sym_intPortMap ?m) u = Some j" for u j
    using that P(3) [of u j] unfolding m(1) l by (auto split: if_splits)
  moreover have "smap_find ct_less (sym_intPortMap ?m) (intTuple f) = Some j
      \<and> timeout f = sint (connectionTimeout m)" if "live (sym_entries ?m) j = Some f" for j f
    using that P(4,5) [of j f] none e unfolding l m(1) by (auto split: if_splits)
  ultimately show inv': "sn_prompt_inv ?m"
    unfolding sn_prompt_inv_def m(2,3) using sn_inv_makeNewConn [OF P(1) p] by blast
  have "getDport (extTuple f) = getDport (extTuple e) \<longleftrightarrow> j = ?n" if "live (sym_entries m) j = Some f" for j f
    using P(6) [of port j] P(8) [OF that] that p e(2) by auto
  from sessions_put [OF inv inv' l e(4) this] show "sessions_of ?m =
      (sessions_of m)(port \<mapsto> (t, now + sint (connectionTimeout m) * 1000000))" by (simp add: e)
qed

lemma sn_prompt_expire:
  assumes inv: "sn_prompt_inv m" and ex: "store_expire now i (sym_entries m) = Some st"
    and re: "store_reap 0 st = Some ((i, e), st')"
    and m': "m' = SymNatMapper_removeFromMaps (intTuple e) (extTuple e) (m\<lparr>sym_entries := st'\<rparr>)"
  shows "sn_prompt_inv m'"
    and "\<exists>d. sessions_of m (getDport (extTuple e)) = Some (intTuple e, d) \<and> d \<le> now"
    and "sessions_of m' = (sessions_of m)(getDport (extTuple e) := None)"
proof -
  note P = sn_prompt_invD [OF inv]
  from store_expireD [OF ex] re P(2) obtain d
    where l: "live (sym_entries m) i = Some e" and d: "timer e = Some d" "d \<le> now"
      and st': "st' = (sym_entries m)\<lparr>live := (live (sym_entries m))(i := None)\<rparr>"
    by (auto simp: store_reap_def)
  have I: "sn_inv m'"
    using sn_inv_delete [OF sn_inv_expire [OF P(1) ex], of 0 i e st'] m' re by simp
  have eqs: "sym_intPortMap m' = smap_erase ct_less (intTuple e) (sym_intPortMap m)" "sym_entries m' = st'"
    "connectionTimeout m' = connectionTimeout m"
    by (simp_all add: m' SymNatMapper_removeFromMaps_def)
  have l': "live (sym_entries m') j = (if j = i then None else live (sym_entries m) j)" for j
    by (simp add: eqs st')
  have "live st' j \<noteq> None" if "smap_find ct_less (sym_intPortMap m') u = Some j" for u j
    using that P(3) [of u j] l by (fastforce simp: eqs st' split: if_splits)
  moreover have "smap_find ct_less (sym_intPortMap m') (intTuple f) = Some j
      \<and> timeout f = sint (connectionTimeout m)" if "live st' j = Some f" for j f
    using that P(4,5) [of j f] entry_of_session [OF inv l, of j f] by (auto simp: eqs st' split: if_splits)
  ultimately show inv': "sn_prompt_inv m'"
    unfolding sn_prompt_inv_def eqs(2,3) using I P(2) by (simp add: st')
  have "getDport (extTuple f) = getDport (extTuple e) \<longleftrightarrow> j = i" if "live (sym_entries m) j = Some f" for j f
    using entry_of_session [OF inv l that] that l by auto
  from sessions_drop [OF inv inv' l' this]
  show "sessions_of m' = (sessions_of m)(getDport (extTuple e) := None)" .
  show "\<exists>d. sessions_of m (getDport (extTuple e)) = Some (intTuple e, d) \<and> d \<le> now"
    unfolding sessions_iff [OF inv] using l d by blast
qed

lemma sn_due_complete:
  assumes inv: "sn_prompt_inv m" and h: "sessions_of m p = Some (t, d)" and d: "d \<le> now"
  shows "\<exists>m'. sn_due m m' \<and> sessions_of m' = (sessions_of m)(p := None)"
proof -
  from h obtain i e where e: "live (sym_entries m) i = Some e" "getDport (extTuple e) = p" "timer e = Some d"
    unfolding sessions_iff [OF inv] by blast
  from store_expires [OF e(1,3) d sn_prompt_invD(2) [OF inv]] obtain st1 st2
    where s: "store_expire now i (sym_entries m) = Some st1" "store_reap 0 st1 = Some ((i, e), st2)" .
  show ?thesis using sn_due.intros [OF s] sn_prompt_expire(3) [OF inv s refl] e(2) by blast
qed

section \<open>The specification\<close>

record sym_table =
  session_at :: "u16 \<Rightarrow> (connection_tuple \<times> int) option"
  answers_from :: "connection_tuple \<Rightarrow> int option"

definition empty_sym_table :: sym_table where
  "empty_sym_table = \<lparr>session_at = (\<lambda>p. None), answers_from = (\<lambda>t. None)\<rparr>"

text \<open>All ports in cyclic order from one on; the port of a session, or else the first free one.\<close>

definition ports_from :: "u16 \<Rightarrow> u16 list" where
  "ports_from s = map (\<lambda>i. s + of_nat i) [0..<2 ^ 16]"

definition session_port :: "sym_table \<Rightarrow> connection_tuple \<Rightarrow> u16 option" where
  "session_port T t =
     (case List.find (\<lambda>p. map_option fst (session_at T p) = Some t) (ports_from (getSport t)) of
        Some p \<Rightarrow> Some p
      | None \<Rightarrow> List.find (\<lambda>p. session_at T p = None) (ports_from (getSport t)))"

definition sym_in :: "nat_handler \<Rightarrow> packet \<Rightarrow> sym_table \<Rightarrow> packet option" where
  "sym_in cfg pkt T =
     (case smap_find (<) (natRules cfg) (dport pkt) of
        Some rule \<Rightarrow> Some (pkt\<lparr>dstIp := getDstIP rule, dport := getDport rule\<rparr>)
      | None \<Rightarrow>
          (if answers_from T (tuple_of pkt) \<noteq> None
           then (case session_at T (dport pkt) of
                   None \<Rightarrow> None
                 | Some (t, d) \<Rightarrow> Some (pkt\<lparr>dstIp := getSrcIP t, dport := getSport t\<rparr>))
           else None))"

definition sent_out ::
  "nat_handler \<Rightarrow> int \<Rightarrow> packet \<Rightarrow> u16 \<Rightarrow> (u16 \<Rightarrow> (connection_tuple \<times> int) option) \<Rightarrow> sym_table
     \<Rightarrow> packet option \<times> sym_table" where
  "sent_out cfg now pkt port sessions T =
     (let pkt' = pkt\<lparr>srcIp := natIpExt cfg, sport := port\<rparr>
      in (Some pkt', \<lparr>session_at = sessions,
           answers_from = (\<lambda>t. if t = extTup_of pkt' then Some (now + sint (natTimeout cfg) * 1000000)
                               else answers_from T t)\<rparr>))"

definition sym_handle ::
  "nat_handler \<Rightarrow> int \<Rightarrow> packet \<Rightarrow> sym_table \<Rightarrow> fault + packet option \<times> sym_table" where
  "sym_handle cfg now pkt T =
     (if isIngoing pkt then Inr (sym_in cfg pkt T, T)
      else if smap_find (<) (natRules cfg) (sport pkt) \<noteq> None
      then Inr (sent_out cfg now pkt (sport pkt) (session_at T) T)
      else (case session_port T (tuple_of pkt) of
              None \<Rightarrow> Inl Hang
            | Some p \<Rightarrow> Inr (sent_out cfg now pkt p
                ((session_at T)(p \<mapsto> (tuple_of pkt, now + sint (natTimeout cfg) * 1000000))) T)))"

inductive sym_spec_due :: "sym_table \<Rightarrow> sym_table \<Rightarrow> bool" where
  session_due: "session_at T p = Some (t, d) \<Longrightarrow> d \<le> now \<Longrightarrow>
    sym_spec_due T (T\<lparr>session_at := (session_at T)(p := None)\<rparr>)"
| answer_due: "answers_from T k = Some d \<Longrightarrow> d \<le> now \<Longrightarrow>
    sym_spec_due T (T\<lparr>answers_from := (answers_from T)(k := None)\<rparr>)"

text \<open>The tables that a handler stands for.\<close>

definition sym_table_of :: "nat_handler \<Rightarrow> sym_table" where
  "sym_table_of n =
     \<lparr>session_at = (case natMapper n of Some (SymMapper m) \<Rightarrow> sessions_of m | _ \<Rightarrow> (\<lambda>p. None)),
      answers_from = (case natFilter n of Some (PortrSymFilter f) \<Rightarrow> deadlines ct_less f | _ \<Rightarrow> (\<lambda>t. None))\<rparr>"

definition mapper_impl :: "nat_handler \<Rightarrow> sym_nat_mapper \<Rightarrow> bool" where
  "mapper_impl cfg m \<longleftrightarrow> sn_prompt_inv m \<and> dnatRules m = natRules cfg \<and> ipExt m = natIpExt cfg
     \<and> connectionTimeout m = natTimeout cfg"

definition sym_impl :: "nat_handler \<Rightarrow> nat_handler \<Rightarrow> bool" where
  "sym_impl cfg n \<longleftrightarrow> (\<exists>m f. natMapper n = Some (SymMapper m) \<and> mapper_impl cfg m
     \<and> natFilter n = Some (PortrSymFilter f) \<and> rf_impl cfg ct_less f)"

lemma sym_impl_init:
  assumes "natType cfg = SYM_NAT"
  shows "sym_impl cfg (snd (Nat_init cfg))" and "sym_table_of (snd (Nat_init cfg)) = empty_sym_table"
proof -
  have "mapper_impl cfg (setDnatRules (natRules cfg)
      (SymNatMapper_new (natIpInt cfg) (natIpExt cfg) (natTimeout cfg)))"
    using sn_prompt_new by (simp add: mapper_impl_def) (simp add: setDnatRules_def SymNatMapper_new_def)
  moreover have "rf_impl cfg ct_less (nf_setDnatRules (natRules cfg) (restricted_filter_new (natTimeout cfg)))"
    by (simp add: rf_impl_def) (simp add: nf_setDnatRules_def restricted_filter_new_def)
  moreover have "deadlines ct_less (nf_setDnatRules (natRules cfg) (restricted_filter_new (natTimeout cfg))) = (\<lambda>t. None)"
    by (simp add: fun_eq_iff deadlines_def find_entry_def nf_setDnatRules_def restricted_filter_new_def)
  ultimately show "sym_impl cfg (snd (Nat_init cfg))" "sym_table_of (snd (Nat_init cfg)) = empty_sym_table"
    using assms by (simp_all add: sym_impl_def Nat_init_def Let_def mapper_setDnatRules_def
        filter_setDnatRules_def sym_table_of_def empty_sym_table_def sessions_new)
qed

section \<open>The port of a packet\<close>

lemma port_bound: "unat (p :: u16) < 2 ^ 16"
  by (rule less_le_trans [OF unsigned_less]) simp

lemma ports_from_all: "p \<in> set (ports_from s)"
proof -
  have "p = s + of_nat (unat (p - s))" by simp
  moreover have "unat (p - s) \<in> {0..<2 ^ 16}" using port_bound [of "p - s"] by simp
  ultimately show ?thesis unfolding ports_from_def set_map set_upt by (rule image_eqI)
qed

lemma find_unique:
  assumes "\<And>q. P q \<longleftrightarrow> q = p" and "p \<in> set xs"
  shows "List.find P xs = Some p"
  using assms by (induction xs) auto

lemma find_ports:
  "List.find P (ports_from s) = Some q \<longleftrightarrow> P q \<and> (\<forall>i < unat (q - s). \<not> P (s + of_nat i))"
proof -
  have n: "ports_from s ! i = s + of_nat i" if "i < 2 ^ 16" for i
    using that unfolding ports_from_def by (simp add: nth_append)
  have len: "length (ports_from s) = 2 ^ 16" by (simp add: ports_from_def)
  have u: "unat (of_nat i :: u16) = i" if "i < 2 ^ 16" for i
    using that by (simp add: unat_of_nat take_bit_nat_eq_self)
  show ?thesis
    unfolding find_Some_iff len
  proof
    assume "\<exists>i<2 ^ 16. P (ports_from s ! i) \<and> q = ports_from s ! i \<and> (\<forall>j<i. \<not> P (ports_from s ! j))"
    then obtain i where i: "i < 2 ^ 16" "P (ports_from s ! i)" "q = ports_from s ! i"
      "\<forall>j<i. \<not> P (ports_from s ! j)" by blast
    have "unat (q - s) = i" using i(1,3) by (simp add: n u)
    then show "P q \<and> (\<forall>i < unat (q - s). \<not> P (s + of_nat i))" using i n by auto
  next
    assume q: "P q \<and> (\<forall>i < unat (q - s). \<not> P (s + of_nat i))"
    have l: "unat (q - s) < 2 ^ 16" by (rule port_bound)
    show "\<exists>i<2 ^ 16. P (ports_from s ! i) \<and> q = ports_from s ! i \<and> (\<forall>j<i. \<not> P (ports_from s ! j))"
      using q l by (intro exI [of _ "unat (q - s)"]) (simp add: n)
  qed
qed

text \<open>\<open>mapPort\<close> is the search of the specification.\<close>

lemma mapPort_find:
  "mapPort m t = List.find (\<lambda>p. smap_find (<) (sym_extPortMap m) p = None) (ports_from (getSport t))"
proof -
  have "mapPort m t = Some q \<longleftrightarrow>
      List.find (\<lambda>p. smap_find (<) (sym_extPortMap m) p = None) (ports_from (getSport t)) = Some q" for q
    unfolding find_ports mapPort_some by simp
  then show ?thesis by (metis option.exhaust)
qed

lemma port_known:
  assumes inv: "sn_prompt_inv m" and T: "session_at T = sessions_of m"
    and f: "find_entry ct_less (sym_intPortMap m) (sym_entries m) t = Some (i, e)"
  shows "session_port T t = Some (getDport (extTuple e))"
proof -
  have "map_option fst (sessions_of m p) = Some t \<longleftrightarrow> p = getDport (extTuple e)" for p
    using session_known(3) [OF inv f, of p] by auto
  from find_unique [OF this ports_from_all] show ?thesis by (simp add: session_port_def T)
qed

lemma port_absent:
  assumes inv: "sn_prompt_inv m" and T: "session_at T = sessions_of m"
    and f: "find_entry ct_less (sym_intPortMap m) (sym_entries m) t = None"
  shows "session_port T t = mapPort m t"
proof -
  have "map_option fst (sessions_of m p) \<noteq> Some t" for p
    using session_absent(2) [OF inv f, of p] by (auto simp: map_option_eq_Some)
  then have "List.find (\<lambda>p. map_option fst (sessions_of m p) = Some t) (ports_from (getSport t)) = None"
    by (simp add: find_None_iff)
  then show ?thesis by (simp add: session_port_def T mapPort_find sessions_None [OF inv])
qed

section \<open>Each call refines the specification\<close>

lemma mapper_impl_in:
  assumes m: "mapper_impl cfg m" and inc: "isIngoing pkt" and T: "session_at T = sessions_of m"
    and adm: "answers_from T (tuple_of pkt) \<noteq> None \<or> smap_find (<) (natRules cfg) (dport pkt) \<noteq> None"
  shows "\<exists>b q. SymNatMapper_mapPacket now pkt m = Some (b, q, m) \<and> (if b then Some q else None) = sym_in cfg pkt T"
proof (cases "smap_find (<) (natRules cfg) (dport pkt)")
  case (Some rule)
  then have "checkDnat m pkt = (True, pkt\<lparr>dstIp := getDstIP rule, dport := getDport rule\<rparr>)"
    using m inc by (simp add: checkDnat_def mapper_impl_def)
  then show ?thesis using Some by (intro exI [of _ True]) (simp add: sym_mapPacket_forwarded sym_in_def)
next
  case None
  then have "\<not> fst (checkDnat m pkt)" using m inc by (simp add: checkDnat_ingoing mapper_impl_def)
  note mp = sym_mapPacket_in [OF this inc, of now]
  show ?thesis
  proof (cases "find_entry (<) (sym_extPortMap m) (sym_entries m) (dport pkt)")
    case n: None
    then show ?thesis using None mp
      by (intro exI [of _ False]) (simp add: sym_in_def T sessions_of_def)
  next
    case (Some ie)
    then show ?thesis using None mp adm
      by (intro exI [of _ True]) (simp add: sym_in_def T sessions_of_def split_def)
  qed
qed

lemma mapper_impl_out:
  assumes m: "mapper_impl cfg m" and out: "\<not> isIngoing pkt" and T: "session_at T = sessions_of m"
    and f: "rf_impl cfg ct_less f" and A: "answers_from T = deadlines ct_less f"
  shows "(case SymNatMapper_mapPacket now pkt m of
      None \<Rightarrow> sym_handle cfg now pkt T = Inl Hang
    | Some (b, q, m') \<Rightarrow> b \<and> \<not> isIngoing q \<and> mapper_impl cfg m' \<and>
        (\<forall>T'. session_at T' = sessions_of m' \<and>
           answers_from T' = (\<lambda>t. if t = extTup_of q then Some (now + sint (natTimeout cfg) * 1000000)
             else answers_from T t) \<longrightarrow> sym_handle cfg now pkt T = Inr (Some q, T')))"
proof (cases "smap_find (<) (natRules cfg) (sport pkt)")
  case (Some rule)
  then have "checkDnat m pkt = (True, pkt\<lparr>srcIp := natIpExt cfg\<rparr>)"
    using m out by (simp add: checkDnat_def mapper_impl_def)
  then show ?thesis using Some m out
    by (auto simp: sym_mapPacket_forwarded sym_handle_def sent_out_def Let_def T)
next
  case None
  have inv: "sn_prompt_inv m" using m by (simp add: mapper_impl_def)
  have nf: "\<not> fst (checkDnat m pkt)" using m out None by (simp add: checkDnat_outgoing mapper_impl_def)
  show ?thesis
  proof (cases "find_entry ct_less (sym_intPortMap m) (sym_entries m) (tuple_of pkt)")
    case fe: None
    show ?thesis
    proof (cases "mapPort m (tuple_of pkt)")
      case n: None
      then show ?thesis using None out sym_mapPacket_out_new [OF nf out fe, of now]
        by (simp add: sym_handle_def port_absent [OF inv T fe])
    next
      case (Some p)
      note F = sn_prompt_fresh [OF inv fe mapPort_free [OF Some]]
      show ?thesis using Some None m out sym_mapPacket_out_new [OF nf out fe, of now] F
        by (simp add: sym_handle_def port_absent [OF inv T fe] sent_out_def Let_def T mapper_impl_def)
          (simp add: SymNatMapper_makeNewConn_def store_add_def)
    qed
  next
    case (Some ie)
    then obtain i e where fe: "find_entry ct_less (sym_intPortMap m) (sym_entries m) (tuple_of pkt) = Some (i, e)"
      by (cases ie) simp
    note K = sn_prompt_known [OF inv fe]
    have "getDstIP (extTuple e) = natIpExt cfg"
      using m sn_invD(5) [OF sn_prompt_invD(1) [OF inv] live_present [OF session_known(1) [OF inv fe]]]
      by (simp add: mapper_impl_def)
    then show ?thesis using None m out sym_mapPacket_out_known [OF nf out fe, of now] K
      by (simp add: sym_handle_def port_known [OF inv T fe] sent_out_def Let_def T mapper_impl_def)
  qed
qed

lemma sym_table_fields:
  assumes "natMapper n = Some (SymMapper m)" and "natFilter n = Some (PortrSymFilter f)"
  shows "sym_table_of n = \<lparr>session_at = sessions_of m, answers_from = deadlines ct_less f\<rparr>"
  by (simp add: sym_table_of_def assms)

lemma sym_impl_handle:
  assumes "sym_impl cfg n"
  shows "map_sum id (map_prod id sym_table_of) (Nat_handlePacket now pkt n) =
      sym_handle cfg now pkt (sym_table_of n)"
    and "Nat_handlePacket now pkt n = Inr (res, n') \<Longrightarrow> sym_impl cfg n'"
proof -
  obtain m f where m: "natMapper n = Some (SymMapper m)" "mapper_impl cfg m"
    and f: "natFilter n = Some (PortrSymFilter f)" "rf_impl cfg ct_less f"
    using assms by (auto simp: sym_impl_def)
  let ?T = "sym_table_of n"
  have T: "session_at ?T = sessions_of m" "answers_from ?T = deadlines ct_less f"
    by (simp_all add: sym_table_fields [OF m(1) f(1)])
  have "map_sum id (map_prod id sym_table_of) (Nat_handlePacket now pkt n) = sym_handle cfg now pkt ?T
      \<and> (\<forall>res n'. Nat_handlePacket now pkt n = Inr (res, n') \<longrightarrow> sym_impl cfg n')"
  proof (cases "isIngoing pkt")
    case inc: True
    let ?adm = "deadlines ct_less f (tuple_of pkt) \<noteq> None \<or> smap_find (<) (natRules cfg) (dport pkt) \<noteq> None"
    let ?n = "n\<lparr>natFilter := Some (PortrSymFilter f), natMapper := Some (SymMapper m)\<rparr>"
    have same: "sym_impl cfg ?n" "sym_table_of ?n = ?T" "sym_impl cfg (n\<lparr>natFilter := Some (PortrSymFilter f)\<rparr>)"
      "sym_table_of (n\<lparr>natFilter := Some (PortrSymFilter f)\<rparr>) = ?T"
      using m f by (simp_all add: sym_impl_def sym_table_of_def)
    note fp = portr_impl_in [OF f(2) inc, of now]
    show ?thesis
    proof (cases ?adm)
      case adm: True
      from mapper_impl_in [OF m(2) inc T(1), of now] adm obtain b q
        where "SymNatMapper_mapPacket now pkt m = Some (b, q, m)" "(if b then Some q else None) = sym_in cfg pkt ?T"
        by (auto simp: T)
      then show ?thesis using inc fp adm same
        by (simp add: Nat_handlePacket_def m(1) f(1) mapPacket_def sym_handle_def)
    next
      case False
      then have "sym_in cfg pkt ?T = None" by (simp add: sym_in_def T)
      then show ?thesis using inc fp False same
        by (simp add: Nat_handlePacket_def f(1) sym_handle_def)
    qed
  next
    case out: False
    note M = mapper_impl_out [OF m(2) out T(1) f(2) T(2), of now]
    show ?thesis
    proof (cases "SymNatMapper_mapPacket now pkt m")
      case None
      then show ?thesis using M out by (simp add: Nat_handlePacket_def m(1) mapPacket_def)
    next
      case (Some r)
      then obtain q m' where r: "SymNatMapper_mapPacket now pkt m = Some (True, q, m')" "\<not> isIngoing q"
        "mapper_impl cfg m'" and H: "\<And>T'. session_at T' = sessions_of m' \<Longrightarrow> answers_from T' =
          (\<lambda>t. if t = extTup_of q then Some (now + sint (natTimeout cfg) * 1000000) else answers_from ?T t)
          \<Longrightarrow> sym_handle cfg now pkt ?T = Inr (Some q, T')"
        using M by (cases r) auto
      from portr_impl_out [OF f(2) r(2), of now] obtain f' where f':
        "filterPacket now q (Some (PortrSymFilter f)) = Inr (True, PortrSymFilter f')" "rf_impl cfg ct_less f'"
        "deadlines ct_less f' = (\<lambda>t. if t = extTup_of q
          then Some (now + sint (natTimeout cfg) * 1000000) else deadlines ct_less f t)" .
      let ?n = "n\<lparr>natFilter := Some (PortrSymFilter f'), natMapper := Some (SymMapper m')\<rparr>"
      have "Nat_handlePacket now pkt n = Inr (Some q, ?n)"
        using out r(1) f'(1) by (simp add: Nat_handlePacket_def m(1) f(1) mapPacket_def)
      moreover have "sym_impl cfg ?n" using r(3) f'(2) by (simp add: sym_impl_def)
      moreover have "sym_handle cfg now pkt ?T = Inr (Some q, sym_table_of ?n)"
        by (rule H) (simp_all add: sym_table_of_def f'(3) m f cong: if_cong)
      ultimately show ?thesis by simp
    qed
  qed
  then show "map_sum id (map_prod id sym_table_of) (Nat_handlePacket now pkt n) = sym_handle cfg now pkt ?T"
    "Nat_handlePacket now pkt n = Inr (res, n') \<Longrightarrow> sym_impl cfg n'" by blast+
qed

lemma mapper_impl_due:
  assumes "sn_due m m'" and "mapper_impl cfg m"
  shows "mapper_impl cfg m' \<and> (\<exists>p t d now. sessions_of m p = Some (t, d) \<and> d \<le> now
    \<and> sessions_of m' = (sessions_of m)(p := None))"
  using assms(1)
proof cases
  case (sn_due now i st e st')
  have "sn_prompt_inv m" using assms(2) by (simp add: mapper_impl_def)
  from sn_prompt_expire [OF this sn_due(2,3,1)] show ?thesis
    using assms(2) by (auto simp: mapper_impl_def sn_due(1) SymNatMapper_removeFromMaps_def)
qed

lemma sym_impl_due:
  assumes "nat_due n n'" and "sym_impl cfg n"
  shows "sym_impl cfg n' \<and> sym_spec_due (sym_table_of n) (sym_table_of n')"
proof -
  obtain m f where m: "natMapper n = Some (SymMapper m)" "mapper_impl cfg m"
    and f: "natFilter n = Some (PortrSymFilter f)" "rf_impl cfg ct_less f"
    using assms(2) by (auto simp: sym_impl_def)
  note T = sym_table_fields [OF m(1) f(1)]
  from assms(1) show ?thesis
  proof cases
    case (sym_due s s')
    then have "sn_due m s'" using m(1) by simp
    from mapper_impl_due [OF this m(2)] obtain p t d now where i: "mapper_impl cfg s'"
      and p: "sessions_of m p = Some (t, d)" "d \<le> now" "sessions_of s' = (sessions_of m)(p := None)" by blast
    then show ?thesis using f sym_spec_due.session_due [of "sym_table_of n" p t d now]
      by (simp add: T sym_due(1) sym_impl_def sym_table_of_def m(1))
  next
    case (portr_due g g')
    then have "rf_due ct_less f g'" using f(1) by simp
    from rf_impl_due [OF disjI1 [OF conjI [OF this refl]] f(2)] obtain k d now where i: "rf_impl cfg ct_less g'"
      and k: "deadlines ct_less f k = Some d" "d \<le> now"
        "deadlines ct_less g' = (\<lambda>t. if equiv_key ct_less t k then None else deadlines ct_less f t)" by blast
    have "deadlines ct_less g' = (deadlines ct_less f)(k := None)" by (simp add: k(3) fun_eq_iff)
    then show ?thesis using m i sym_spec_due.answer_due [of "sym_table_of n" k d now] k(1,2)
      by (simp add: T portr_due(1) sym_impl_def sym_table_of_def f(1))
  qed (use m(1) f(1) in simp_all)
qed

lemma sym_prompt_impl:
  assumes "nat_prompt (snd (Nat_init cfg)) n" and "natType cfg = SYM_NAT"
  shows "sym_impl cfg n"
  using assms
proof (induction rule: nat_prompt.induct)
  case (handled n now pkt res n')
  then show ?case using sym_impl_handle(2) [of cfg n now pkt res n'] by simp
qed (use sym_impl_init(1) sym_impl_due in blast)+

lemma sym_due_complete:
  assumes "sym_spec_due (sym_table_of n) T" and "sym_impl cfg n"
  shows "\<exists>n'. nat_due n n' \<and> sym_table_of n' = T"
proof -
  obtain m f where m: "natMapper n = Some (SymMapper m)" "mapper_impl cfg m"
    and f: "natFilter n = Some (PortrSymFilter f)" "rf_impl cfg ct_less f"
    using assms(2) by (auto simp: sym_impl_def)
  note T = sym_table_fields [OF m(1) f(1)]
  from assms(1) show ?thesis
  proof cases
    case (session_due p t d now)
    from sn_due_complete [of m p t d now] session_due(2,3) m(2) obtain m'
      where "sn_due m m'" "sessions_of m' = (sessions_of m)(p := None)" by (auto simp: T mapper_impl_def)
    then show ?thesis using nat_due.sym_due [OF m(1)] session_due(1)
      by (intro exI [of _ "n\<lparr>natMapper := Some (SymMapper m')\<rparr>"]) (simp add: T sym_table_of_def m(1) f)
  next
    case (answer_due k d now)
    from rf_due_complete [OF disjI1 [OF refl] f(2) _ answer_due(3), of k] answer_due(2) obtain f'
      where f': "rf_due ct_less f f'"
        "deadlines ct_less f' = (\<lambda>t. if equiv_key ct_less t k then None else deadlines ct_less f t)"
      by (auto simp: T)
    have "deadlines ct_less f' = (deadlines ct_less f)(k := None)" by (simp add: f'(2) fun_eq_iff)
    then show ?thesis using nat_due.portr_due [OF f(1) f'(1)] answer_due(1)
      by (intro exI [of _ "n\<lparr>natFilter := Some (PortrSymFilter f')\<rparr>"]) (simp add: T sym_table_of_def m f(1))
  qed
qed

text \<open>
  C7. The symmetric NAT type is bisimilar to its specification, with prompt deleters: from the
  empty table on, \<open>handlePacket\<close> returns the packet and leaves the table that \<open>sym_handle\<close>
  says, and hangs exactly when that has no port for a new session; a timer with its deleter
  drops a row that is due, and for every row that is due there is a timer that drops it.
\<close>

theorem symnat_refines_spec:
  assumes ty: "natType cfg = SYM_NAT" and n: "nat_prompt (snd (Nat_init cfg)) n"
  shows "sym_table_of (snd (Nat_init cfg)) = empty_sym_table
    \<and> map_sum id (map_prod id sym_table_of) (Nat_handlePacket now pkt n) =
        sym_handle cfg now pkt (sym_table_of n)
    \<and> (\<forall>T. (\<exists>n'. nat_due n n' \<and> sym_table_of n' = T) \<longleftrightarrow> sym_spec_due (sym_table_of n) T)"
proof -
  have n: "sym_impl cfg n" using sym_prompt_impl [OF n ty] .
  show ?thesis
    using sym_impl_init(2) [OF ty] sym_impl_handle(1) [OF n, of now pkt] sym_impl_due [OF _ n]
      sym_due_complete [OF _ n] by blast
qed

text \<open>
  Two sessions of one host and port: the first keeps its port, the second gets the next one.
\<close>

lemma new_session_port:
  assumes "\<And>q d. session_at T q \<noteq> Some (t, d)"
  shows "session_port T t = Some p \<longleftrightarrow> session_at T p = None
    \<and> (\<forall>i < unat (p - getSport t). session_at T (getSport t + of_nat i) \<noteq> None)"
proof -
  have "map_option fst (session_at T q) \<noteq> Some t" for q using assms by (auto simp: map_option_eq_Some)
  then have "List.find (\<lambda>q. map_option fst (session_at T q) = Some t) (ports_from (getSport t)) = None"
    by (simp add: find_None_iff)
  then show ?thesis by (simp add: session_port_def find_ports)
qed

lemma symnat_refines_spec_witness:
  "\<exists>n1 n2. Nat_handlePacket 0 (example_packet False 10 9 1000 80) (snd (Nat_init (example_nat SYM_NAT))) =
      Inr (Some (example_packet False 2 9 1000 80), n1)
    \<and> Nat_handlePacket 5 (example_packet False 10 8 1000 80) n1 = Inr (Some (example_packet False 2 8 1001 80), n2)"
proof -
  let ?c = "example_nat SYM_NAT" and ?p = "example_packet False 10 9 1000 80"
    and ?q = "example_packet False 10 8 1000 80"
  have ty: "natType ?c = SYM_NAT" by (simp add: example_nat_def)
  define T where "T = \<lparr>session_at = [1000 \<mapsto> (tuple_of ?p, 600000000)],
    answers_from = (\<lambda>t. if t = extTup_of (example_packet False 2 9 1000 80) then Some 600000000 else None)\<rparr>"
  have "session_port empty_sym_table (tuple_of ?p) = Some 1000"
    by (subst new_session_port) (simp_all add: empty_sym_table_def tuple_of_def example_packet_def)
  then have 1: "sym_handle ?c 0 ?p empty_sym_table = Inr (Some (example_packet False 2 9 1000 80), T)"
    by (simp add: sym_handle_def sent_out_def example_nat_def T_def)
      (simp add: example_packet_def empty_sym_table_def Let_def cong: if_cong)
  have "tuple_of ?q \<noteq> tuple_of ?p" "getSport (tuple_of ?q) = 1000" by (simp_all add: tuple_of_def example_packet_def)
  then have "session_port T (tuple_of ?q) = Some 1001"
    by (subst new_session_port) (simp_all add: T_def split: if_splits)
  then have 2: "\<exists>T'. sym_handle ?c 5 ?q T = Inr (Some (example_packet False 2 8 1001 80), T')"
    by (simp add: sym_handle_def sent_out_def example_nat_def) (simp add: example_packet_def Let_def)
  note R = symnat_refines_spec [OF ty nat_prompt.start, of 0 ?p]
  then obtain n1 where n1: "Nat_handlePacket 0 ?p (snd (Nat_init ?c)) = Inr (Some (example_packet False 2 9 1000 80), n1)"
    "sym_table_of n1 = T"
    by (cases "Nat_handlePacket 0 ?p (snd (Nat_init ?c))") (auto simp: 1)
  have run: "nat_prompt (snd (Nat_init ?c)) n1" by (rule nat_prompt.handled [OF nat_prompt.start n1(1)])
  from symnat_refines_spec [OF ty run, of 5 ?q] 2 obtain n2
    where "Nat_handlePacket 5 ?q n1 = Inr (Some (example_packet False 2 8 1001 80), n2)"
    by (cases "Nat_handlePacket 5 ?q n1") (auto simp: n1(2))
  with n1(1) show ?thesis by blast
qed

end
