(* ===== verification/Nat_Mapper_Threads.thy ===== *)
theory Nat_Mapper_Threads
  imports Nat_Mapper_Properties
begin

text \<open>
  Several threads in \<open>mapPacket\<close> of one mapper (nat\_mapper.cpp). The mutex is held while a key
  is looked up and while \<open>mapPort\<close> searches, and released between; \<open>makeNewConn\<close> does not take
  it. So a call is a sequence of sections, and the sections of different calls, the timers
  and the deleters interleave. A thread that found an entry holds a shared pointer to it: the
  entry does not die before the call returns. The unlocked section of \<open>makeNewConn\<close> is one step.
\<close>

section \<open>Calls in progress\<close>

datatype call =
    Found_call packet "nat \<times> conn_entry" \<comment> \<open>the lookup gave \<open>ent\<close>\<close>
  | Absent_call packet \<comment> \<open>the lookup gave nothing\<close>
  | Port_call packet u16 \<comment> \<open>\<open>mapPort\<close> has returned\<close>

text \<open>The mapper, the calls in progress, and what the calls that returned did to their packets.\<close>

record 'm threads =
  obj :: 'm
  calls :: "call list"
  returned :: "(packet \<times> packet option) list"

definition idle_threads :: "'m \<Rightarrow> 'm threads" where
  "idle_threads m = \<lparr>obj = m, calls = [], returned = []\<rparr>"

definition held :: "'m threads \<Rightarrow> nat \<Rightarrow> bool" where
  "held s i \<longleftrightarrow> (\<exists>pkt e. Found_call pkt (i, e) \<in> set (calls s))"

section \<open>The sections of \<open>mapPacket\<close>\<close>

definition NatMapper_lookup :: "packet \<Rightarrow> nat_mapper \<Rightarrow> (nat \<times> conn_entry) option" where
  "NatMapper_lookup pkt m =
     (if isIngoing pkt then find_entry (<) (extPortMap m) (entries m) (dport pkt)
      else find_entry (<) (intPortMap m) (entries m) (sport pkt))"

definition found_packet :: "packet \<Rightarrow> conn_entry \<Rightarrow> packet" where
  "found_packet pkt ent =
     (if isIngoing pkt
      then pkt\<lparr>dstIp := getSrcIP (intTuple ent), dport := getSport (intTuple ent)\<rparr>
      else pkt\<lparr>srcIp := getDstIP (extTuple ent), sport := getDport (extTuple ent)\<rparr>)"

definition NatMapper_found :: "int \<Rightarrow> packet \<Rightarrow> nat \<Rightarrow> nat_mapper \<Rightarrow> nat_mapper" where
  "NatMapper_found now pkt i m =
     (if isIngoing pkt then m else m\<lparr>entries := store_rearm now i (entries m)\<rparr>)"

text \<open>Nothing found: drop an ingoing packet, make a connection for an outgoing one.\<close>

definition newTuple :: "packet \<Rightarrow> u16 \<Rightarrow> 'a nat_mapper_base_scheme \<Rightarrow> connection_tuple" where
  "newTuple pkt port m = ConnectionTuple (dstIp pkt) (ipExt m) (dport pkt) port (transProt pkt)"

definition NatMapper_absent :: "int \<Rightarrow> packet \<Rightarrow> nat_mapper \<Rightarrow> packet option \<times> nat_mapper" where
  "NatMapper_absent now pkt m =
     (if isIngoing pkt then (None, m)
      else let tuple = tuple_of pkt; extTup = newTuple pkt (getSport tuple) m in
        (Some (pkt\<lparr>srcIp := getDstIP extTup, sport := getDport extTup\<rparr>),
         NatMapper_makeNewConn now extTup tuple m))"

definition SymNatMapper_lookup :: "packet \<Rightarrow> sym_nat_mapper \<Rightarrow> (nat \<times> conn_entry) option" where
  "SymNatMapper_lookup pkt m =
     (if isIngoing pkt then find_entry (<) (sym_extPortMap m) (sym_entries m) (dport pkt)
      else find_entry ct_less (sym_intPortMap m) (sym_entries m) (tuple_of pkt))"

definition SymNatMapper_found :: "int \<Rightarrow> packet \<Rightarrow> nat \<Rightarrow> sym_nat_mapper \<Rightarrow> sym_nat_mapper" where
  "SymNatMapper_found now pkt i m =
     (if isIngoing pkt then m else m\<lparr>sym_entries := store_rearm now i (sym_entries m)\<rparr>)"

definition SymNatMapper_create :: "int \<Rightarrow> packet \<Rightarrow> u16 \<Rightarrow> sym_nat_mapper \<Rightarrow> packet \<times> sym_nat_mapper" where
  "SymNatMapper_create now pkt port m =
     (let extTup = newTuple pkt port m in
        (pkt\<lparr>srcIp := getDstIP extTup, sport := getDport extTup\<rparr>,
         SymNatMapper_makeNewConn now extTup (tuple_of pkt) m))"

text \<open>Run without interruption the sections are \<open>mapPacket\<close>.\<close>

lemma NatMapper_sections:
  "NatMapper_mapPacket now pkt m =
     (let (forwarded, pkt1) = checkDnat m pkt in
      if forwarded then (True, pkt1, m)
      else (case NatMapper_lookup pkt m of
              Some (i, ent) \<Rightarrow> (True, found_packet pkt ent, NatMapper_found now pkt i m)
            | None \<Rightarrow> (case NatMapper_absent now pkt m of
                         (None, m') \<Rightarrow> (False, pkt, m')
                       | (Some pkt', m') \<Rightarrow> (True, pkt', m'))))"
  by (auto simp: NatMapper_mapPacket_def NatMapper_lookup_def NatMapper_found_def found_packet_def
      NatMapper_absent_def newTuple_def Let_def split: option.split prod.split)

lemma SymNatMapper_sections:
  "SymNatMapper_mapPacket now pkt m =
     (let (forwarded, pkt1) = checkDnat m pkt in
      if forwarded then Some (True, pkt1, m)
      else (case SymNatMapper_lookup pkt m of
              Some (i, ent) \<Rightarrow> Some (True, found_packet pkt ent, SymNatMapper_found now pkt i m)
            | None \<Rightarrow>
                if isIngoing pkt then Some (False, pkt, m)
                else (case mapPort m (tuple_of pkt) of
                        None \<Rightarrow> None
                      | Some port \<Rightarrow>
                          (let (pkt', m') = SymNatMapper_create now pkt port m
                           in Some (True, pkt', m')))))"
  by (auto simp: SymNatMapper_mapPacket_def SymNatMapper_lookup_def SymNatMapper_found_def
      found_packet_def SymNatMapper_create_def newTuple_def Let_def split: option.split prod.split)

section \<open>Interleavings\<close>

inductive nm_threads :: "nat_mapper threads \<Rightarrow> nat_mapper threads \<Rightarrow> bool" for s0 where
  start: "nm_threads s0 s0"
| forwarded: "nm_threads s0 s \<Longrightarrow> checkDnat (obj s) pkt = (True, pkt') \<Longrightarrow>
    nm_threads s0 (s\<lparr>returned := returned s @ [(pkt, Some pkt')]\<rparr>)"
| lookup: "nm_threads s0 s \<Longrightarrow> \<not> fst (checkDnat (obj s) pkt) \<Longrightarrow>
    nm_threads s0 (s\<lparr>calls := (case NatMapper_lookup pkt (obj s) of
      Some ie \<Rightarrow> Found_call pkt ie | None \<Rightarrow> Absent_call pkt) # calls s\<rparr>)"
| found: "nm_threads s0 s \<Longrightarrow> calls s = cs @ Found_call pkt (i, e) # ds \<Longrightarrow>
    nm_threads s0 \<lparr>obj = NatMapper_found now pkt i (obj s), calls = cs @ ds,
      returned = returned s @ [(pkt, Some (found_packet pkt e))]\<rparr>"
| absent: "nm_threads s0 s \<Longrightarrow> calls s = cs @ Absent_call pkt # ds \<Longrightarrow>
    NatMapper_absent now pkt (obj s) = (res, m') \<Longrightarrow>
    nm_threads s0 \<lparr>obj = m', calls = cs @ ds, returned = returned s @ [(pkt, res)]\<rparr>"
| expire: "nm_threads s0 s \<Longrightarrow> \<not> held s i \<Longrightarrow> store_expire now i (entries (obj s)) = Some st \<Longrightarrow>
    nm_threads s0 (s\<lparr>obj := (obj s)\<lparr>entries := st\<rparr>\<rparr>)"
| delete: "nm_threads s0 s \<Longrightarrow> store_reap k (entries (obj s)) = Some ((i, e), st) \<Longrightarrow>
    nm_threads s0 (s\<lparr>obj :=
      NatMapper_removeFromMaps (intTuple e) (extTuple e) ((obj s)\<lparr>entries := st\<rparr>)\<rparr>)"

inductive sn_threads :: "sym_nat_mapper threads \<Rightarrow> sym_nat_mapper threads \<Rightarrow> bool" for s0 where
  start: "sn_threads s0 s0"
| forwarded: "sn_threads s0 s \<Longrightarrow> checkDnat (obj s) pkt = (True, pkt') \<Longrightarrow>
    sn_threads s0 (s\<lparr>returned := returned s @ [(pkt, Some pkt')]\<rparr>)"
| lookup: "sn_threads s0 s \<Longrightarrow> \<not> fst (checkDnat (obj s) pkt) \<Longrightarrow>
    sn_threads s0 (s\<lparr>calls := (case SymNatMapper_lookup pkt (obj s) of
      Some ie \<Rightarrow> Found_call pkt ie | None \<Rightarrow> Absent_call pkt) # calls s\<rparr>)"
| found: "sn_threads s0 s \<Longrightarrow> calls s = cs @ Found_call pkt (i, e) # ds \<Longrightarrow>
    sn_threads s0 \<lparr>obj = SymNatMapper_found now pkt i (obj s), calls = cs @ ds,
      returned = returned s @ [(pkt, Some (found_packet pkt e))]\<rparr>"
| dropped: "sn_threads s0 s \<Longrightarrow> calls s = cs @ Absent_call pkt # ds \<Longrightarrow> isIngoing pkt \<Longrightarrow>
    sn_threads s0 (s\<lparr>calls := cs @ ds, returned := returned s @ [(pkt, None)]\<rparr>)"
| port: "sn_threads s0 s \<Longrightarrow> calls s = cs @ Absent_call pkt # ds \<Longrightarrow> \<not> isIngoing pkt \<Longrightarrow>
    mapPort (obj s) (tuple_of pkt) = Some p \<Longrightarrow>
    sn_threads s0 (s\<lparr>calls := cs @ Port_call pkt p # ds\<rparr>)"
| create: "sn_threads s0 s \<Longrightarrow> calls s = cs @ Port_call pkt p # ds \<Longrightarrow>
    SymNatMapper_create now pkt p (obj s) = (pkt', m') \<Longrightarrow>
    sn_threads s0 \<lparr>obj = m', calls = cs @ ds, returned = returned s @ [(pkt, Some pkt')]\<rparr>"
| expire: "sn_threads s0 s \<Longrightarrow> \<not> held s i \<Longrightarrow> store_expire now i (sym_entries (obj s)) = Some st \<Longrightarrow>
    sn_threads s0 (s\<lparr>obj := (obj s)\<lparr>sym_entries := st\<rparr>\<rparr>)"
| delete: "sn_threads s0 s \<Longrightarrow> store_reap k (sym_entries (obj s)) = Some ((i, e), st) \<Longrightarrow>
    sn_threads s0 (s\<lparr>obj :=
      SymNatMapper_removeFromMaps (intTuple e) (extTuple e) ((obj s)\<lparr>sym_entries := st\<rparr>)\<rparr>)"

section \<open>Nothing unsolicited, whatever the interleaving\<close>

text \<open>
  An answer to a packet that the mapper has sent out before: it goes to that packet's host and
  port. The invariant is about the port map, the entries, the calls and the packets so far,
  which both classes have.
\<close>

definition solicited :: "(packet \<times> packet option) list \<Rightarrow> u32 \<Rightarrow> packet \<Rightarrow> packet \<Rightarrow> bool" where
  "solicited L ipE pkt r \<longleftrightarrow> (\<exists>q q'. (q, Some q') \<in> set L \<and> \<not> isIngoing q \<and> srcIp q' = ipE
     \<and> sport q' = dport pkt \<and> r = pkt\<lparr>dstIp := srcIp q, dport := sport q\<rparr>)"

definition entry_asked :: "(packet \<times> packet option) list \<Rightarrow> u32 \<Rightarrow> conn_entry \<Rightarrow> bool" where
  "entry_asked L ipE e \<longleftrightarrow> (\<exists>q q'. (q, Some q') \<in> set L \<and> \<not> isIngoing q \<and> srcIp q' = ipE
     \<and> sport q' = getDport (extTuple e) \<and> intTuple e = tuple_of q)"

definition solicited_calls ::
  "(u16, connection_tuple) smap \<Rightarrow> u32 \<Rightarrow> (packet \<times> packet option) list \<Rightarrow> bool" where
  "solicited_calls rules ipE L \<longleftrightarrow> (\<forall>xs pkt r ys. L = xs @ (pkt, Some r) # ys \<longrightarrow> isIngoing pkt \<longrightarrow>
     smap_find (<) rules (dport pkt) = None \<longrightarrow> solicited xs ipE pkt r)"

definition ext_keys_ok :: "(u16, nat) smap \<Rightarrow> entry_store \<Rightarrow> bool" where
  "ext_keys_ok mp st \<longleftrightarrow> store_ok st \<and> (\<forall>q i. smap_find (<) mp q = Some i \<longrightarrow>
     i < next_entry st \<and> (\<forall>e. live st i = Some e \<longrightarrow> getDport (extTuple e) = q))"

definition safe_calls ::
  "(u16, connection_tuple) smap \<Rightarrow> u32 \<Rightarrow> (u16, nat) smap \<Rightarrow> entry_store \<Rightarrow> call list
     \<Rightarrow> (packet \<times> packet option) list \<Rightarrow> bool" where
  "safe_calls rules ipE mp st cs L \<longleftrightarrow> ext_keys_ok mp st
     \<and> (\<forall>i e. live st i = Some e \<longrightarrow> entry_asked L ipE e)
     \<and> (\<forall>pkt i e. Found_call pkt (i, e) \<in> set cs \<longrightarrow> isIngoing pkt \<longrightarrow>
          entry_asked L ipE e \<and> getDport (extTuple e) = dport pkt)
     \<and> solicited_calls rules ipE L"

lemma entry_asked_snoc: "entry_asked L ipE e \<Longrightarrow> entry_asked (L @ [x]) ipE e"
  unfolding entry_asked_def by (metis Un_iff set_append)

lemma entry_asked_rearm [simp]: "entry_asked L ipE (rearm now e) = entry_asked L ipE e"
  by (simp add: entry_asked_def)

lemma solicited_calls_snoc:
  "solicited_calls rules ipE (L @ [(pkt, res)]) \<longleftrightarrow> solicited_calls rules ipE L \<and>
     (\<forall>r. res = Some r \<longrightarrow> isIngoing pkt \<longrightarrow> smap_find (<) rules (dport pkt) = None \<longrightarrow> solicited L ipE pkt r)"
proof -
  have "L @ [(pkt, res)] = xs @ (p, Some r) # ys \<longleftrightarrow>
      (\<exists>zs. ys = zs @ [(pkt, res)] \<and> L = xs @ (p, Some r) # zs) \<or> (ys = [] \<and> xs = L \<and> p = pkt \<and> res = Some r)"
    for xs p r ys
    by (cases ys rule: rev_cases) (auto simp flip: append_Cons append_assoc)
  then show ?thesis unfolding solicited_calls_def by auto
qed

lemma safe_idle: "safe_calls rules ipE [] empty_store [] []"
  by (simp add: safe_calls_def ext_keys_ok_def solicited_calls_def) (simp add: empty_store_def)

lemma safe_drop: "safe_calls rules ipE mp st cs L \<Longrightarrow> set ds \<subseteq> set cs \<Longrightarrow> safe_calls rules ipE mp st ds L"
  unfolding safe_calls_def by blast

lemma safe_call:
  assumes "safe_calls rules ipE mp st cs L"
    and "\<And>pkt i e. c = Found_call pkt (i, e) \<Longrightarrow> isIngoing pkt \<Longrightarrow>
      find_entry (<) mp st (dport pkt) = Some (i, e)"
  shows "safe_calls rules ipE mp st (c # cs) L"
  using assms unfolding safe_calls_def ext_keys_ok_def by (fastforce simp: find_entry_Some)

text \<open>A call returns.\<close>

lemma safe_return:
  assumes "safe_calls rules ipE mp st cs L"
    and "\<And>r. res = Some r \<Longrightarrow> isIngoing pkt \<Longrightarrow> smap_find (<) rules (dport pkt) = None \<Longrightarrow>
      solicited L ipE pkt r"
  shows "safe_calls rules ipE mp st cs (L @ [(pkt, res)])"
  using assms entry_asked_snoc unfolding safe_calls_def solicited_calls_snoc by blast

lemma safe_found:
  assumes "safe_calls rules ipE mp st cs L" and "Found_call pkt (i, e) \<in> set cs" and "isIngoing pkt"
  shows "solicited L ipE pkt (found_packet pkt e)"
proof -
  from assms obtain q q' where "(q, Some q') \<in> set L" "\<not> isIngoing q" "srcIp q' = ipE"
    "sport q' = dport pkt" "intTuple e = tuple_of q"
    unfolding safe_calls_def entry_asked_def by metis
  then show ?thesis unfolding solicited_def using assms(3)
    by (intro exI [of _ q] exI [of _ q']) (simp add: found_packet_def tuple_of_def)
qed

lemma safe_rearm: "safe_calls rules ipE mp st cs L \<Longrightarrow> safe_calls rules ipE mp (store_rearm now i st) cs L"
  unfolding safe_calls_def ext_keys_ok_def
  by (auto simp: store_ok_rearm live_rearm split: if_splits)

lemma safe_add:
  assumes "safe_calls rules ipE mp st cs L" and "timer e \<noteq> None" and "getDport (extTuple e) = port"
    and "\<not> isIngoing q" and "intTuple e = tuple_of q" and "srcIp q' = ipE" and "sport q' = port"
  shows "safe_calls rules ipE (smap_insert (<) port (next_entry st) mp) (snd (store_add e st)) cs
    (L @ [(q, Some q')])"
proof -
  note S = assms(1) [unfolded safe_calls_def ext_keys_ok_def]
  have keys: "ext_keys_ok (smap_insert (<) port (next_entry st) mp) (snd (store_add e st))"
    unfolding ext_keys_ok_def
  proof (intro conjI allI impI)
    fix k i assume k: "smap_find (<) (smap_insert (<) port (next_entry st) mp) k = Some i"
    then show "i < next_entry (snd (store_add e st))" using S by (auto simp: less_Suc_eq split: if_splits)
    fix f assume "live (snd (store_add e st)) i = Some f"
    then show "getDport (extTuple f) = k"
      using k S assms(3) by (auto simp: live_add split: if_splits)
  qed (use S store_ok_add assms(2) in blast)
  have new: "entry_asked (L @ [(q, Some q')]) ipE e" using assms(3-7) by (auto simp: entry_asked_def)
  have old: "live st i = Some f \<Longrightarrow> entry_asked (L @ [(q, Some q')]) ipE f" for i f
    using S entry_asked_snoc by blast
  have "entry_asked (L @ [(q, Some q')]) ipE f" if "live (snd (store_add e st)) i = Some f" for i f
    using that new old [of i f] by (auto simp: live_add split: if_splits)
  moreover have "solicited_calls rules ipE (L @ [(q, Some q')])"
    using S assms(4) by (simp add: solicited_calls_snoc)
  moreover have "entry_asked (L @ [(q, Some q')]) ipE f \<and> getDport (extTuple f) = dport pkt"
    if "Found_call pkt (i, f) \<in> set cs" "isIngoing pkt" for pkt i f
    using S that entry_asked_snoc by blast
  ultimately show ?thesis using keys unfolding safe_calls_def by blast
qed

lemma safe_expire:
  "safe_calls rules ipE mp st cs L \<Longrightarrow> store_expire now i st = Some st' \<Longrightarrow> safe_calls rules ipE mp st' cs L"
  unfolding safe_calls_def ext_keys_ok_def
  using store_ok_expire [of st now i st'] by (auto dest!: store_expireD split: if_splits)

lemma safe_reap:
  assumes "safe_calls rules ipE mp st cs L" and "store_reap k st = Some ((i, e), st')"
  shows "safe_calls rules ipE (smap_erase (<) p mp) st' cs L"
proof -
  have "live st' = live st" "next_entry st' = next_entry st" using store_reapD [OF assms(2)] by auto
  then show ?thesis using assms store_ok_reap [of st k "(i, e)" st']
    unfolding safe_calls_def ext_keys_ok_def by (auto split: if_splits)
qed

text \<open>Both classes keep the invariant.\<close>

definition nm_safe :: "(u16, connection_tuple) smap \<Rightarrow> u32 \<Rightarrow> nat_mapper threads \<Rightarrow> bool" where
  "nm_safe rules ipE s \<longleftrightarrow> dnatRules (obj s) = rules \<and> ipExt (obj s) = ipE
     \<and> safe_calls rules ipE (extPortMap (obj s)) (entries (obj s)) (calls s) (returned s)"

definition sn_safe :: "(u16, connection_tuple) smap \<Rightarrow> u32 \<Rightarrow> sym_nat_mapper threads \<Rightarrow> bool" where
  "sn_safe rules ipE s \<longleftrightarrow> dnatRules (obj s) = rules \<and> ipExt (obj s) = ipE
     \<and> (\<forall>pkt p. Port_call pkt p \<in> set (calls s) \<longrightarrow> \<not> isIngoing pkt)
     \<and> safe_calls rules ipE (sym_extPortMap (obj s)) (sym_entries (obj s)) (calls s) (returned s)"

lemma forwarded_rule:
  "checkDnat m pkt = (True, pkt') \<Longrightarrow> isIngoing pkt \<Longrightarrow> smap_find (<) (dnatRules m) (dport pkt) \<noteq> None"
  using checkDnat_ingoing [of pkt m] by simp

lemma nm_threads_safe:
  assumes "nm_threads s0 s" and "nm_safe rules ipE s0"
  shows "nm_safe rules ipE s"
  using assms
proof (induction rule: nm_threads.induct)
  case (forwarded s pkt pkt')
  then show ?case using forwarded_rule [OF forwarded(2)] by (auto simp: nm_safe_def intro!: safe_return)
next
  case (lookup s pkt)
  then show ?case
    by (auto simp: nm_safe_def NatMapper_lookup_def intro!: safe_call split: option.splits)
next
  case (found s cs pkt i e ds now)
  then have S: "safe_calls rules ipE (extPortMap (obj s)) (entries (obj s)) (calls s) (returned s)"
    by (simp add: nm_safe_def)
  have "safe_calls rules ipE (extPortMap (obj s)) (entries (obj s)) (calls s)
      (returned s @ [(pkt, Some (found_packet pkt e))])"
    using safe_return [OF S] safe_found [OF S, of pkt i e] found(2) by auto
  then have "safe_calls rules ipE (extPortMap (obj s)) (entries (obj s)) (cs @ ds)
      (returned s @ [(pkt, Some (found_packet pkt e))])"
    by (rule safe_drop) (auto simp: found(2))
  then show ?case using found by (simp add: nm_safe_def NatMapper_found_def safe_rearm)
next
  case (absent s cs pkt ds now res m')
  then have S: "safe_calls rules ipE (extPortMap (obj s)) (entries (obj s)) (cs @ ds) (returned s)"
    by (auto simp: nm_safe_def elim!: safe_drop)
  show ?case
  proof (cases "isIngoing pkt")
    case True
    then show ?thesis using absent safe_return [OF S, of res pkt]
      by (auto simp: nm_safe_def NatMapper_absent_def)
  next
    case False
    then show ?thesis
      using absent safe_add [OF S, of _ "sport pkt" pkt "pkt\<lparr>srcIp := ipE\<rparr>"]
      by (auto simp: nm_safe_def NatMapper_absent_def newTuple_def Let_def NatMapper_makeNewConn_def
          split_def tuple_of_def)
  qed
next
  case (expire s i now st)
  then show ?case using safe_expire by (auto simp: nm_safe_def)
next
  case (delete s k i e st)
  then show ?case using safe_reap by (auto simp: nm_safe_def NatMapper_removeFromMaps_def)
qed

lemma sn_safeD:
  assumes "sn_safe rules ipE s"
  shows "dnatRules (obj s) = rules" and "ipExt (obj s) = ipE"
    and "Port_call pkt p \<in> set (calls s) \<Longrightarrow> \<not> isIngoing pkt"
    and "safe_calls rules ipE (sym_extPortMap (obj s)) (sym_entries (obj s)) (calls s) (returned s)"
  using assms unfolding sn_safe_def by blast+

lemma sn_safe_calls:
  assumes "sn_safe rules ipE s"
    and "safe_calls rules ipE (sym_extPortMap (obj s)) (sym_entries (obj s)) cs (returned s)"
    and "\<And>pkt p. Port_call pkt p \<in> set cs \<Longrightarrow> \<not> isIngoing pkt"
  shows "sn_safe rules ipE (s\<lparr>calls := cs\<rparr>)"
  using assms by (simp add: sn_safe_def)

lemma sn_threads_safe:
  assumes "sn_threads s0 s" and "sn_safe rules ipE s0"
  shows "sn_safe rules ipE s"
  using assms
proof (induction rule: sn_threads.induct)
  case (forwarded s pkt pkt')
  note I = sn_safeD [OF forwarded(3) [OF forwarded(4)]]
  have "safe_calls rules ipE (sym_extPortMap (obj s)) (sym_entries (obj s)) (calls s)
      (returned s @ [(pkt, Some pkt')])"
    using forwarded_rule [OF forwarded(2)] I(1) by (intro safe_return [OF I(4)]) simp
  then show ?case using I(1-3) by (simp add: sn_safe_def)
next
  case (lookup s pkt)
  note I = sn_safeD [OF lookup(3) [OF lookup(4)]]
  define c where "c = (case SymNatMapper_lookup pkt (obj s) of Some ie \<Rightarrow> Found_call pkt ie | None \<Rightarrow> Absent_call pkt)"
  have c: "Port_call q p \<noteq> c" for q p by (simp add: c_def split: option.split)
  have "safe_calls rules ipE (sym_extPortMap (obj s)) (sym_entries (obj s)) (c # calls s) (returned s)"
    by (rule safe_call [OF I(4)]) (auto simp: c_def SymNatMapper_lookup_def split: option.splits)
  then show ?case using I(1-3) c by (simp add: sn_safe_def flip: c_def)
next
  case (found s cs pkt i e ds now)
  note I = sn_safeD [OF found(3) [OF found(4)]]
  have cs: "set (cs @ ds) \<subseteq> set (calls s)" "Found_call pkt (i, e) \<in> set (calls s)" using found(2) by auto
  have "safe_calls rules ipE (sym_extPortMap (obj s)) (sym_entries (obj s)) (cs @ ds)
      (returned s @ [(pkt, Some (found_packet pkt e))])"
    by (rule safe_drop [OF safe_return [OF I(4)] cs(1)]) (use safe_found [OF I(4) cs(2)] in simp)
  moreover have "\<forall>q p. Port_call q p \<in> set (cs @ ds) \<longrightarrow> \<not> isIngoing q" using I(3) cs(1) by blast
  ultimately show ?case using I(1,2) safe_rearm by (simp add: sn_safe_def SymNatMapper_found_def)
next
  case (dropped s cs pkt ds)
  note I = sn_safeD [OF dropped(4) [OF dropped(5)]]
  have cs: "set (cs @ ds) \<subseteq> set (calls s)" using dropped(2) by auto
  have "\<forall>q p. Port_call q p \<in> set (cs @ ds) \<longrightarrow> \<not> isIngoing q" using I(3) cs by blast
  then show ?case using I(1,2) safe_return [OF safe_drop [OF I(4) cs], of None pkt] by (simp add: sn_safe_def)
next
  case (port s cs pkt ds p)
  note I = sn_safeD [OF port(5) [OF port(6)]]
  have cs: "set (cs @ ds) \<subseteq> set (calls s)" using port(2) by auto
  have "safe_calls rules ipE (sym_extPortMap (obj s)) (sym_entries (obj s))
      (Port_call pkt p # cs @ ds) (returned s)"
    by (rule safe_call [OF safe_drop [OF I(4) cs]]) simp
  then have "safe_calls rules ipE (sym_extPortMap (obj s)) (sym_entries (obj s))
      (cs @ Port_call pkt p # ds) (returned s)"
    by (rule safe_drop) auto
  moreover have "\<not> isIngoing q" if "Port_call q r \<in> set (cs @ Port_call pkt p # ds)" for q r
    using that I(3) cs port(3) by auto
  ultimately show ?case by (rule sn_safe_calls [OF port(5) [OF port(6)]])
next
  case (create s cs pkt p ds now pkt' m')
  note I = sn_safeD [OF create(4) [OF create(5)]]
  have cs: "set (cs @ ds) \<subseteq> set (calls s)" using create(2) by auto
  have out: "\<not> isIngoing pkt" by (rule I(3) [of pkt p]) (simp add: create(2))
  let ?e = "start now (ConnectionEntry_new (connectionTimeout (obj s)) (newTuple pkt p (obj s)) (tuple_of pkt))"
  have eqs: "pkt' = pkt\<lparr>srcIp := ipE, sport := p\<rparr>" "dnatRules m' = rules" "ipExt m' = ipE"
    "sym_extPortMap m' = smap_insert (<) p (next_entry (sym_entries (obj s))) (sym_extPortMap (obj s))"
    "sym_entries m' = snd (store_add ?e (sym_entries (obj s)))"
    using create(3) I(1,2)
    by (auto simp: SymNatMapper_create_def newTuple_def SymNatMapper_makeNewConn_def Let_def split_def)
  have "\<forall>q r. Port_call q r \<in> set (cs @ ds) \<longrightarrow> \<not> isIngoing q" using I(3) cs by blast
  then show ?case
    using safe_add [OF safe_drop [OF I(4) cs], of ?e p pkt pkt'] out
    by (simp add: sn_safe_def eqs newTuple_def)
next
  case (expire s i now st)
  note I = sn_safeD [OF expire(4) [OF expire(5)]]
  then show ?case using safe_expire [OF I(4) expire(3)] by (simp add: sn_safe_def)
next
  case (delete s k i e st)
  note I = sn_safeD [OF delete(3) [OF delete(4)]]
  then show ?case using safe_reap [OF I(4) delete(2)] by (simp add: sn_safe_def SymNatMapper_removeFromMaps_def)
qed

text \<open>
  C8. No interleaving of threads, timers and deleters lets an unsolicited packet in, for either
  mapper: an ingoing packet that \<open>mapPacket\<close> passes, to a port without a forwarding rule, was
  preceded by an outgoing packet that left with the external address and that port, and it
  goes to that packet's host and port.
\<close>

theorem nat_threads_solicited:
  assumes run: "(\<exists>s. nm_threads (idle_threads (setDnatRules rules (NatMapper_new ipI ipE ct))) s \<and> L = returned s)
      \<or> (\<exists>s. sn_threads (idle_threads (setDnatRules rules (SymNatMapper_new ipI ipE ct))) s \<and> L = returned s)"
    and "L = xs @ (pkt, Some pkt') # ys" and "isIngoing pkt" and "smap_find (<) rules (dport pkt) = None"
  shows "\<exists>q q'. (q, Some q') \<in> set xs \<and> \<not> isIngoing q \<and> srcIp q' = ipE \<and> sport q' = dport pkt
    \<and> pkt' = pkt\<lparr>dstIp := srcIp q, dport := sport q\<rparr>"
proof -
  have "nm_safe rules ipE (idle_threads (setDnatRules rules (NatMapper_new ipI ipE ct)))"
    by (simp add: nm_safe_def idle_threads_def setDnatRules_def NatMapper_new_def safe_idle)
  moreover have "sn_safe rules ipE (idle_threads (setDnatRules rules (SymNatMapper_new ipI ipE ct)))"
    by (simp add: sn_safe_def idle_threads_def setDnatRules_def SymNatMapper_new_def safe_idle)
  ultimately have "solicited_calls rules ipE L"
    using run nm_threads_safe sn_threads_safe unfolding nm_safe_def sn_safe_def safe_calls_def by blast
  then show ?thesis using assms(2-4) unfolding solicited_calls_def solicited_def by blast
qed

text \<open>A call that is not interrupted is one call of \<open>mapPacket\<close>.\<close>

lemma nm_threads_call:
  assumes run: "nm_threads s0 s" and idle: "calls s = []"
    and mp: "NatMapper_mapPacket now pkt (obj s) = (b, pkt', m')"
  shows "nm_threads s0 \<lparr>obj = m', calls = [], returned = returned s @ [(pkt, if b then Some pkt' else None)]\<rparr>"
proof (cases "fst (checkDnat (obj s) pkt)")
  case True
  then have fwd: "checkDnat (obj s) pkt = (True, snd (checkDnat (obj s) pkt))" by (simp add: prod_eq_iff)
  have "s\<lparr>returned := x\<rparr> = \<lparr>obj = obj s, calls = [], returned = x\<rparr>" for x
    using idle by (cases s) simp
  then show ?thesis
    using nm_threads.forwarded [OF run fwd] mp mapPacket_forwarded [OF True, of now] by auto
next
  case nf: False
  then have c: "checkDnat (obj s) pkt = (False, pkt)" by (rule checkDnat_missed)
  note sec = NatMapper_sections [of now pkt "obj s", unfolded c mp, simplified]
  show ?thesis
  proof (cases "NatMapper_lookup pkt (obj s)")
    case None
    from nm_threads.absent [OF nm_threads.lookup [OF run nf], of "[]" pkt "[]" now] None idle sec
    show ?thesis by (cases "NatMapper_absent now pkt (obj s)") (auto split: option.splits)
  next
    case (Some ie)
    obtain i e where ie: "ie = (i, e)" by (cases ie)
    from nm_threads.found [OF nm_threads.lookup [OF run nf], of "[]" pkt i e "[]" now] Some idle sec
    show ?thesis by (simp add: ie)
  qed
qed

section \<open>Races\<close>

text \<open>
  C19. The port search and the insertion of its result are separate sections: two outgoing packets
  of different connections with the same source port, on two threads, can both leave from it,
  and every answer to the first host is then sent to the second.
\<close>

theorem symnat_port_race:
  assumes out: "\<not> isIngoing p" "\<not> isIngoing q" and sp: "sport q = sport p"
    and diff: "tuple_of p \<noteq> tuple_of q" and nr: "smap_find (<) rules (sport p) = None"
  shows "\<exists>s. sn_threads (idle_threads (setDnatRules rules (SymNatMapper_new ipI ipE ct))) s
    \<and> returned s = [(p, Some (p\<lparr>srcIp := ipE\<rparr>)), (q, Some (q\<lparr>srcIp := ipE\<rparr>))]
    \<and> (\<forall>t r. isIngoing r \<longrightarrow> dport r = sport p \<longrightarrow>
         SymNatMapper_mapPacket t r (obj s) = Some (True, r\<lparr>dstIp := srcIp q, dport := sport p\<rparr>, obj s))"
proof -
  let ?m = "setDnatRules rules (SymNatMapper_new ipI ipE ct)"
  have m: "dnatRules ?m = rules" "sym_extPortMap ?m = []" "sym_intPortMap ?m = []" "ipExt ?m = ipE"
    by (simp_all add: setDnatRules_def SymNatMapper_new_def)
  have nf: "\<not> fst (checkDnat ?m p)" "\<not> fst (checkDnat ?m q)"
    using out nr sp by (simp_all add: checkDnat_outgoing m)
  have lk: "SymNatMapper_lookup p ?m = None" "SymNatMapper_lookup q ?m = None"
    using out by (simp_all add: SymNatMapper_lookup_def find_entry_def m)
  have pt: "mapPort ?m (tuple_of p) = Some (sport p)" "mapPort ?m (tuple_of q) = Some (sport p)"
    by (simp_all add: mapPort_def mapPort_loop.simps [of "[]"] m tuple_of_def sp)
  define m1 where "m1 = snd (SymNatMapper_create 0 p (sport p) ?m)"
  define m2 where "m2 = snd (SymNatMapper_create 0 q (sport p) m1)"
  have c1: "SymNatMapper_create 0 p (sport p) ?m = (p\<lparr>srcIp := ipE\<rparr>, m1)"
    by (simp add: m1_def SymNatMapper_create_def newTuple_def Let_def m)
  have m1: "ipExt m1 = ipE" by (simp add: m1_def SymNatMapper_create_def newTuple_def Let_def m)
  have c2: "SymNatMapper_create 0 q (sport p) m1 = (q\<lparr>srcIp := ipE\<rparr>, m2)"
    by (simp add: m2_def SymNatMapper_create_def newTuple_def Let_def m1 flip: sp)
  note run = sn_threads.start [of "idle_threads ?m"]
  note run = sn_threads.lookup [OF run, of p, unfolded idle_threads_def, simplified, OF nf(1), unfolded lk, simplified]
  note run = sn_threads.lookup [OF run, of q, simplified, OF nf(2), unfolded lk, simplified]
  note run = sn_threads.port [OF run, of "[]" q "[Absent_call p]", simplified, OF out(2) pt(2)]
  note run = sn_threads.port [OF run, of "[Port_call q (sport p)]" p "[]", simplified, OF out(1) pt(1)]
  note run = sn_threads.create [OF run, of "[Port_call q (sport p)]" p "sport p" "[]", simplified, OF c1]
  note run = sn_threads.create [OF run, of "[]" q "sport p" "[]", simplified, OF c2]
  have "SymNatMapper_mapPacket t r m2 = Some (True, r\<lparr>dstIp := srcIp q, dport := sport p\<rparr>, m2)"
    if "isIngoing r" "dport r = sport p" for t r
  proof -
    have "find_entry (<) (sym_extPortMap m2) (sym_entries m2) (dport r) = Some (1,
        start 0 (ConnectionEntry_new ct (newTuple q (sport p) m1) (tuple_of q)))"
      by (simp add: m2_def m1_def SymNatMapper_create_def newTuple_def Let_def SymNatMapper_makeNewConn_def
          split_def that find_entry_Some live_add)
        (simp add: setDnatRules_def SymNatMapper_new_def empty_store_def store_add_def)
    moreover have "\<not> fst (checkDnat m2 r)"
      using that nr by (simp add: checkDnat_ingoing m2_def m1_def SymNatMapper_create_def Let_def m)
    ultimately show ?thesis using that(1) by (simp add: sym_mapPacket_in tuple_of_def sp)
  qed
  then show ?thesis using run by (intro exI conjI) (auto simp: idle_threads_def)
qed

text \<open>
  With the port-preserving mapper two threads can both make an entry for one flow. The maps have
  the second, which the flow's packets keep alive; when the first runs out, its deleter erases
  the keys, and a connection in use takes no more packets in.
\<close>

lemma nat_duplicate_race:
  assumes out: "\<not> isIngoing p" and nr: "smap_find (<) rules (sport p) = None"
    and due: "sint ct * 1000000 \<le> due"
  shows "\<exists>s e. nm_threads (idle_threads (setDnatRules rules (NatMapper_new ipI ipE ct))) s
    \<and> live (entries (obj s)) (Suc 0) = Some e \<and> intTuple e = tuple_of p
    \<and> timer e = Some (now + sint ct * 1000000)
    \<and> (\<forall>t r. isIngoing r \<longrightarrow> dport r = sport p \<longrightarrow> NatMapper_mapPacket t r (obj s) = (False, r, obj s))"
proof -
  let ?m = "setDnatRules rules (NatMapper_new ipI ipE ct)"
  let ?e = "\<lambda>t. start t (ConnectionEntry_new ct (newTuple p (sport p) ?m) (tuple_of p))"
  have m: "dnatRules ?m = rules" "extPortMap ?m = []" "intPortMap ?m = []" "ipExt ?m = ipE"
    "connectionTimeout ?m = ct" "entries ?m = empty_store"
    by (simp_all add: setDnatRules_def NatMapper_new_def)
  have nf: "\<not> fst (checkDnat ?m p)" using out nr by (simp add: checkDnat_outgoing m)
  have lk: "NatMapper_lookup p ?m = None" using out by (simp add: NatMapper_lookup_def find_entry_def m)
  define m1 where "m1 = snd (NatMapper_absent 0 p ?m)"
  define m2 where "m2 = snd (NatMapper_absent 0 p m1)"
  have c1: "NatMapper_absent 0 p ?m = (Some (p\<lparr>srcIp := ipE\<rparr>), m1)"
    using out by (simp add: m1_def NatMapper_absent_def newTuple_def Let_def m) (simp add: tuple_of_def)
  have m1: "ipExt m1 = ipE" using out by (simp add: m1_def NatMapper_absent_def newTuple_def Let_def m)
  have c2: "NatMapper_absent 0 p m1 = (Some (p\<lparr>srcIp := ipE\<rparr>), m2)"
    using out by (simp add: m2_def NatMapper_absent_def newTuple_def Let_def m1) (simp add: tuple_of_def)
  have m2: "intPortMap m2 = [(sport p, Suc 0)]" "extPortMap m2 = [(sport p, Suc 0)]" "dnatRules m2 = rules"
    "entries m2 = \<lparr>live = [0 \<mapsto> ?e 0, Suc 0 \<mapsto> ?e 0], dying = [], next_entry = 2\<rparr>"
    using out by (simp_all add: m2_def m1_def NatMapper_absent_def newTuple_def Let_def
        NatMapper_makeNewConn_def split_def m store_add_def empty_store_def tuple_of_def)
  have fe: "NatMapper_lookup p m2 = Some (Suc 0, ?e 0)"
    using out by (simp add: NatMapper_lookup_def find_entry_Some m2)
  define m3 where "m3 = NatMapper_found now p (Suc 0) m2"
  have m3: "intPortMap m3 = [(sport p, Suc 0)]" "extPortMap m3 = [(sport p, Suc 0)]" "dnatRules m3 = rules"
    "entries m3 = \<lparr>live = [0 \<mapsto> ?e 0, Suc 0 \<mapsto> rearm now (?e 0)], dying = [], next_entry = 2\<rparr>"
    using out by (simp_all add: m3_def NatMapper_found_def m2 store_rearm_def)
  let ?st = "\<lparr>live = [Suc 0 \<mapsto> rearm now (?e 0)], dying = [(0, ?e 0)], next_entry = 2\<rparr>"
  let ?st' = "\<lparr>live = [Suc 0 \<mapsto> rearm now (?e 0)], dying = [], next_entry = 2\<rparr>"
  have ex: "store_expire due 0 (entries m3) = Some ?st"
    using due by (simp add: m3 store_expire_def fun_upd_twist)
  have re: "store_reap 0 ?st = Some ((0, ?e 0), ?st')" by (simp add: store_reap_def)
  define m4 where "m4 = NatMapper_removeFromMaps (tuple_of p) (newTuple p (sport p) ?m) (m3\<lparr>entries := ?st'\<rparr>)"
  note run = nm_threads.start [of "idle_threads ?m"]
  note run = nm_threads.lookup [OF run, of p, unfolded idle_threads_def, simplified, OF nf, unfolded lk, simplified]
  note run = nm_threads.lookup [OF run, of p, simplified, OF nf, unfolded lk, simplified]
  note run = nm_threads.absent [OF run, of "[Absent_call p]" p "[]", simplified, OF c1]
  note run = nm_threads.absent [OF run, of "[]" p "[]", simplified, OF c2]
  have nf2: "\<not> fst (checkDnat m2 p)" using out nr by (simp add: checkDnat_outgoing m2)
  note run = nm_threads.lookup [OF run, of p, simplified, OF nf2, unfolded fe, simplified]
  note run = nm_threads.found [OF run, of "[]" p "Suc 0" "?e 0" "[]" now, simplified, folded m3_def]
  note run = nm_threads.expire [OF run, of 0 due ?st, simplified held_def, simplified, OF ex]
  note run = nm_threads.delete [OF run, of 0 0 "?e 0", simplified, OF re, simplified, folded m4_def]
  have "NatMapper_mapPacket t r m4 = (False, r, m4)" if "isIngoing r" "dport r = sport p" for t r
  proof -
    have "extPortMap m4 = []" by (simp add: m4_def NatMapper_removeFromMaps_def m3 newTuple_def)
    moreover have "\<not> fst (checkDnat m4 r)"
      using that nr by (simp add: checkDnat_ingoing m4_def NatMapper_removeFromMaps_def m3)
    ultimately show ?thesis using that by (simp add: mapPacket_in find_entry_def)
  qed
  moreover have "live (entries m4) (Suc 0) = Some (rearm now (?e 0))"
    by (simp add: m4_def NatMapper_removeFromMaps_def)
  ultimately show ?thesis using run
    by (intro exI [of _ "rearm now (?e 0)"] exI conjI) (auto simp: idle_threads_def)
qed

section \<open>Concrete runs\<close>

lemma nat_threads_solicited_witness:
  "\<exists>s. nm_threads (idle_threads (setDnatRules [] (NatMapper_new 1 2 60))) s
    \<and> returned s = [(example_packet False 10 9 1000 80, Some (example_packet False 2 9 1000 80)),
        (example_packet True 9 2 80 1000, Some (example_packet True 9 10 80 1000))]
    \<and> (\<exists>q. srcIp q = 10 \<and> sport q = 1000 \<and> (q, Some (example_packet False 2 9 1000 80)) \<in> set (take 1 (returned s)))"
proof -
  let ?m = "setDnatRules [] (NatMapper_new 1 2 60)" and ?p = "example_packet False 10 9 1000 80"
  let ?r = "example_packet True 9 2 80 1000"
  obtain m1 where m1: "NatMapper_mapPacket 0 ?p ?m = (True, example_packet False 2 9 1000 80, m1)"
    and r: "NatMapper_mapPacket 7 ?r m1 = (True, example_packet True 9 10 80 1000, m1)"
    by (simp add: run_simps)
  note run = nm_threads_call [OF nm_threads.start [of "idle_threads ?m"], of 0 ?p, unfolded idle_threads_def,
      simplified, OF m1, simplified]
  note run = nm_threads_call [OF run, of 7 ?r, simplified, OF r, simplified]
  have "\<exists>s. nm_threads (idle_threads ?m) s \<and>
      [(?p, Some (example_packet False 2 9 1000 80)), (?r, Some (example_packet True 9 10 80 1000))] = returned s"
    using run by (auto simp: idle_threads_def)
  from nat_threads_solicited [OF disjI1 [OF this], of "[(?p, Some (example_packet False 2 9 1000 80))]" ?r
      "example_packet True 9 10 80 1000" "[]"]
  obtain q where "(q, Some (example_packet False 2 9 1000 80)) \<in> set [(?p, Some (example_packet False 2 9 1000 80))]"
      "example_packet True 9 10 80 1000 = ?r\<lparr>dstIp := srcIp q, dport := sport q\<rparr>"
    by (auto simp: example_packet_def)
  then show ?thesis using run
    by (intro exI [of _ "\<lparr>obj = m1, calls = [], returned = [(?p, Some (example_packet False 2 9 1000 80)),
        (?r, Some (example_packet True 9 10 80 1000))]\<rparr>"]) (auto simp: idle_threads_def example_packet_def)
qed

lemma symnat_port_race_witness:
  "\<exists>s. sn_threads (idle_threads (setDnatRules [] (SymNatMapper_new 1 2 60))) s
    \<and> SymNatMapper_mapPacket 5 (example_packet True 9 2 80 1000) (obj s) =
        Some (True, example_packet True 9 11 80 1000, obj s)"
proof -
  have "\<exists>s. sn_threads (idle_threads (setDnatRules [] (SymNatMapper_new 1 2 60))) s
    \<and> returned s = [(example_packet False 10 9 1000 80, Some ((example_packet False 10 9 1000 80)\<lparr>srcIp := 2\<rparr>)),
        (example_packet False 11 9 1000 80, Some ((example_packet False 11 9 1000 80)\<lparr>srcIp := 2\<rparr>))]
    \<and> (\<forall>t r. isIngoing r \<longrightarrow> dport r = sport (example_packet False 10 9 1000 80) \<longrightarrow>
         SymNatMapper_mapPacket t r (obj s) = Some (True, r\<lparr>dstIp := srcIp (example_packet False 11 9 1000 80),
           dport := sport (example_packet False 10 9 1000 80)\<rparr>, obj s))"
    by (rule symnat_port_race) (simp_all add: example_packet_def tuple_of_def)
  then obtain s where "sn_threads (idle_threads (setDnatRules [] (SymNatMapper_new 1 2 60))) s"
    "\<forall>t r. isIngoing r \<longrightarrow> dport r = sport (example_packet False 10 9 1000 80) \<longrightarrow>
         SymNatMapper_mapPacket t r (obj s) = Some (True, r\<lparr>dstIp := srcIp (example_packet False 11 9 1000 80),
           dport := sport (example_packet False 10 9 1000 80)\<rparr>, obj s)" by blast
  from this(1) this(2) [rule_format, of "example_packet True 9 2 80 1000" 5] show ?thesis
    by (intro exI [of _ s]) (simp add: example_packet_def)
qed

end
