(* ===== verification/Packet_Text.thy ===== *)
theory Packet_Text
  imports Nat_Filters
begin

text \<open>
  What the program prints about packets: \<open>dump\<close> of both packet classes (packet.cpp,
  packet6.cpp), \<open>dumpMem\<close> (parent\_packet.hpp, output\_libnet.cpp, output6\_libnet.cpp), the
  stream operator of the connection tuples (nat.cpp) and \<open>dumpConnMap\<close> (nat\_filters.cpp).
  A function gives the characters it writes. \<open>to_simple_string\<close> of boost is an argument. The
  theory shows that addresses, tuples and memory can be read back from their text, and that
  the text of an IPv6 address fits the buffer it is written to.
\<close>

section \<open>Numbers\<close>

text \<open>The conversions \<open>%u\<close> and \<open>%i\<close> of \<open>printf\<close>, and those of the streams.\<close>

definition digit :: "nat \<Rightarrow> char" where
  "digit n = ''0123456789'' ! n"

fun show_nat :: "nat \<Rightarrow> string" where
  "show_nat n = (if n < 10 then [digit n] else show_nat (n div 10) @ [digit (n mod 10)])"

declare show_nat.simps [simp del]

definition show_int :: "int \<Rightarrow> string" where
  "show_int i = (if i < 0 then ''-'' @ show_nat (nat (- i)) else show_nat (nat i))"

definition show_word :: "'a::len word \<Rightarrow> string" where
  "show_word w = show_nat (unat w)"

text \<open>A tab and a line.\<close>

definition tab :: char where "tab = CHR 0x09"
definition newline :: char where "newline = CHR 0x0A"

definition text_line :: "string \<Rightarrow> string" where
  "text_line s = tab # s @ [newline]"

section \<open>Packets\<close>

text \<open>\<open>"%u.%u.%u.%u"\<close> of the four bytes of an address.\<close>

definition dotted :: "u32 \<Rightarrow> string" where
  "dotted ip = show_word (drop_bit 24 ip) @ ''.'' @ show_word (drop_bit 16 ip AND 0xFF) @ ''.''
     @ show_word (drop_bit 8 ip AND 0xFF) @ ''.'' @ show_word (ip AND 0xFF)"

definition Packet_dump :: "(int \<Rightarrow> string) \<Rightarrow> packet \<Rightarrow> string" where
  "Packet_dump to_simple_string p =
     text_line (''id is '' @ show_int (nfqID p))
     @ text_line (''Inbound interface: '' @ strInboundInterface p)
     @ text_line (''Outbound interface: '' @ strOutboundInterface p)
     @ text_line (''time stamp was: '' @ to_simple_string (stamp p))
     @ (if isIngoing p then text_line ''Packet is Ingoing'' else text_line ''Packet is Outgoing'')
     @ text_line (''Source IP raw: '' @ show_word (srcIp p))
     @ text_line (''Source IP: '' @ dotted (srcIp p))
     @ text_line (''Destination IP raw: '' @ show_word (dstIp p))
     @ text_line (''Destination IP: '' @ dotted (dstIp p))
     @ (if transProt p = IPPROTO_ICMP then
          text_line ''ICMP Packet'' @ text_line (''id: '' @ show_word (icmpId p))
        else if transProt p = IPPROTO_UDP then
          text_line (''UDP Source Port: '' @ show_word (sport p))
          @ text_line (''UDP Destination Port: '' @ show_word (dport p))
        else if transProt p = IPPROTO_TCP then
          text_line (''TCP Source Port: '' @ show_word (sport p))
          @ text_line (''TCP Destination Port: '' @ show_word (dport p))
        else text_line ''Unknown Protocol'')"

text \<open>A \<open>uint8_t\<close> goes to a stream as a character: so does the number of an unknown protocol.\<close>

definition Packet6_dump :: "(int \<Rightarrow> string) \<Rightarrow> packet6 \<Rightarrow> string" where
  "Packet6_dump to_simple_string p =
     text_line (''id is '' @ show_int (nfqID p))
     @ text_line (''Inbound interface: '' @ strInboundInterface p)
     @ text_line (''Outbound interface: '' @ strOutboundInterface p)
     @ text_line (''time stamp was: '' @ to_simple_string (stamp p))
     @ text_line (''Payload size: '' @ show_word (plen p))
     @ (if isIngoing p then text_line ''Packet is Ingoing'' else text_line ''Packet is Outgoing'')
     @ text_line (ipv6_to_str_unexpanded (srcIp6 p))
     @ text_line (ipv6_to_str_unexpanded (dstIp6 p))
     @ (if nxt p = IPPROTO_ICMP then
          text_line ''ICMP Packet'' @ text_line (''id: '' @ show_word (icmpId p))
        else if nxt p = IPPROTO_ICMPV6 then
          text_line ''ICMPv6 Packet'' @ text_line (''id: '' @ show_word (icmpId p))
        else if nxt p = IPPROTO_UDP then
          text_line (''UDP Source Port: '' @ show_word (sport p))
          @ text_line (''UDP Destination Port: '' @ show_word (dport p))
        else if nxt p = IPPROTO_TCP then
          text_line (''TCP Source Port: '' @ show_word (sport p))
          @ text_line (''TCP Destination Port: '' @ show_word (dport p))
        else text_line (''Unknown Protocol: '' @ [char_of (unat (nxt p))]))"

section \<open>Memory\<close>

definition HEX_digit :: "nat \<Rightarrow> char" where
  "HEX_digit n = ''0123456789ABCDEF'' ! n"

text \<open>The loop: before every sixteenth byte a new line.\<close>

fun dump_bytes :: "nat \<Rightarrow> u8 list \<Rightarrow> string" where
  "dump_bytes i [] = []"
| "dump_bytes i (b # bs) =
     (if i mod 16 = 0 then [newline, tab, tab] else [])
     @ [HEX_digit (unat b div 16), HEX_digit (unat b mod 16), CHR '':''] @ dump_bytes (Suc i) bs"

definition dash_line :: string where
  "dash_line = [tab, tab] @ replicate 48 (CHR ''-'')"

definition dumpMem :: "u8 list \<Rightarrow> string" where
  "dumpMem p = dash_line @ dump_bytes 0 p @ [newline] @ dash_line @ [newline]"

section \<open>Connection tuples and maps\<close>

definition tuple_text :: "connection_tuple \<Rightarrow> string" where
  "tuple_text ct = ''srcIp: '' @ show_word (getSrcIP ct) @ '' dstIp: '' @ show_word (getDstIP ct)
     @ '' sport: '' @ show_word (getSport ct) @ '' dport: '' @ show_word (getDport ct)"

definition dumpConnMap :: "(connection_tuple, 'v) smap \<Rightarrow> string" where
  "dumpConnMap m = ''dumping map:'' @ [newline] @ concat (map (\<lambda>(k, v). text_line (tuple_text k)) m)"

section \<open>Reading numbers back\<close>

definition digit_value :: "char \<Rightarrow> nat option" where
  "digit_value c = (let n = of_char c :: nat in if 48 \<le> n \<and> n < 58 then Some (n - 48) else None)"

text \<open>The number at the start of a text, and the text behind it.\<close>

fun read_nat :: "nat \<Rightarrow> string \<Rightarrow> nat \<times> string" where
  "read_nat acc [] = (acc, [])"
| "read_nat acc (c # cs) =
     (case digit_value c of None \<Rightarrow> (acc, c # cs) | Some d \<Rightarrow> read_nat (10 * acc + d) cs)"

lemma less_10: "n < 10 \<Longrightarrow> n \<in> {0, 1, 2, 3, 4, 5, 6, 7, 8, 9 :: nat}"
  by (simp add: numeral_eq_Suc less_Suc_eq)

lemma digit_value_digit: "n < 10 \<Longrightarrow> digit_value (digit n) = Some n"
  by (drule less_10) (auto simp: digit_def digit_value_def Let_def)

definition no_digit :: "string \<Rightarrow> bool" where
  "no_digit cs \<longleftrightarrow> (case cs of [] \<Rightarrow> True | c # _ \<Rightarrow> digit_value c = None)"

lemma read_nat_stop: "no_digit cs \<Longrightarrow> read_nat acc cs = (acc, cs)"
  by (cases cs) (simp_all add: no_digit_def)

lemma read_show_acc: "\<exists>k. \<forall>acc cs. read_nat acc (show_nat n @ cs) = read_nat (10 ^ k * acc + n) cs"
proof (induction n rule: show_nat.induct)
  case (1 n)
  show ?case
  proof (cases "n < 10")
    case True
    then show ?thesis by (intro exI [of _ 1]) (simp add: show_nat.simps [of n] digit_value_digit)
  next
    case False
    with 1 obtain k where k: "\<And>acc cs. read_nat acc (show_nat (n div 10) @ cs) = read_nat (10 ^ k * acc + n div 10) cs"
      by blast
    have "10 * (10 ^ k * acc + n div 10) + n mod 10 = 10 ^ Suc k * acc + n" for acc
      using div_mult_mod_eq [of n 10] by (simp add: algebra_simps)
    then show ?thesis using False
      by (intro exI [of _ "Suc k"]) (simp add: show_nat.simps [of n] k digit_value_digit ac_simps)
  qed
qed

lemma read_show_nat: "no_digit cs \<Longrightarrow> read_nat 0 (show_nat n @ cs) = (n, cs)"
  using read_show_acc [of n] by (auto simp: read_nat_stop)

section \<open>Addresses, memory and tuples from their text\<close>

definition read_dotted :: "string \<Rightarrow> u32" where
  "read_dotted s =
     (let (a, s1) = read_nat 0 s; (b, s2) = read_nat 0 (tl s1);
          (c, s3) = read_nat 0 (tl s2); (d, s4) = read_nat 0 (tl s3)
      in push_bit 24 (word_of_nat a) OR push_bit 16 (word_of_nat b)
         OR push_bit 8 (word_of_nat c) OR word_of_nat d)"

lemma read_show_word:
  "no_digit cs \<Longrightarrow> read_nat 0 (show_word w @ cs) = (unat w, cs)"
  "read_nat 0 (show_word w) = (unat w, [])"
  using read_show_nat [of cs] read_show_nat [of "[]"] by (simp_all add: show_word_def no_digit_def)

lemma no_digit_dot [simp]: "no_digit (CHR ''.'' # cs)" "no_digit (CHR '' '' # cs)"
  by (simp_all add: no_digit_def digit_value_def)

lemma read_dotted_dotted: "read_dotted (dotted ip) = ip"
proof -
  have m: "(0xFF :: u32) = mask 8" by (simp add: mask_eq_exp_minus_1)
  have "push_bit 24 (drop_bit 24 ip) OR push_bit 16 (drop_bit 16 ip AND 0xFF)
      OR push_bit 8 (drop_bit 8 ip AND 0xFF) OR (ip AND 0xFF) = ip"
  proof (rule bit_word_eqI)
    fix n assume n: "n < LENGTH(32)"
    consider "n < 8" | "8 \<le> n" "n < 16" | "16 \<le> n" "n < 24" | "24 \<le> n" by linarith
    then show "bit (push_bit 24 (drop_bit 24 ip) OR push_bit 16 (drop_bit 16 ip AND 0xFF)
      OR push_bit 8 (drop_bit 8 ip AND 0xFF) OR (ip AND 0xFF)) n \<longleftrightarrow> bit ip n"
      unfolding m by cases (use n in \<open>auto simp: bit_simps\<close>)
  qed
  then show ?thesis
    by (simp add: read_dotted_def dotted_def read_show_word Let_def)
qed

text \<open>Hexadecimal digits of either case; everything else is skipped.\<close>

definition hex_value :: "char \<Rightarrow> nat option" where
  "hex_value c =
     (let n = of_char c :: nat in
      if 48 \<le> n \<and> n < 58 then Some (n - 48)
      else if 65 \<le> n \<and> n < 71 then Some (n - 55)
      else if 97 \<le> n \<and> n < 103 then Some (n - 87) else None)"

fun hex_pairs :: "nat list \<Rightarrow> u8 list" where
  "hex_pairs (a # b # ns) = word_of_nat (16 * a + b) # hex_pairs ns"
| "hex_pairs _ = []"

definition read_hex :: "string \<Rightarrow> u8 list" where
  "read_hex s = hex_pairs (List.map_filter hex_value s)"

lemma less_16: "n < 16 \<Longrightarrow> n < 10 \<or> n \<in> {10, 11, 12, 13, 14, 15 :: nat}"
  by (simp add: numeral_eq_Suc less_Suc_eq)

lemma hex_value_digits:
  "n < 16 \<Longrightarrow> hex_value (hex_digit n) = Some n" "n < 16 \<Longrightarrow> hex_value (HEX_digit n) = Some n"
  by (drule less_16, auto dest!: less_10 simp: hex_digit_def HEX_digit_def hex_value_def Let_def)+

lemma byte_digits: "word_of_nat (16 * (unat b div 16) + unat b mod 16) = (b :: u8)"
  "unat (b :: u8) div 16 < 16" "unat b mod 16 < 16"
  using unsigned_less [of b, where ?'a = nat] by (simp_all add: less_mult_imp_div_less)

lemma hex_values [simp]:
  "List.map_filter hex_value (xs @ ys) = List.map_filter hex_value xs @ List.map_filter hex_value ys"
  by (induction xs) (simp_all add: map_filter_simps split: option.split)

lemma hex_skip [simp]:
  "hex_value (CHR '':'') = None" "hex_value newline = None" "hex_value tab = None" "hex_value (CHR ''-'') = None"
  by (simp_all add: hex_value_def newline_def tab_def)

lemma hex_skip_replicate: "hex_value c = None \<Longrightarrow> List.map_filter hex_value (replicate n c) = []"
  by (induction n) (simp_all add: map_filter_simps)

lemma hex_value_dashes [simp]: "List.map_filter hex_value dash_line = []"
  by (simp add: dash_line_def map_filter_simps hex_skip_replicate)

lemma dump_bytes_hex: "hex_pairs (List.map_filter hex_value (dump_bytes i bs)) = bs"
  by (induction i bs rule: dump_bytes.induct) (simp_all add: map_filter_simps hex_value_digits byte_digits)

lemma read_hex_dumpMem: "read_hex (dumpMem bs) = bs"
proof -
  have "List.map_filter hex_value (dump_bytes 0 bs @ [newline] @ dash_line @ [newline]) =
      List.map_filter hex_value (dump_bytes 0 bs)" by (simp add: map_filter_simps)
  then show ?thesis by (simp add: read_hex_def dumpMem_def dump_bytes_hex)
qed

lemma ipv6_text:
  "even (length bs) \<Longrightarrow> read_hex (ipv6_to_str_unexpanded bs) = bs
     \<and> length (ipv6_to_str_unexpanded bs) = (if bs = [] then 0 else 5 * (length bs div 2) - 1)"
proof (induction bs rule: ipv6_to_str_unexpanded.induct)
  case (2 a b v va)
  then show ?case by (simp add: read_hex_def hex2_def map_filter_simps hex_value_digits byte_digits)
qed (simp_all add: read_hex_def hex2_def map_filter_simps hex_value_digits byte_digits)

lemma tuple_text_eq_iff:
  "tuple_text t = tuple_text u \<longleftrightarrow> getSrcIP t = getSrcIP u \<and> getDstIP t = getDstIP u
     \<and> getSport t = getSport u \<and> getDport t = getDport u"
proof
  assume e: "tuple_text t = tuple_text u"
  define rest where "rest = (\<lambda>(n, s). (n :: nat, drop 8 s))"
  have r: "read_nat 0 (show_word w @ '' dstIp: '' @ s) = (unat w, '' dstIp: '' @ s)"
    "read_nat 0 (show_word x @ '' sport: '' @ s) = (unat x, '' sport: '' @ s)"
    "read_nat 0 (show_word y @ '' dport: '' @ s) = (unat y, '' dport: '' @ s)"
    for w x :: u32 and y :: u16 and s
    by (rule read_show_word(1), simp)+
  from e have a: "show_word (getSrcIP t) @ '' dstIp: '' @ show_word (getDstIP t) @ '' sport: '' @ show_word (getSport t) @ '' dport: '' @ show_word (getDport t)
      = show_word (getSrcIP u) @ '' dstIp: '' @ show_word (getDstIP u) @ '' sport: '' @ show_word (getSport u) @ '' dport: '' @ show_word (getDport u)"
    by (simp add: tuple_text_def)
  from arg_cong [OF this, of "read_nat 0"]
  have b: "getSrcIP t = getSrcIP u" "show_word (getDstIP t) @ '' sport: '' @ show_word (getSport t) @ '' dport: '' @ show_word (getDport t)
      = show_word (getDstIP u) @ '' sport: '' @ show_word (getSport u) @ '' dport: '' @ show_word (getDport u)"
    unfolding r by (simp_all add: word_unat_eq_iff)
  from arg_cong [OF b(2), of "read_nat 0"]
  have c: "getDstIP t = getDstIP u" "show_word (getSport t) @ '' dport: '' @ show_word (getDport t)
      = show_word (getSport u) @ '' dport: '' @ show_word (getDport u)"
    unfolding r by (simp_all add: word_unat_eq_iff)
  from arg_cong [OF c(2), of "read_nat 0"]
  have d: "getSport t = getSport u" "show_word (getDport t) = show_word (getDport u)"
    unfolding r by (simp_all add: word_unat_eq_iff)
  from arg_cong [OF d(2), of "read_nat 0"] have "getDport t = getDport u"
    unfolding read_show_word(2) by (simp add: word_unat_eq_iff)
  with b(1) c(1) d(1) show "getSrcIP t = getSrcIP u \<and> getDstIP t = getDstIP u
     \<and> getSport t = getSport u \<and> getDport t = getDport u" by blast
qed (simp add: tuple_text_def)

text \<open>
  C26. What is printed identifies what it is printed for: the dotted form of an IPv4 address, the
  sixteen bytes of an IPv6 address and dumped memory can be read back; the text of an IPv6
  address with its terminating zero fits the buffer of 40 characters; two connection tuples have
  the same text exactly if they agree in all but the protocol.
\<close>

theorem printed_text_roundtrip:
  "read_dotted (dotted ip) = ip
   \<and> read_hex (dumpMem mem) = mem
   \<and> (length a = 16 \<longrightarrow> read_hex (ipv6_to_str_unexpanded a) = a
        \<and> length (ipv6_to_str_unexpanded a) + 1 \<le> 40)
   \<and> (tuple_text t = tuple_text u \<longleftrightarrow> getSrcIP t = getSrcIP u \<and> getDstIP t = getDstIP u
        \<and> getSport t = getSport u \<and> getDport t = getDport u)"
  using read_dotted_dotted read_hex_dumpMem tuple_text_eq_iff ipv6_text [of a] by auto

lemma printed_text_roundtrip_witness:
  "read_hex (ipv6_to_str_unexpanded (replicate 16 10)) = replicate 16 10
   \<and> length (ipv6_to_str_unexpanded (replicate 16 10)) + 1 \<le> 40"
  using printed_text_roundtrip [of 0 "[]" "replicate 16 10"] by simp

section \<open>Examples\<close>

lemma dotted_example: "dotted 0xC0A80001 = ''192.168.0.1''"
  by (simp add: dotted_def show_word_def show_nat.simps digit_def drop_bit_eq_div)

text \<open>A next header that the dump does not know is printed as a character, not as a number.\<close>

lemma Packet6_dump_unknown:
  assumes "nxt p \<notin> {IPPROTO_ICMP, IPPROTO_ICMPV6, IPPROTO_UDP, IPPROTO_TCP}"
  shows "\<exists>s. Packet6_dump to_simple_string p = s @ ''Unknown Protocol: '' @ [char_of (unat (nxt p)), newline]"
  using assms by (simp add: Packet6_dump_def text_line_def)

end
