(* ===== verification/Filter_Tests.thy ===== *)
theory Filter_Tests
  imports Nat_Handler Dynamic_Delay
begin

text \<open>
  The test cases of filter\_tests.cpp, run on the model by evaluation: the addresses, ports and
  packets are those of the tests, and the results are what the tests require. They check the
  translation of the filters against what the authors of the program expect.
\<close>

declare mapPort_loop.simps [code]

section \<open>The tests' packets\<close>

definition intIp :: u32 where "intIp = 0x0A000001"
definition extIp :: u32 where "extIp = 0x0F000001"
definition remIp1 :: u32 where "remIp1 = 0x14000001"
definition remIp2 :: u32 where "remIp2 = 0x1E000001"
definition intPort :: u16 where "intPort = 5000"
definition remPort1 :: u16 where "remPort1 = 5300"
definition remPort2 :: u16 where "remPort2 = 5400"

text \<open>A packet of a test: its direction, addresses and ports.\<close>

definition tst_pkt :: "bool \<Rightarrow> u32 \<Rightarrow> u32 \<Rightarrow> u16 \<Rightarrow> u16 \<Rightarrow> packet" where
  "tst_pkt ing src dst sp dp = (Packet_test 0 (example_packet ing 0 0 0 0) src dst sp dp)\<lparr>isIngoing := ing\<rparr>"

definition tst_nat :: "string \<Rightarrow> u32 \<Rightarrow> nat_handler" where
  "tst_nat type to =
     snd (Nat_init (Nat_setNatType type (Nat_setTimeout to
       (Nat_setIPs (\<lambda>s. if s = ''15.0.0.1'' then extIp else intIp) ''15.0.0.1'' ''10.0.0.1''
         (Nat_new (example_nat PORT_R_NAT))))))"

text \<open>What the test filter behind the NAT sees of each packet: addresses and ports, or nothing.\<close>

fun tst_run :: "int \<Rightarrow> packet list \<Rightarrow> nat_handler \<Rightarrow> fault + (u32 \<times> u32 \<times> u16 \<times> u16) option list \<times> nat_handler" where
  "tst_run now [] n = Inr ([], n)"
| "tst_run now (p # ps) n =
     try_bind (Nat_handlePacket now p n) (\<lambda>(res, n').
     try_bind (tst_run now ps n') (\<lambda>(rs, n'').
       Inr (map_option (\<lambda>q. (srcIp q, dstIp q, sport q, dport q)) res # rs, n'')))"

definition tst_out :: "string \<Rightarrow> packet list \<Rightarrow> (u32 \<times> u32 \<times> u16 \<times> u16) option list option" where
  "tst_out type ps = (case tst_run 0 ps (tst_nat type 600) of Inl e \<Rightarrow> None | Inr (rs, n) \<Rightarrow> Some rs)"

text \<open>Packets 1 to 5, which are the same in the four tests; packet 6 goes out.\<close>

definition tst_packets :: "packet \<Rightarrow> packet list" where
  "tst_packets p6 =
     [tst_pkt False intIp remIp1 intPort remPort1,
      tst_pkt True remIp1 extIp remPort1 intPort,
      tst_pkt True remIp2 extIp remPort1 intPort,
      tst_pkt True remIp1 extIp remPort2 intPort,
      tst_pkt True remIp2 extIp remPort2 intPort,
      p6]"

section \<open>The four NAT types\<close>

lemma TestNatFilterSymNat:
  "tst_out ''symnat'' (tst_packets (tst_pkt False intIp remIp1 intPort remPort2)) =
     Some [Some (extIp, remIp1, intPort, remPort1), Some (remIp1, intIp, remPort1, intPort),
       None, None, None, Some (extIp, remIp1, intPort + 1, remPort2)]"
  by code_simp

lemma TestNatFilterFullconeNat:
  "tst_out ''fullcone'' (tst_packets (tst_pkt False intIp remIp2 intPort remPort2)) =
     Some [Some (extIp, remIp1, intPort, remPort1), Some (remIp1, intIp, remPort1, intPort),
       Some (remIp2, intIp, remPort1, intPort), Some (remIp1, intIp, remPort2, intPort),
       Some (remIp2, intIp, remPort2, intPort), Some (extIp, remIp2, intPort, remPort2)]"
  by code_simp

lemma TestNatFilterPortrNat:
  "tst_out ''portr'' (tst_packets (tst_pkt False intIp remIp1 intPort remPort2)) =
     Some [Some (extIp, remIp1, intPort, remPort1), Some (remIp1, intIp, remPort1, intPort),
       None, None, None, Some (extIp, remIp1, intPort, remPort2)]"
  by code_simp

lemma TestNatFilterAddrNat:
  "tst_out ''addrr'' (tst_packets (tst_pkt False intIp remIp2 intPort remPort2)) =
     Some [Some (extIp, remIp1, intPort, remPort1), Some (remIp1, intIp, remPort1, intPort),
       None, Some (remIp1, intIp, remPort2, intPort), None, Some (extIp, remIp2, intPort, remPort2)]"
  by code_simp

section \<open>The timeout of a connection\<close>

text \<open>While the test sleeps, the timers of the mapper's entries run out and the deleters run.\<close>

fun tst_expire :: "int \<Rightarrow> nat list \<Rightarrow> nat_mapper \<Rightarrow> nat_mapper" where
  "tst_expire now [] m = m"
| "tst_expire now (i # is) m =
     (case store_expire now i (entries m) of
        None \<Rightarrow> tst_expire now is m
      | Some st \<Rightarrow>
          (case store_reap 0 st of
             None \<Rightarrow> tst_expire now is (m\<lparr>entries := st\<rparr>)
           | Some ((j, e), st') \<Rightarrow>
               tst_expire now is (NatMapper_removeFromMaps (intTuple e) (extTuple e) (m\<lparr>entries := st'\<rparr>))))"

definition tst_sleep :: "int \<Rightarrow> nat_handler \<Rightarrow> nat_handler" where
  "tst_sleep now n =
     (case natMapper n of
        Some (PlainMapper m) \<Rightarrow>
          n\<lparr>natMapper := Some (PlainMapper (tst_expire now [0 ..< next_entry (entries m)] m))\<rparr>
      | _ \<Rightarrow> n)"

text \<open>A behaviour of the mapper: expiries and deleters, one after the other.\<close>

lemma tst_expire_steps: "nm_reachable m0 m \<Longrightarrow> nm_reachable m0 (tst_expire now is m)"
proof (induction now "is" m rule: tst_expire.induct)
  case (2 now i "is" m)
  show ?case
  proof (cases "store_expire now i (entries m)")
    case None
    then show ?thesis using 2 by simp
  next
    case (Some st)
    then have r: "nm_reachable m0 (m\<lparr>entries := st\<rparr>)" using 2(4) by (blast intro: nm_reachable.step nm_step.expire)
    show ?thesis
    proof (cases "store_reap 0 st")
      case None
      then show ?thesis using 2(2) [OF Some None r] Some by simp
    next
      case x: (Some x)
      obtain j e st' where e: "x = ((j, e), st')" by (metis prod.exhaust)
      have "nm_step (m\<lparr>entries := st\<rparr>) (NatMapper_removeFromMaps (intTuple e) (extTuple e) (m\<lparr>entries := st'\<rparr>))"
        using nm_step.delete [of 0 "m\<lparr>entries := st\<rparr>" j e st'] x e by simp
      from 2(3) [OF Some x e [symmetric] refl nm_reachable.step [OF r this]] show ?thesis using Some x e by simp
    qed
  qed
qed simp

definition tst_timeout :: "(u32 \<times> u32 \<times> u16 \<times> u16) option list option" where
  "tst_timeout =
     (let out = tst_pkt False intIp remIp1 intPort remPort1; ans = tst_pkt True remIp1 extIp remPort1 intPort
      in case tst_run 0 [out, ans] (tst_nat ''fullcone'' 1) of
           Inl e \<Rightarrow> None
         | Inr (rs, n) \<Rightarrow>
             (case tst_run 2000000 [ans, out, ans] (tst_sleep 2000000 n) of
                Inl e \<Rightarrow> None
              | Inr (ts, n') \<Rightarrow> Some (rs @ ts)))"

lemma testNatConnectionTimeout:
  "tst_timeout =
     Some [Some (extIp, remIp1, intPort, remPort1), Some (remIp1, intIp, remPort1, intPort),
       None, Some (extIp, remIp1, intPort, remPort1), Some (remIp1, intIp, remPort1, intPort)]"
  by code_simp

section \<open>The dynamic delay filter\<close>

lemma TestDynamicDelayFilter:
  "\<exists>s'. setDelays [0, 8, 5] 4 DynamicDelay_new = Inr ([0, 2, 4, 6, 8, 7, 6, 5, 5, 3, 2, 1], s' :: nat dynamic_delay)"
proof -
  have "curve_segment 0 0 8 4 = [2, 4, 6, 8]" "curve_segment 8 8 5 4 = [7, 6, 5, 5]"
    "curve_segment 5 5 0 4 = [3, 2, 1, 0]"
    by (simp_all add: curve_segment_def curve_point_def f32_eval)
  then show ?thesis by (simp add: setDelays_def)
qed

end
