(* ===== verification/Tp_Service.thy ===== *)
theory Tp_Service
  imports Prelude
begin

text \<open>
  \<open>TpService\<close> (tp\_service.hpp, tp\_service.cpp): the one thread pool that runs the handlers
  of all filters. The threads and the \<open>io_service\<close> are boost's: what the class does is the
  sequence of calls it makes. An \<open>io_service::work\<close> object keeps \<open>run\<close> from returning while
  it lives; the one that \<open>init\<close> has on its stack dies when \<open>init\<close> returns.
\<close>

datatype asio_call =
    Work_new \<comment> \<open>construct an \<open>io_service::work\<close>\<close>
  | Work_delete
  | Create_thread \<comment> \<open>a thread that calls \<open>io_service::run\<close>\<close>
  | Service_stop

record tp_service =
  work_member :: bool \<comment> \<open>\<open>work_\<close> is set\<close>
  threadpool :: nat

definition TpService_new :: tp_service where
  "TpService_new = \<lparr>work_member = False, threadpool = 0\<rparr>"

definition TpService_init :: "nat \<Rightarrow> tp_service \<Rightarrow> asio_call list \<times> tp_service" where
  "TpService_init count tp =
     (Work_new # Work_new # (if work_member tp then [Work_delete] else [])
        @ replicate count Create_thread @ [Work_delete],
      tp\<lparr>work_member := True, threadpool := threadpool tp + count\<rparr>)"

text \<open>The destructor stops the service; then the members go.\<close>

definition TpService_destroy :: "tp_service \<Rightarrow> asio_call list" where
  "TpService_destroy tp = Service_stop # (if work_member tp then [Work_delete] else [])"

text \<open>The static variable of \<open>getInstance\<close> is its state.\<close>

definition getInstance :: "tp_service option \<Rightarrow> asio_call list \<times> tp_service" where
  "getInstance inst =
     (case inst of None \<Rightarrow> TpService_init 4 TpService_new | Some tp \<Rightarrow> ([], tp))"

fun instances :: "nat \<Rightarrow> tp_service option \<Rightarrow> asio_call list" where
  "instances 0 inst = []"
| "instances (Suc n) inst = (let (cs, tp) = getInstance inst in cs @ instances n (Some tp))"

definition works :: "asio_call list \<Rightarrow> int" where
  "works cs = int (count_list cs Work_new) - int (count_list cs Work_delete)"

lemma instances_later: "instances n (Some tp) = []"
  by (induction n) (simp_all add: getInstance_def)

text \<open>
  However often the filters ask for the pool, four threads are made, and exactly one work object
  is left, so that none of them returns.
\<close>

lemma pool_once:
  "instances (Suc n) None = [Work_new, Work_new] @ replicate 4 Create_thread @ [Work_delete]"
  "works (instances (Suc n) None) = 1"
  by (simp_all add: getInstance_def TpService_init_def TpService_new_def instances_later works_def
      numeral_eq_Suc)

end
