(* ===== verification/Spec2Isabelle.thy ===== *)
theory Spec2Isabelle
  imports Output_Properties Main_Lossless Nat_Table_Sym Nat_Mapper_Threads Packet_Text Filter_Tests Tp_Service
begin

text \<open>
  \<^bold>\<open>A traffic shaping router, verified.\<close>

  The program receives the packets of a network interface from the Linux netfilter queue, runs
  each through a chain of filters that delay, drop, rate limit, collect or translate it, and
  either accepts it or drops it and sends a rebuilt packet with libnet. The options say which
  filters there are and how they are configured. This development translates the program, from
  the parsed options to the calls of libnet, and proves what it promises: order, rates, delays
  and the semantics of the address translation. Where the code does something else, that is a
  theorem as well.

  \<^bold>\<open>The parts and the theories\<close>, in the order of their imports. File names are those of
  src/src and src/src/filters.

  \<^item> Prelude: the integer types, faults (an expression without a value in C++, such as the
    dereference of a null pointer, is \<open>Inl\<close> of a fault), reads of raw memory in host and in
    network byte order. Float32: the type \<open>float\<close>, with the rounding of each operation.
    Std_Map: \<open>std::map\<close> over a comparison that may identify keys.
  \<^item> Packets (parent_packet.hpp, packet.hpp, packet.cpp, packet6.hpp, packet6.cpp): records with
    the fields of the classes, inheritance as record extension, and the constructors, which
    parse the memory that netfilter delivers.
  \<^item> Async_Queue (async_queue.hpp): the queue between the packet source and a filter; first its
    operations, then the critical sections of several threads interleaved.
  \<^item> Connection_Tuple, Connection_Entry (connection_tuple.hpp, connection_entry.hpp): the keys of
    the translation and the entries that live as long as their timer. An entry that expired and
    whose deleter has still to run is a state of the model.
  \<^item> Nat_Mapper, Nat_Mapper_Steps, Nat_Mapper_Properties (nat_mapper.hpp, nat_mapper.cpp): the
    mapper that keeps port numbers and the symmetric one; their transition systems with timers
    and deleters at any moment; invariants and what follows from them. Nat_Mapper_Threads: the
    sections of \<open>mapPacket\<close> between which the mutex is released, interleaved by several threads.
  \<^item> Nat_Filters (nat_filters.hpp, nat_filters.cpp): the full cone, address restricted and port
    restricted filters. Nat_Handler (nat.hpp, nat.cpp): the class that puts a mapper and a
    filter together. Nat_Table, Nat_Table_Sym: what that class is meant to do, as tables without
    objects and pointers, and the proof that it does it. Nat_Origin: its state against the packets
    that it has handled.
  \<^item> Stage: the contract of a filter as an element of a chain, \<open>fifo_stage\<close> (the packets of one
    direction stay in order and are not invented) and \<open>lossless_stage\<close> (and none is lost).
  \<^item> Shaper (shaper.hpp, shaper.cpp), Dynamic_Delay (dynamic_delay.hpp, dynamic_delay.cpp),
    Dynamic_Loss (dynamic_loss.hpp, dynamic_loss.cpp), Burst_Filter (burst_filter.hpp),
    Token_Bucket and Token_Bucket_Filter (tbf_filter.hpp): the shaping filters, each a record
    with its operations, a step relation whose steps are the calls, posted handlers and timers
    of the class, and an interpretation of the contract.
  \<^item> Outputs, Output_Properties (input.hpp, input_drop.hpp, output.hpp, output_libnet.hpp,
    output_libnet.cpp, output6_libnet.hpp, output6_libnet.cpp): the two ends of a chain. What an
    output does is the sequence of its calls of libnet.
  \<^item> Router (router.hpp, router.cpp): the objects, their \<open>next_\<close> pointers, configuration,
    initialisation, \<open>newPacket\<close> and \<open>execute\<close>, each for IPv4 and for IPv6. Router_Topology:
    which chain \<open>init\<close> links. Router_Chain: steps of a whole chain, and what its outputs send.
    Router_Ready: the state of every object after \<open>initFilters\<close>. Chain_Types: the \<open>next_\<close> pointers
    as typed pointers. Router_Account: packets counted through a chain. Router_Verdicts: the verdicts
    that the filters of a chain report to netfilter. Router_Origin: which of the packets that came
    in is sent, and with which changes.
  \<^item> Main_Options (main.cpp): the parts of \<open>main\<close> that turn options into a running router.
    Main_Runs: the whole program, from the options and the messages of netfilter to the verdicts.
    Main_Origin: the configuration that the options give the address translation, and what it
    lets through the whole router. Main_Lossless: a router of delays and bursts loses nothing.
  \<^item> Packet_Text (packet.cpp, packet6.cpp, parent_packet.hpp, nat.cpp, nat_filters.cpp): what the
    program prints about packets, memory and tuples.
  \<^item> Tp_Service (tp_service.hpp, tp_service.cpp): the thread pool, as its calls of boost.
  \<^item> Filter_Tests: the test cases of filter_tests.cpp, evaluated on the model.

  \<^bold>\<open>How the parts interact.\<close> \<open>Router_execute\<close> and its IPv6 counterpart loop over the result of
  the netfilter library; \<open>newPacket\<close> makes a packet of the delivered memory and hands it to
  the start of the chain. A filter calls \<open>handlePacket\<close> of its \<open>next_\<close>; a filter that waits
  pushes the packet into an asynchronous queue and goes on in a handler that the queue or a timer
  posts. The model has one step per such call or handler; of the burst filter, which a packet
  crosses without its mutex, a chain has the critical sections (\<open>burst_race\<close>). A step says which
  packets came in and which went on, and \<open>chain_step\<close> composes the steps of the filters so that what
  one passes on is what the next takes in. An output passes nothing on, wherever it is in the chain;
  it sends (\<open>obj_send\<close>). What leaves the router is therefore not a packet object but an
  \<open>egress\<close>: the accept verdict for an id, upon which the kernel sends the packet as it received it, or
  the calls up to a successful \<open>libnet_write\<close>; the packet object that the output had is kept
  beside it. Main_Options goes the whole way: the options,
  \<open>main\<close>, \<open>Router_init\<close>, the configuration calls, \<open>initFilters\<close>, and then any run of the chain;
  Main_Runs puts the netfilter loop in front of it, so that the packets of the run are those that
  the constructors make of the received messages.

  \<^bold>\<open>The interfaces.\<close> \<open>strict_weak_order\<close> is what \<open>std::map\<close> requires of a comparison, interpreted
  for the three comparisons of the connection tuples, and \<open>tuple_order\<close> what the restricted filters
  add, interpreted for both. \<open>pop_channel\<close> is what filters expect of the queue. \<open>fifo_stage\<close> and
  \<open>lossless_stage\<close> are interpreted for every filter; \<open>libnet_output\<close> states of a packet builder what
  the queue and the handler around it need, and is interpreted for both protocols;
  \<open>chain_filters\<close> extends it to the filters of one chain, and \<open>verdict_filters\<close> that by the
  verdicts; both are interpreted for the two chains. Three contracts carry over from filters and
  outputs to chains of any length: \<open>fifo_chain\<close> (order), \<open>accounted_chain\<close> (counting, with the
  identities of packets or the ids of undecided packets as weights, up to inclusion or equality) and
  \<open>origin_chain\<close> (which packets a filter may pass on or send when it was given packets of a set); all
  are interpreted for both chains. \<open>origin_filters\<close> has the last for the address translation
  of a chain and gives it for all filters.

  \<^bold>\<open>What the groups of lemmas show.\<close>
  Order and loss: what a chain sends it sends of packets that came in, of each at most once; every
  filter but the burst filter keeps the order per direction, and so does any chain of them. The burst
  filter keeps the order when its calls do not overlap, and can reorder packets when they
  do (\<open>burst_race_reorders\<close>), so a chain with it has no order. The delay filters
  and the burst filter lose no packet, nor does a router of these. Timing: a packet leaves a
  delay filter no earlier than its delay; a token bucket conforms to its rate in every window; what
  the bucket's rounding loses. Arithmetic: the float curve of \<open>setDelays\<close> against exact
  interpolation, the loss decision against the configured share, the drop quotient of the token
  bucket, which is 0. Translation: the mapper invariants in every reachable state, answers reach
  the host that asked, unsolicited packets do not pass, also when calls of several threads
  interleave (and what goes wrong then), what the four NAT types let in, and the same for the whole
  router in drop mode: the translation in its chain has the configuration of the options, what is
  written with libnet is built of packets that came in, rewritten by the translation alone, and an
  ingoing packet without a rule was asked for. Refinement: with prompt
  deleters \<open>Nat\<close> is bisimilar to a table of hosts and remote ends in the three types that keep
  ports, and to a table of sessions in the symmetric type; a restricted filter alone is a table of
  deadlines. Types: every \<open>next_\<close> pointer of a running router leads to an object of the class that
  the call expects. Text: what is printed of addresses, memory and tuples can be read back. Wire formats: constructor and libnet
  output against the layout of IPv4, UDP, TCP and IPv6. Verdicts: netfilter gets at most one
  verdict for each packet, and in drop mode exactly one. Start: the chain that is linked for a
  list of names, when the program exits, runs or dereferences a null pointer.

  \<^bold>\<open>Bounds and fuel.\<close> Machine integers are words of their width, so wrap-around is part of the
  model; the bounds that exclude it are hypotheses of the theorems that need them, in the
  units of the code. The port search \<open>mapPort\<close> is a \<open>partial_function (option)\<close>, since it
  does not end when all ports are taken; Nat_Mapper_Properties gives the exact condition. \<open>follow\<close>,
  which walks the pointers of a chain, has the number of objects as fuel, enough because the
  pointers of a chain that \<open>init\<close> makes are distinct. Loops over vectors are structural
  recursions; the loop over \<open>recv\<close> is one over the list of its results.

  \<^bold>\<open>Parameters.\<close> Code outside of the repository is an argument: what libnet and netfilter
  return, \<open>inet_network\<close>, \<open>rand\<close> (every value up to \<open>RAND_MAX\<close>, 2147483647, the value of the C
  library for Linux), the clock (the time of every step) and the result of the option parser. What
  boost::asio does is the freedom of the step relations: an armed timer may run its handler at
  any time from its expiry on, and posted handlers run at any time and in any order.

  \<^bold>\<open>Not modelled.\<close> What the threads of the pool do between the steps of the handlers, and the
  memory model of C++. In a chain a call of \<open>handlePacket\<close> runs through the filters behind it up to
  the next queue in one step; upstream filters without burst hand over one packet of a direction at a
  time, so this loses no order of one direction. The mutexes themselves: that a thread waits for
  one, or for itself (the filters of the address translation destroy an entry while they hold
  the mutex that its deleter takes). What the kernel does with an accepted packet, and what libnet
  makes of its calls. The messages that \<open>main\<close> and the filters print about themselves, what is
  compiled only under \<open>TRACE_LOG\<close>, and the tests (whose cases are evaluated in Filter_Tests). Getters
  and setters that only read or write a field are the fields of the records. The destructors, which
  free what the model does not allocate, and the exception class \<open>queue_error\<close>, which nothing throws.
  Concurrent access without a lock is modelled where the code has it on the path of a packet in the
  burst filter and in the mappers, and in the critical sections of the queue; the two writes of
  \<open>makeNewConn\<close> to its maps are one step, elsewhere an operation is one step. A float is
  finite, NaN and infinities do not arise. The storage of an object is not reused in the model, so
  an address of an entry stands for one entry.
\<close>

end
